(* ===== verification/Prelude.thy ===== *)
theory Prelude
  imports Main "HOL-Library.Word"
begin

text \<open>
  Shared vocabulary of the development: the C integer types of \<^verbatim>\<open>src/src/include/types.h\<close>
  as words, the outcome type of code that may not return normally, and the generic facts on
  words and outcomes that every component theory uses.

  A C \<^verbatim>\<open>int\<close> is an \<^typ>\<open>int\<close>; where the code converts a 64-bit value to \<^verbatim>\<open>int\<close> (or back)
  the truncation and the sign extension are written out with \<open>int_of_u64\<close> and \<open>u64_of_int\<close>.
\<close>

unbundle bit_operations_syntax

section \<open>Types\<close>

type_synonym uint8 = "8 word"
type_synonym uint16 = "16 word"
type_synonym uint32 = "32 word"
type_synonym uint64 = "64 word"
type_synonym pte_t = uint64

text \<open>
  The ways in which a call of the modelled code does not return normally: the macro
  \<^verbatim>\<open>panic\<close> prints and then spins in \<^verbatim>\<open>while (1)\<close>; a store through a null pointer; spinning on
  a lock that nobody will release; an operation the C standard leaves undefined.
\<close>

datatype error =
    Panic string
  | Null_deref
  | Spin_forever
  | Undefined string

type_synonym 'a outcome = "error + 'a"

definition bindE :: "'a outcome \<Rightarrow> ('a \<Rightarrow> 'b outcome) \<Rightarrow> 'b outcome" where
  "bindE r f = (case r of Inl e \<Rightarrow> Inl e | Inr x \<Rightarrow> f x)"

text \<open>Conversions between 64-bit values and the 32-bit signed \<^verbatim>\<open>int\<close>.\<close>

definition int_of_u64 :: "uint64 \<Rightarrow> int" where
  "int_of_u64 x = sint (ucast x :: uint32)"

definition u64_of_int :: "int \<Rightarrow> uint64" where
  "u64_of_int i = word_of_int i"

section \<open>Automation\<close>

named_theorems outcome_simps \<open>unfolding of sequential composition of outcomes\<close>
named_theorems layout_defs \<open>numeric constants of the memory layout\<close>
named_theorems csr_defs \<open>numeric constants of control and status registers\<close>

lemma bindE_Inl [simp, outcome_simps]: "bindE (Inl e) f = Inl e"
  by (simp add: bindE_def)

lemma bindE_Inr [simp, outcome_simps]: "bindE (Inr x) f = f x"
  by (simp add: bindE_def)

lemma bindE_eq_Inr_iff [outcome_simps]: "bindE r f = Inr y \<longleftrightarrow> (\<exists>x. r = Inr x \<and> f x = Inr y)"
  by (cases r) auto

lemma bindE_eq_Inl_iff: "bindE r f = Inl e \<longleftrightarrow> r = Inl e \<or> (\<exists>x. r = Inr x \<and> f x = Inl e)"
  by (cases r) auto

lemma bindE_assoc: "bindE (bindE r f) g = bindE r (\<lambda>x. bindE (f x) g)"
  by (cases r) auto

lemma bindE_cong [fundef_cong]:
  "r = r' \<Longrightarrow> (\<And>x. r' = Inr x \<Longrightarrow> f x = f' x) \<Longrightarrow> bindE r f = bindE r' f'"
  by (cases r') auto

lemma bindE_InrE [elim!]:
  assumes "bindE r f = Inr y"
  obtains x where "r = Inr x" and "f x = Inr y"
  using assms by (auto simp: bindE_eq_Inr_iff)

section \<open>Multiples\<close>

lemma multiples_apart:
  fixes a b n :: nat
  assumes "a mod n = 0" "b mod n = 0" "a < b"
  shows "a + n \<le> b"
proof -
  have "n dvd b - a" using assms by (simp add: mod_0_imp_dvd)
  then have "n \<le> b - a" by (rule dvd_imp_le) (use assms in simp)
  with assms show ?thesis by simp
qed

lemma multiples_apart_int:
  fixes a b n :: int
  assumes "a mod n = 0" "b mod n = 0" "a < b"
  shows "a + n \<le> b"
proof -
  have "n dvd b - a" using assms by (simp add: mod_0_imp_dvd)
  then have "n \<le> b - a" by (rule zdvd_imp_le) (use assms in simp)
  then show ?thesis by simp
qed

section \<open>Words\<close>

lemma bit_word_beyond: "n \<ge> LENGTH('a) \<Longrightarrow> \<not> bit (w :: 'a :: len word) n"
  using bit_imp_le_length [of w n] by auto

lemma unat_less_length: "unat (w :: 'a :: len word) < 2 ^ LENGTH('a)"
  by (rule unsigned_less)

lemma unat_two_power: "n < LENGTH('a) \<Longrightarrow> unat (2 ^ n :: 'a :: len word) = 2 ^ n"
  by (simp add: of_nat_inverse)

lemma take_bit_eq_self_word: "(w :: 'a :: len word) < 2 ^ n \<Longrightarrow> take_bit n w = w"
  by (simp add: mod_word_less take_bit_eq_mod)

lemma take_bit_less_two_power:
  "n < LENGTH('a) \<Longrightarrow> take_bit n (w :: 'a :: len word) < 2 ^ n"
  by (simp add: word_less_nat_alt unat_two_power unsigned_take_bit_eq)

lemma bit_take_bit_zeroD: "take_bit n (p :: 'a :: len word) = 0 \<Longrightarrow> k < n \<Longrightarrow> \<not> bit p k"
  by (metis bit_0_eq bit_take_bit_iff bot_apply bot_bool_def)

lemma bit_less_two_powerD: "(x :: 'a :: len word) < 2 ^ n \<Longrightarrow> bit x k \<Longrightarrow> k < n"
  by (metis bit_take_bit_iff take_bit_eq_self_word)

text \<open>
  Adding a small offset to an aligned address sets the low bits only: the page number of the
  sum is that of the address, its low bits are the offset.
\<close>

lemma aligned_add_eq_or:
  fixes p x :: "'a :: len word"
  assumes "take_bit n p = 0" and "x < 2 ^ n"
  shows "p + x = p OR x"
proof (rule disjunctive_add)
  fix k
  show "\<not> bit p k \<or> \<not> bit x k"
    using assms bit_take_bit_zeroD bit_less_two_powerD by blast
qed

lemma aligned_add_take_bit:
  fixes p x :: "'a :: len word"
  assumes "take_bit n p = 0" and "x < 2 ^ n"
  shows "take_bit n (p + x) = x"
  using assms by (simp add: aligned_add_eq_or take_bit_eq_self_word)

lemma aligned_add_drop_bit:
  fixes p x :: "'a :: len word"
  assumes "take_bit n p = 0" and "x < 2 ^ n"
  shows "drop_bit n (p + x) = drop_bit n p"
proof -
  have "drop_bit n x = 0"
    using assms(2) by (metis take_bit_eq_self_iff_drop_bit_eq_0 take_bit_eq_self_word)
  then show ?thesis using assms by (simp add: aligned_add_eq_or)
qed

lemma aligned_add_cancel:
  fixes p q x y :: "'a :: len word"
  assumes "take_bit n p = 0" "take_bit n q = 0" "x < 2 ^ n" "y < 2 ^ n" "p + x = q + y"
  shows "p = q \<and> x = y"
proof -
  have "x = y" using assms by (metis aligned_add_take_bit)
  with assms(5) show ?thesis by simp
qed

lemma take_bit_add_aligned:
  fixes p x :: "'a :: len word"
  assumes "take_bit n p = 0" and "take_bit n x = 0"
  shows "take_bit n (p + x) = 0"
  using assms by (simp add: take_bit_eq_0_iff)

lemma bits_split: "push_bit n (drop_bit n (w :: 'a :: len word)) OR take_bit n w = w"
  by (rule bit_word_eqI) (auto simp: bit_simps)

lemma int_of_u64_small:
  assumes "x < 0x80000000"
  shows "int_of_u64 x = uint x"
proof -
  have "uint x < 0x80000000" using assms by (simp add: word_less_def)
  moreover have "uint (ucast x :: uint32) = uint x"
    using calculation by (simp add: unsigned_ucast_eq take_bit_int_eq_self)
  moreover have "- 2147483648 \<le> uint x"
    using unsigned_greater_eq [of x] by (rule order_trans [rotated]) simp
  ultimately show ?thesis
    using signed_take_bit_int_eq_self [of 31 "uint x"] by (simp add: int_of_u64_def sint_uint)
qed

end
