(* ===== verification/Transition.thy ===== *)
theory Transition
  imports Prelude
begin

text \<open>
  Transition systems for the code that several harts execute at the same time: reachable states,
  invariants by induction over the steps, and simulations onto a more abstract system. The
  spinlock and the barrier are interpretations.
\<close>

locale transition_system =
  fixes init :: "'s \<Rightarrow> bool" and step :: "'s \<Rightarrow> 's \<Rightarrow> bool"
begin

inductive reach :: "'s \<Rightarrow> bool" where
  reach_init: "init s \<Longrightarrow> reach s"
| reach_step: "reach s \<Longrightarrow> step s s' \<Longrightarrow> reach s'"

lemma reach_invariant:
  assumes "reach s" "\<And>s. init s \<Longrightarrow> I s" "\<And>s s'. reach s \<Longrightarrow> I s \<Longrightarrow> step s s' \<Longrightarrow> I s'"
  shows "I s"
  using assms(1) by (induction rule: reach.induct) (use assms(2,3) in blast)+

text \<open>A run given as the list of its states.\<close>

fun run :: "'s \<Rightarrow> 's list \<Rightarrow> bool" where
  "run s [] \<longleftrightarrow> True"
| "run s (t # ts) \<longleftrightarrow> step s t \<and> run t ts"

lemma reach_run: "reach s \<Longrightarrow> run s ts \<Longrightarrow> reach (last (s # ts))"
proof (induction ts arbitrary: s)
  case (Cons t ts)
  then have "reach (last (t # ts))" using reach_step by simp
  then show ?case by simp
qed simp

text \<open>A state whose only successor is itself cannot be left.\<close>

lemma stuck_run:
  assumes "\<And>t. step s t \<Longrightarrow> t = s" "run s ts"
  shows "set ts \<subseteq> {s}"
  using assms(2) by (induction ts) (auto dest: assms(1))

end

locale simulation =
  conc: transition_system init step + spec: transition_system ainit astep
  for init :: "'s \<Rightarrow> bool" and step :: "'s \<Rightarrow> 's \<Rightarrow> bool"
    and ainit :: "'t \<Rightarrow> bool" and astep :: "'t \<Rightarrow> 't \<Rightarrow> bool" +
  fixes abs :: "'s \<Rightarrow> 't"
  assumes abs_init: "init s \<Longrightarrow> ainit (abs s)"
    and abs_step: "conc.reach s \<Longrightarrow> step s s' \<Longrightarrow> abs s' = abs s \<or> astep (abs s) (abs s')"
begin

lemma abs_reach: "conc.reach s \<Longrightarrow> spec.reach (abs s)"
proof (induction rule: conc.reach.induct)
  case (reach_init s)
  then show ?case by (intro spec.reach_init abs_init)
next
  case (reach_step s s')
  then show ?case using abs_step [of s s'] by (auto intro: spec.reach_step)
qed

end

end
