(* ===== verification/Lock.thy ===== *)
theory Lock
  imports Prelude
begin

text \<open>
  The data of \<^verbatim>\<open>src/src/include/lock.h\<close> and the operations of \<^verbatim>\<open>src/src/lib/lock.c\<close> and
  \<^verbatim>\<open>src/src/lib/spinlock.S\<close> as one hart sees them when no other hart interferes: taking a lock
  that is held spins forever. The interleaved behaviour of several harts is the subject of the
  theories \<open>Spinlock\<close> and \<open>Barrier\<close>.
\<close>

record lock =
  locked :: int

record barrier =
  initial :: int
  tokens :: int
  passed :: int
  bar_lk :: lock

definition LOCK_INITIALIZER :: lock where
  "LOCK_INITIALIZER = \<lparr>locked = 0\<rparr>"

text \<open>The initializer leaves \<^verbatim>\<open>passed\<close> out, so C sets it to zero.\<close>

definition BARRIER_INITIALIZER :: "int \<Rightarrow> barrier" where
  "BARRIER_INITIALIZER cnt = \<lparr>initial = cnt, tokens = cnt, passed = 0, bar_lk = LOCK_INITIALIZER\<rparr>"

definition init_lock :: "lock \<Rightarrow> lock" where
  "init_lock lk = lk\<lparr>locked := 0\<rparr>"

definition init_barrier :: "barrier \<Rightarrow> int \<Rightarrow> barrier" where
  "init_barrier bar count =
     bar\<lparr>tokens := count, initial := count, bar_lk := init_lock (bar_lk bar)\<rparr>"

definition acquire :: "lock \<Rightarrow> lock outcome" where
  "acquire lk = (if locked lk \<noteq> 0 then Inl Spin_forever else Inr (lk\<lparr>locked := 1\<rparr>))"

definition release :: "lock \<Rightarrow> lock" where
  "release lk = lk\<lparr>locked := 0\<rparr>"

lemma acquire_free [simp]: "locked lk = 0 \<Longrightarrow> acquire lk = Inr (lk\<lparr>locked := 1\<rparr>)"
  by (simp add: acquire_def)

lemma release_acquired [simp]: "locked lk = 0 \<Longrightarrow> release (lk\<lparr>locked := 1\<rparr>) = lk"
  by (simp add: release_def)

end
