(* ===== verification/Spinlock.thy ===== *)
theory Spinlock
  imports Transition Lock
begin

text \<open>
  The spinlock of \<^verbatim>\<open>src/src/lib/spinlock.S\<close> executed by any number of harts at the same time. Every
  instruction that touches the lock word is one step; \<open>amoswap\<close> reads and writes atomically.
  The lemmas show mutual exclusion, that the lock word is set exactly while a hart is inside, that
  the code refines an abstract lock with an owner, and that a hart can always get in when the lock
  is free.
\<close>

section \<open>The step relation\<close>

text \<open>
  Where a hart is: outside, before the plain load of \<^verbatim>\<open>acquire\<close>, before its atomic swap, or
  returned from \<^verbatim>\<open>acquire\<close> and not yet at the swap of \<^verbatim>\<open>release\<close>.
\<close>

datatype spin_pc = Outside | Test | Swap | Inside

record spin =
  word :: int
  pcs :: "nat \<Rightarrow> spin_pc"

definition move :: "nat \<Rightarrow> spin_pc \<Rightarrow> spin \<Rightarrow> spin" where
  "move h p s = s\<lparr>pcs := (pcs s)(h := p)\<rparr>"

inductive spin_step :: "spin \<Rightarrow> spin \<Rightarrow> bool" where
  call: "pcs s h = Outside \<Longrightarrow> spin_step s (move h Test s)"
| lw_busy: "pcs s h = Test \<Longrightarrow> word s \<noteq> 0 \<Longrightarrow> spin_step s s"
| lw_free: "pcs s h = Test \<Longrightarrow> word s = 0 \<Longrightarrow> spin_step s (move h Swap s)"
| swap_busy: "pcs s h = Swap \<Longrightarrow> word s \<noteq> 0 \<Longrightarrow> spin_step s (move h Test (s\<lparr>word := 1\<rparr>))"
| swap_free: "pcs s h = Swap \<Longrightarrow> word s = 0 \<Longrightarrow> spin_step s (move h Inside (s\<lparr>word := 1\<rparr>))"
| amoswap_release: "pcs s h = Inside \<Longrightarrow> spin_step s (move h Outside (s\<lparr>word := 0\<rparr>))"

definition spin_init :: "spin \<Rightarrow> bool" where
  "spin_init s \<longleftrightarrow> word s = locked LOCK_INITIALIZER \<and> (\<forall>h. pcs s h = Outside)"

interpretation sp: transition_system spin_init spin_step .

section \<open>Mutual exclusion\<close>

definition inside :: "spin \<Rightarrow> nat set" where
  "inside s = {h. pcs s h = Inside}"

definition spin_inv :: "spin \<Rightarrow> bool" where
  "spin_inv s \<longleftrightarrow> (word s = 0 \<and> inside s = {}) \<or> (word s = 1 \<and> (\<exists>h. inside s = {h}))"

lemma inside_move:
  "inside (move h p s) = (if p = Inside then insert h (inside s) else inside s - {h})"
  "inside (s\<lparr>word := w\<rparr>) = inside s" "word (move h p s) = word s"
  by (auto simp: inside_def move_def)

lemma inside_iff: "h \<in> inside s \<longleftrightarrow> pcs s h = Inside"
  by (simp add: inside_def)

lemma inside_keep: "pcs s h \<noteq> Inside \<Longrightarrow> inside s - {h} = inside s"
  by (auto simp: inside_def)

lemma spin_step_effect:
  assumes "spin_step s s'" "spin_inv s"
  shows "(word s' = word s \<and> inside s' = inside s) \<or>
    (\<exists>h. word s = 0 \<and> inside s = {} \<and> word s' = 1 \<and> inside s' = {h}) \<or>
    (\<exists>h. word s = 1 \<and> inside s = {h} \<and> word s' = 0 \<and> inside s' = {})"
  using assms
proof cases
  case (swap_busy h)
  then show ?thesis using assms(2) by (simp add: inside_move inside_keep) (simp add: spin_inv_def)
next
  case (swap_free h)
  then show ?thesis using assms(2) by (simp add: inside_move) (simp add: spin_inv_def)
next
  case (amoswap_release h)
  then have "h \<in> inside s" by (simp add: inside_iff)
  with assms(2) have "word s = 1" "inside s = {h}" by (auto simp: spin_inv_def)
  with amoswap_release show ?thesis by (simp add: inside_move)
qed (simp_all add: inside_move inside_keep)

lemma spin_inv_step: "spin_step s s' \<Longrightarrow> spin_inv s \<Longrightarrow> spin_inv s'"
  using spin_step_effect [of s s'] unfolding spin_inv_def by metis

lemma spin_inv_init: "spin_init s \<Longrightarrow> spin_inv s"
  by (simp add: spin_init_def spin_inv_def LOCK_INITIALIZER_def inside_def)

lemma spin_inv_reach: "sp.reach s \<Longrightarrow> spin_inv s"
  by (erule sp.reach_invariant) (blast intro: spin_inv_init spin_inv_step)+

section \<open>Refinement of an abstract lock\<close>

text \<open>The specification: an owner or nobody; getting in needs nobody inside.\<close>

inductive lock_step :: "nat option \<Rightarrow> nat option \<Rightarrow> bool" where
  enter: "lock_step None (Some h)"
| leave: "lock_step (Some h) None"

definition owner :: "spin \<Rightarrow> nat option" where
  "owner s = (if word s = 0 then None else Some (the_elem (inside s)))"

lemma owner_iff: "spin_inv s \<Longrightarrow> owner s = Some h \<longleftrightarrow> pcs s h = Inside"
proof -
  assume "spin_inv s"
  then have "owner s = Some h \<longleftrightarrow> h \<in> inside s"
    unfolding spin_inv_def owner_def by (elim disjE conjE exE) (simp_all, blast)
  then show ?thesis by (simp only: inside_iff)
qed

interpretation sl: simulation spin_init spin_step "\<lambda>ow. ow = None" lock_step owner
proof
  fix s assume "spin_init s"
  then show "owner s = None" by (simp add: spin_init_def owner_def LOCK_INITIALIZER_def)
next
  fix s s'
  assume "sp.reach s" "spin_step s s'"
  from spin_step_effect [OF this(2) spin_inv_reach [OF this(1)]]
  show "owner s' = owner s \<or> lock_step (owner s) (owner s')"
  proof (elim disjE exE conjE)
    fix h assume "word s = 0" "word s' = 1" "inside s' = {h}"
    then show ?thesis by (simp add: owner_def lock_step.enter)
  next
    fix h assume "word s = 1" "word s' = 0" "inside s = {h}"
    then show ?thesis by (simp add: owner_def lock_step.leave)
  qed (simp add: owner_def)
qed

lemma spin_word: "spin_inv s \<Longrightarrow> word s = (if \<exists>h. pcs s h = Inside then 1 else 0)"
  unfolding spin_inv_def by (elim disjE conjE exE) (auto simp: inside_iff [symmetric])

section \<open>Progress\<close>

text \<open>A hart outside that runs while the lock stays free is inside after three steps.\<close>

lemma spin_enters:
  assumes "word s = 0" "pcs s h = Outside"
  shows "sp.run s [move h Test s, move h Swap s, move h Inside (s\<lparr>word := 1\<rparr>)]"
proof -
  have "spin_step s (move h Test s)" using assms(2) by (rule spin_step.call)
  moreover have "spin_step (move h Test s) (move h Swap (move h Test s))"
    by (rule spin_step.lw_free) (simp_all add: move_def assms)
  moreover have "spin_step (move h Swap s) (move h Inside ((move h Swap s)\<lparr>word := 1\<rparr>))"
    by (rule spin_step.swap_free) (simp_all add: move_def assms)
  ultimately show ?thesis by (simp add: move_def)
qed

text \<open>A reachable state in which hart 1 holds the lock.\<close>

lemma demo_spin_reach: "sp.reach (move 1 Inside \<lparr>word = 1, pcs = \<lambda>_. Outside\<rparr>)"
proof -
  let ?s = "\<lparr>word = 0, pcs = \<lambda>_. Outside\<rparr>"
  have "sp.reach ?s" by (rule sp.reach_init) (simp add: spin_init_def LOCK_INITIALIZER_def)
  from sp.reach_run [OF this spin_enters [of ?s 1]] show ?thesis by simp
qed

end
