(* ===== verification/Barrier.thy ===== *)
theory Barrier
  imports Spinlock
begin

text \<open>
  The barrier of \<^verbatim>\<open>src/src/lib/lock.c\<close>, executed by \<open>n\<close> harts at the same time: every access to the
  volatile fields of the barrier is one step of one hart, in any order. Taking the lock is one step,
  as the refinement of the spinlock justifies; a busy wait that does not end is a step that changes
  nothing.

  The lemmas show that no hart leaves the barrier before all harts have arrived, and that a barrier
  that all harts have left is ready for the next round. They also show an interleaving in which the
  last two harts both take the branch of the last hart and wait for each other forever, and one in
  which a fast hart enters the next round before a slow hart has seen the reset of the previous one.
\<close>

section \<open>The steps of wait_barrier\<close>

text \<open>
  The program counter: the value of a field a hart has read and not yet written back is an
  argument of the constructor.
\<close>

datatype wait_pc =
    Acquire1 | Dec_read | Dec_write int | Release1 | If_last
  | Last_passed | Last_reset | Last_wait
  | Wait_reset | Acquire2 | Inc_read | Inc_write int | Release2
  | Returned

record wait_state =
  wbar :: barrier
  wpc :: "nat \<Rightarrow> wait_pc"

definition goto :: "nat \<Rightarrow> wait_pc \<Rightarrow> wait_state \<Rightarrow> wait_state" where
  "goto h p s = s\<lparr>wpc := (wpc s)(h := p)\<rparr>"

definition set_bar :: "(barrier \<Rightarrow> barrier) \<Rightarrow> wait_state \<Rightarrow> wait_state" where
  "set_bar f s = s\<lparr>wbar := f (wbar s)\<rparr>"

definition set_locked :: "int \<Rightarrow> barrier \<Rightarrow> barrier" where
  "set_locked v b = b\<lparr>bar_lk := (bar_lk b)\<lparr>locked := v\<rparr>\<rparr>"

definition LAST_HART :: "barrier \<Rightarrow> bool" where
  "LAST_HART b \<longleftrightarrow> tokens b = 0"

definition wait_barrier_step :: "nat \<Rightarrow> wait_state \<Rightarrow> wait_state" where
  "wait_barrier_step h s =
     (let b = wbar s in
      case wpc s h of
        Acquire1 \<Rightarrow>
          (case acquire (bar_lk b) of
             Inl _ \<Rightarrow> s | Inr lk \<Rightarrow> goto h Dec_read (set_bar (bar_lk_update (\<lambda>_. lk)) s))
      | Dec_read \<Rightarrow> goto h (Dec_write (tokens b)) s
      | Dec_write t \<Rightarrow> goto h Release1 (set_bar (tokens_update (\<lambda>_. t - 1)) s)
      | Release1 \<Rightarrow> goto h If_last (set_bar (bar_lk_update (\<lambda>_. release (bar_lk b))) s)
      | If_last \<Rightarrow> goto h (if LAST_HART b then Last_passed else Wait_reset) s
      | Last_passed \<Rightarrow> goto h Last_reset (set_bar (passed_update (\<lambda>_. 1)) s)
      | Last_reset \<Rightarrow> goto h Last_wait (set_bar (tokens_update (\<lambda>_. initial b)) s)
      | Last_wait \<Rightarrow> (if passed b \<noteq> initial b then s else goto h Returned s)
      | Wait_reset \<Rightarrow> (if tokens b \<noteq> initial b then s else goto h Acquire2 s)
      | Acquire2 \<Rightarrow>
          (case acquire (bar_lk b) of
             Inl _ \<Rightarrow> s | Inr lk \<Rightarrow> goto h Inc_read (set_bar (bar_lk_update (\<lambda>_. lk)) s))
      | Inc_read \<Rightarrow> goto h (Inc_write (passed b)) s
      | Inc_write p \<Rightarrow> goto h Release2 (set_bar (passed_update (\<lambda>_. p + 1)) s)
      | Release2 \<Rightarrow> goto h Returned (set_bar (bar_lk_update (\<lambda>_. release (bar_lk b))) s)
      | Returned \<Rightarrow> s)"

text \<open>One round of \<open>n\<close> harts, from a barrier that is initialised or was used before.\<close>

definition wait_init :: "nat \<Rightarrow> wait_state \<Rightarrow> bool" where
  "wait_init n s \<longleftrightarrow>
     initial (wbar s) = int n \<and> tokens (wbar s) = int n \<and> locked (bar_lk (wbar s)) = 0 \<and>
     (\<forall>h < n. wpc s h = Acquire1)"

definition wait_step :: "nat \<Rightarrow> wait_state \<Rightarrow> wait_state \<Rightarrow> bool" where
  "wait_step n s s' \<longleftrightarrow> (\<exists>h < n. s' = wait_barrier_step h s)"

interpretation wb: transition_system "wait_init n" "wait_step n" for n .

section \<open>The invariant\<close>

fun holds_lock :: "wait_pc \<Rightarrow> bool" where
  "holds_lock Dec_read = True"
| "holds_lock (Dec_write t) = True"
| "holds_lock Release1 = True"
| "holds_lock Inc_read = True"
| "holds_lock (Inc_write p) = True"
| "holds_lock Release2 = True"
| "holds_lock _ = False"

text \<open>A hart has arrived when its decrement is done; it is past the reset when it saw it.\<close>

fun has_arrived :: "wait_pc \<Rightarrow> bool" where
  "has_arrived Acquire1 = False"
| "has_arrived Dec_read = False"
| "has_arrived (Dec_write t) = False"
| "has_arrived _ = True"

fun saw_reset :: "wait_pc \<Rightarrow> bool" where
  "saw_reset Last_wait = True"
| "saw_reset Acquire2 = True"
| "saw_reset Inc_read = True"
| "saw_reset (Inc_write p) = True"
| "saw_reset Release2 = True"
| "saw_reset Returned = True"
| "saw_reset _ = False"

fun is_waiting :: "wait_pc \<Rightarrow> bool" where
  "is_waiting Release1 = True"
| "is_waiting If_last = True"
| "is_waiting Wait_reset = True"
| "is_waiting p = (\<not> has_arrived p)"

definition arrived :: "nat \<Rightarrow> wait_state \<Rightarrow> nat set" where
  "arrived n s = {h. h < n \<and> has_arrived (wpc s h)}"

definition holders :: "nat \<Rightarrow> wait_state \<Rightarrow> nat set" where
  "holders n s = {h. h < n \<and> holds_lock (wpc s h)}"

definition lock_inv :: "nat \<Rightarrow> wait_state \<Rightarrow> bool" where
  "lock_inv n s \<longleftrightarrow>
     (locked (bar_lk (wbar s)) = 0 \<and> holders n s = {}) \<or>
     (locked (bar_lk (wbar s)) = 1 \<and> (\<exists>h. holders n s = {h}))"

definition gather_inv :: "nat \<Rightarrow> wait_state \<Rightarrow> bool" where
  "gather_inv n s \<longleftrightarrow>
     tokens (wbar s) = int n - int (card (arrived n s)) \<and>
     (\<forall>h < n. is_waiting (wpc s h)) \<and> (\<forall>h < n. \<forall>t. wpc s h = Dec_write t \<longrightarrow> t = tokens (wbar s))"

definition pass_inv :: "nat \<Rightarrow> wait_state \<Rightarrow> bool" where
  "pass_inv n s \<longleftrightarrow> (tokens (wbar s) = 0 \<or> tokens (wbar s) = int n) \<and>
     ((\<exists>h < n. saw_reset (wpc s h)) \<longrightarrow> tokens (wbar s) = int n)"

definition wait_inv :: "nat \<Rightarrow> wait_state \<Rightarrow> bool" where
  "wait_inv n s \<longleftrightarrow> initial (wbar s) = int n \<and> lock_inv n s \<and>
     (if arrived n s = {..<n} then pass_inv n s else gather_inv n s)"

lemma wait_simps [simp]:
  "wpc (goto h p s) = (wpc s)(h := p)" "wbar (goto h p s) = wbar s"
  "wpc (set_bar f s) = wpc s" "wbar (set_bar f s) = f (wbar s)"
  by (simp_all add: goto_def set_bar_def)

lemma harts_goto [simp]:
  "arrived n (set_bar f s) = arrived n s" "holders n (set_bar f s) = holders n s"
  "h < n \<Longrightarrow> arrived n (goto h p s) = (if has_arrived p then insert h (arrived n s) else arrived n s - {h})"
  "h < n \<Longrightarrow> holders n (goto h p s) = (if holds_lock p then insert h (holders n s) else holders n s - {h})"
  by (auto simp: arrived_def holders_def)

lemma member_iff:
  "h < n \<Longrightarrow> h \<in> arrived n s \<longleftrightarrow> has_arrived (wpc s h)"
  "h < n \<Longrightarrow> h \<in> holders n s \<longleftrightarrow> holds_lock (wpc s h)"
  by (simp_all add: arrived_def holders_def)

lemma member_keep:
  "h \<in> A \<Longrightarrow> insert h A = A" "h \<notin> A \<Longrightarrow> A - {h} = A"
  by auto

lemma lock_inv_cases:
  assumes "lock_inv n s" "h < n"
  shows "holds_lock (wpc s h) \<Longrightarrow> holders n s = {h} \<and> locked (bar_lk (wbar s)) = 1"
    "locked (bar_lk (wbar s)) = 0 \<Longrightarrow> holders n s = {}"
  using assms member_iff(2) [of h n s] by (auto simp: lock_inv_def)

lemma lock_inv_step:
  assumes i: "lock_inv n s" and h: "h < n"
  shows "lock_inv n (wait_barrier_step h s)"
proof -
  note mem = member_iff(2) [OF h, of s] and c = lock_inv_cases [OF i h]
  have keep: "holds_lock (wpc s h) = holds_lock p \<Longrightarrow> lock_inv n (goto h p s)" for p
    using i h mem by (auto simp: lock_inv_def member_keep)
  have keep_bar: "holds_lock (wpc s h) = holds_lock p \<Longrightarrow> bar_lk (f (wbar s)) = bar_lk (wbar s) \<Longrightarrow>
      lock_inv n (goto h p (set_bar f s))" for p f
    using i h mem by (auto simp: lock_inv_def member_keep)
  have acq: "lock_inv n (goto h p (set_bar (bar_lk_update (\<lambda>_. lk)) s))"
    if "acquire (bar_lk (wbar s)) = Inr lk" "holds_lock p" for p lk
    using that c h by (auto simp: acquire_def lock_inv_def split: if_splits)
  have rel: "lock_inv n (goto h p (set_bar (bar_lk_update (\<lambda>_. release (bar_lk (wbar s)))) s))"
    if "holds_lock (wpc s h)" "\<not> holds_lock p" for p
    using that c h by (auto simp: release_def lock_inv_def)
  show ?thesis
    by (cases "wpc s h")
       (use i in \<open>auto simp: wait_barrier_step_def Let_def split: sum.splits intro: acq rel keep keep_bar\<close>)
qed

lemma arrived_stays: "has_arrived (wpc s h) \<Longrightarrow> has_arrived (wpc (wait_barrier_step h s) h)"
  by (cases "wpc s h") (auto simp: wait_barrier_step_def Let_def split: sum.splits)

lemma step_other: "k \<noteq> h \<Longrightarrow> wpc (wait_barrier_step h s) k = wpc s k"
  by (cases "wpc s h") (auto simp: wait_barrier_step_def Let_def split: sum.splits)

lemma initial_step: "initial (wbar (wait_barrier_step h s)) = initial (wbar s)"
  by (cases "wpc s h") (auto simp: wait_barrier_step_def Let_def split: sum.splits)

lemma arrived_mono: "h < n \<Longrightarrow> arrived n s \<subseteq> arrived n (wait_barrier_step h s)"
  unfolding arrived_def using arrived_stays [of s h] step_other [of _ h s] by (auto, metis)

text \<open>After all harts have arrived, the tokens are 0 until the reset and \<open>n\<close> from then on.\<close>

lemma pass_inv_step:
  assumes p: "pass_inv n s" and ini: "initial (wbar s) = int n" and h: "h < n" "has_arrived (wpc s h)"
  shows "pass_inv n (wait_barrier_step h s)"
proof -
  let ?s = "wait_barrier_step h s"
  have tok: "tokens (wbar ?s) = tokens (wbar s) \<or> tokens (wbar ?s) = int n"
    using h ini by (cases "wpc s h") (auto simp: wait_barrier_step_def Let_def split: sum.splits)
  have own: "saw_reset (wpc ?s h) \<Longrightarrow> saw_reset (wpc s h) \<or> tokens (wbar ?s) = int n"
    using h ini by (cases "wpc s h") (auto simp: wait_barrier_step_def Let_def split: sum.splits if_splits)
  have "saw_reset (wpc ?s k) \<Longrightarrow> k < n \<Longrightarrow> tokens (wbar ?s) = int n" for k
    using p tok own h step_other [of k h s] by (cases "k = h") (auto simp: pass_inv_def)
  with p tok show ?thesis by (auto simp: pass_inv_def)
qed

lemma finite_arrived [simp]: "finite (arrived n s)"
  by (simp add: arrived_def)

lemma card_arrived: "arrived n s \<noteq> {..<n} \<Longrightarrow> card (arrived n s) < n"
  using psubset_card_mono [of "{..<n}" "arrived n s"] by (auto simp: arrived_def)

lemma waiting_not_reset: "is_waiting p \<Longrightarrow> \<not> saw_reset p"
  by (cases p) auto

text \<open>While harts are missing, a step that does not write the tokens keeps the invariant.\<close>

lemma gather_keep:
  assumes g: "gather_inv n s" and h: "h < n" and a: "has_arrived p = has_arrived (wpc s h)"
    and w: "is_waiting p" "\<And>t. p = Dec_write t \<Longrightarrow> t = tokens (wbar s)"
    and f: "tokens (f (wbar s)) = tokens (wbar s)"
  shows "arrived n (goto h p (set_bar f s)) = arrived n s \<and> gather_inv n (goto h p (set_bar f s))"
proof -
  have "arrived n (goto h p (set_bar f s)) = arrived n s"
    using a h member_iff(1) [OF h, of s] by (auto simp: member_keep)
  with g h w f show ?thesis by (auto simp: gather_inv_def)
qed

text \<open>The decrement counts the hart: it holds the lock, so no other hart is about to write.\<close>

lemma gather_dec:
  assumes g: "gather_inv n s" and lk: "lock_inv n s" and h: "h < n" and pc: "wpc s h = Dec_write t"
  defines "s' \<equiv> wait_barrier_step h s"
  shows "if arrived n s' = {..<n} then pass_inv n s' else gather_inv n s'"
proof -
  have t: "t = tokens (wbar s)" using g h pc unfolding gather_inv_def by blast
  have tok: "tokens (wbar s) = int n - int (card (arrived n s))" using g by (simp add: gather_inv_def)
  have s': "s' = goto h Release1 (set_bar (tokens_update (\<lambda>_. t - 1)) s)"
    using pc by (simp add: s'_def wait_barrier_step_def Let_def)
  have "h \<notin> arrived n s" using member_iff(1) [OF h] pc by simp
  then have card: "card (arrived n s') = Suc (card (arrived n s))" using h by (simp add: s')
  have "holders n s = {h}" using lock_inv_cases(1) [OF lk h] pc by simp
  then have alone: "k < n \<Longrightarrow> wpc s k = Dec_write u \<Longrightarrow> k = h" for k u
    using member_iff(2) [of k n s] by auto
  have tok': "tokens (wbar s') = int n - int (card (arrived n s'))" using t tok card by (simp add: s')
  have wait': "k < n \<Longrightarrow> is_waiting (wpc s' k)" for k using g by (auto simp: s' gather_inv_def)
  show ?thesis
  proof (cases "arrived n s' = {..<n}")
    case True
    with tok' wait' waiting_not_reset show ?thesis by (auto simp: pass_inv_def)
  next
    case False
    with tok' wait' alone show ?thesis by (auto simp: gather_inv_def s' split: if_splits)
  qed
qed

lemma gather_inv_step:
  assumes g: "gather_inv n s" and na: "arrived n s \<noteq> {..<n}" and lk: "lock_inv n s"
    and ini: "initial (wbar s) = int n" and h: "h < n"
  defines "s' \<equiv> wait_barrier_step h s"
  shows "if arrived n s' = {..<n} then pass_inv n s' else gather_inv n s'"
proof -
  have keep: ?thesis if "s' = goto h p (set_bar f s)" "has_arrived p = has_arrived (wpc s h)"
    "is_waiting p" "\<And>t. p = Dec_write t \<Longrightarrow> t = tokens (wbar s)" "tokens (f (wbar s)) = tokens (wbar s)" for p f
    using gather_keep [of n s h p f] g h na that by simp
  have same: ?thesis if "s' = s" using that g na by simp
  have id: "goto h p s = goto h p (set_bar (\<lambda>b. b) s)" for p by (simp add: goto_def set_bar_def)
  have tok: "tokens (wbar s) = int n - int (card (arrived n s))" and wt: "is_waiting (wpc s h)"
    using g h by (auto simp: gather_inv_def)
  show ?thesis
  proof (cases "wpc s h")
    case Acquire1
    then have "s' = s \<or> (\<exists>lk. s' = goto h Dec_read (set_bar (bar_lk_update (\<lambda>_. lk)) s))"
      by (auto simp: s'_def wait_barrier_step_def Let_def split: sum.splits)
    then show ?thesis
    proof (elim disjE exE)
      fix lk assume "s' = goto h Dec_read (set_bar (bar_lk_update (\<lambda>_. lk)) s)"
      then show ?thesis by (rule keep) (simp_all add: Acquire1)
    qed (rule same)
  next
    case Dec_read
    then have "s' = goto h (Dec_write (tokens (wbar s))) (set_bar (\<lambda>b. b) s)"
      by (simp add: s'_def wait_barrier_step_def Let_def id)
    then show ?thesis by (rule keep) (simp_all add: Dec_read)
  next
    case Release1
    then have "s' = goto h If_last (set_bar (bar_lk_update (\<lambda>_. release (bar_lk (wbar s)))) s)"
      by (simp add: s'_def wait_barrier_step_def Let_def)
    then show ?thesis by (rule keep) (simp_all add: Release1)
  next
    case If_last
    have "\<not> LAST_HART (wbar s)" using tok card_arrived [OF na] by (simp add: LAST_HART_def)
    with If_last have "s' = goto h Wait_reset (set_bar (\<lambda>b. b) s)"
      by (simp add: s'_def wait_barrier_step_def Let_def id)
    then show ?thesis by (rule keep) (simp_all add: If_last)
  next
    case Wait_reset
    then have "h \<in> arrived n s" using member_iff(1) [OF h] by simp
    then have "arrived n s \<noteq> {}" by blast
    with Wait_reset tok ini have "s' = s" by (simp add: s'_def wait_barrier_step_def Let_def)
    then show ?thesis by (rule same)
  next
    case (Dec_write t)
    then show ?thesis using gather_dec [OF g lk h Dec_write] by (simp add: s'_def)
  qed (use wt in simp_all)
qed

lemma wait_inv_reach: "wb.reach n s \<Longrightarrow> wait_inv n s"
proof (erule wb.reach_invariant [of n s "wait_inv n"])
  fix s assume i: "wait_init n s"
  then have "arrived n s = {}" "holders n s = {}" by (auto simp: wait_init_def arrived_def holders_def)
  with i show "wait_inv n s"
    by (auto simp: wait_inv_def lock_inv_def pass_inv_def gather_inv_def wait_init_def)
next
  fix s s'
  assume i: "wait_inv n s" and "wait_step n s s'"
  then obtain h where h: "h < n" "s' = wait_barrier_step h s" by (auto simp: wait_step_def)
  have "if arrived n s' = {..<n} then pass_inv n s' else gather_inv n s'"
  proof (cases "arrived n s = {..<n}")
    case True
    then have "arrived n s' = {..<n}" using arrived_mono [OF h(1), of s] h(2) by (auto simp: arrived_def)
    moreover have "has_arrived (wpc s h)" using True h member_iff(1) [of h n s] by auto
    ultimately show ?thesis using True i h pass_inv_step by (simp add: wait_inv_def)
  next
    case False
    then show ?thesis using gather_inv_step [of n s h] i h by (simp add: wait_inv_def)
  qed
  moreover have "initial (wbar s') = int n" "lock_inv n s'"
    using i h lock_inv_step by (simp_all add: wait_inv_def initial_step)
  ultimately show "wait_inv n s'" by (simp add: wait_inv_def)
qed

section \<open>What the barrier guarantees\<close>

lemma returned_all_arrived:
  assumes "wb.reach n s" "h < n" "wpc s h = Returned" "k < n"
  shows "has_arrived (wpc s k)"
proof -
  have "wait_inv n s" using wait_inv_reach assms(1) .
  moreover have "\<not> gather_inv n s" using assms(2,3) by (force simp: gather_inv_def)
  ultimately have "arrived n s = {..<n}" by (simp add: wait_inv_def split: if_splits)
  with assms(4) show ?thesis using member_iff(1) [of k n s] by auto
qed

lemma all_returned_reusable:
  assumes "wb.reach n s" "0 < n" "\<forall>h < n. wpc s h = Returned"
  shows "wait_init n (s\<lparr>wpc := \<lambda>_. Acquire1\<rparr>)"
proof -
  have i: "wait_inv n s" using wait_inv_reach assms(1) .
  have "arrived n s = {..<n}" "holders n s = {}" using assms(3) by (auto simp: arrived_def holders_def)
  with i assms(2,3) show ?thesis
    by (auto simp: wait_inv_def pass_inv_def lock_inv_def wait_init_def)
qed

section \<open>Schedules\<close>

definition run_schedule :: "nat list \<Rightarrow> wait_state \<Rightarrow> wait_state" where
  "run_schedule sched s = fold wait_barrier_step sched s"

lemma run_schedule_reach:
  "wb.reach n s \<Longrightarrow> set sched \<subseteq> {..<n} \<Longrightarrow> wb.reach n (run_schedule sched s)"
  unfolding run_schedule_def
proof (induction sched arbitrary: s)
  case (Cons h sched)
  then have "wb.reach n (wait_barrier_step h s)"
    by (intro wb.reach_step [OF Cons.prems(1)]) (auto simp: wait_step_def)
  with Cons show ?case by simp
qed simp

definition fresh_barrier :: "nat \<Rightarrow> wait_state" where
  "fresh_barrier n = \<lparr>wbar = BARRIER_INITIALIZER (int n), wpc = \<lambda>_. Acquire1\<rparr>"

lemma fresh_barrier_init: "wait_init n (fresh_barrier n)"
  by (simp add: wait_init_def fresh_barrier_def BARRIER_INITIALIZER_def LOCK_INITIALIZER_def)

lemma fresh_barrier_reach: "wb.reach n (fresh_barrier n)"
  by (rule wb.reach_init [OF fresh_barrier_init])

lemmas barrier_eval = run_schedule_def fresh_barrier_def wait_barrier_step_def goto_def set_bar_def
  BARRIER_INITIALIZER_def LOCK_INITIALIZER_def LAST_HART_def acquire_def release_def Let_def

text \<open>Hart 0 tests before hart 1 arrives: both harts return.\<close>

lemma good_schedule:
  "wpc (run_schedule [0, 0, 0, 0, 0, 1, 1, 1, 1, 1, 1, 1, 0, 0, 0, 0, 0, 1] (fresh_barrier 2)) 0 = Returned"
  "wpc (run_schedule [0, 0, 0, 0, 0, 1, 1, 1, 1, 1, 1, 1, 0, 0, 0, 0, 0, 1] (fresh_barrier 2)) 1 = Returned"
  by (simp_all add: barrier_eval)

text \<open>Both harts have decremented before either tests: both believe to be the last.\<close>

definition bad_schedule :: "nat list" where
  "bad_schedule = [0, 0, 0, 0, 1, 1, 1, 1, 0, 1, 0, 0, 1, 1]"

lemma bad_schedule_state:
  "run_schedule bad_schedule (fresh_barrier 2) =
     \<lparr>wbar = \<lparr>initial = 2, tokens = 2, passed = 1, bar_lk = \<lparr>locked = 0\<rparr>\<rparr>,
      wpc = (\<lambda>_. Acquire1)(0 := Last_wait, 1 := Last_wait)\<rparr>"
  by (simp add: barrier_eval bad_schedule_def fun_eq_iff)

lemma bad_schedule_stuck:
  assumes "set sched \<subseteq> {..<2}"
  shows "run_schedule sched (run_schedule bad_schedule (fresh_barrier 2)) =
    run_schedule bad_schedule (fresh_barrier 2)"
proof -
  let ?d = "run_schedule bad_schedule (fresh_barrier 2)"
  have "wait_barrier_step h ?d = ?d" if "h < 2" for h
    using that unfolding bad_schedule_state by (auto simp: wait_barrier_step_def less_2_cases_iff)
  with assms show ?thesis by (induction sched) (simp_all add: run_schedule_def)
qed

section \<open>Using the barrier again\<close>

text \<open>
  \<^verbatim>\<open>main\<close> calls \<^verbatim>\<open>wait_barrier\<close> on the same barrier three times: a hart that has returned may call
  again while others are still inside.
\<close>

definition wait_again_step :: "nat \<Rightarrow> wait_state \<Rightarrow> wait_state" where
  "wait_again_step h s =
     (if wpc s h = Returned then goto h Acquire1 s else wait_barrier_step h s)"

definition again_step :: "nat \<Rightarrow> wait_state \<Rightarrow> wait_state \<Rightarrow> bool" where
  "again_step n s s' \<longleftrightarrow> (\<exists>h < n. s' = wait_again_step h s)"

interpretation wa: transition_system "wait_init n" "again_step n" for n .

lemma again_schedule_reach:
  "wa.reach n s \<Longrightarrow> set sched \<subseteq> {..<n} \<Longrightarrow> wa.reach n (fold wait_again_step sched s)"
proof (induction sched arbitrary: s)
  case (Cons h sched)
  then have "wa.reach n (wait_again_step h s)"
    by (intro wa.reach_step [OF Cons.prems(1)]) (auto simp: again_step_def)
  with Cons show ?case by simp
qed simp

text \<open>
  Harts 0 and 1 wait, hart 2 resets the tokens, hart 1 passes and calls again at once: its decrement
  hides the reset from hart 0.
\<close>

definition reuse_schedule :: "nat list" where
  "reuse_schedule = [0, 0, 0, 0, 0, 1, 1, 1, 1, 1, 2, 2, 2, 2, 2, 2, 2, 1, 1, 1, 1, 1, 1, 1, 1, 1, 1, 1]"

lemma reuse_schedule_state:
  "fold wait_again_step reuse_schedule (fresh_barrier 3) =
     \<lparr>wbar = \<lparr>initial = 3, tokens = 2, passed = 2, bar_lk = \<lparr>locked = 0\<rparr>\<rparr>,
      wpc = (\<lambda>_. Acquire1)(0 := Wait_reset, 1 := Wait_reset, 2 := Last_wait)\<rparr>"
  by (simp add: barrier_eval wait_again_step_def reuse_schedule_def fun_eq_iff)

lemma reuse_schedule_stuck:
  assumes "set sched \<subseteq> {..<3}"
  defines "d \<equiv> fold wait_again_step reuse_schedule (fresh_barrier 3)"
  shows "fold wait_again_step sched d = d"
proof -
  have "wait_again_step h d = d" if "h < 3" for h
  proof -
    from that have "h = 0 \<or> h = 1 \<or> h = 2" by auto
    then show ?thesis
      unfolding d_def reuse_schedule_state by (auto simp: wait_again_step_def wait_barrier_step_def)
  qed
  with assms(1) show ?thesis by (induction sched) simp_all
qed

end
