(* ===== verification/Rounds.thy ===== *)
theory Rounds
  imports Barrier
begin

text \<open>
  Programs that several harts execute in phases separated by calls of \<^verbatim>\<open>wait_barrier\<close> on one barrier,
  as \<^verbatim>\<open>main\<close> does. The barrier is the one of the theory \<open>Barrier\<close>, step by step; a hart that has
  returned from one call runs its next phase and calls again while others may still be inside.

  The lemmas show that the phases never overlap as long as no two harts take the branch of the last
  hart in the same round, which is always the case or blocks both harts when there are only two.
\<close>

section \<open>Phases and barriers\<close>

text \<open>
  A hart at \<open>Returned\<close> executes its phase, one step that fails or changes the shared state; its number
  is the number of calls the hart has returned from. \<open>trace\<close> is an auxiliary variable: the phases
  executed so far, with the hart, in their order.
\<close>

record 'b phase_state =
  bars :: wait_state
  calls :: "nat \<Rightarrow> nat"
  stopped :: "nat \<Rightarrow> bool"
  shared :: 'b
  trace :: "(nat \<times> nat) list"

type_synonym 'b action = "nat \<Rightarrow> nat \<Rightarrow> 'b \<Rightarrow> 'b outcome"

definition phase_step :: "'b action \<Rightarrow> nat \<Rightarrow> nat \<Rightarrow> 'b phase_state \<Rightarrow> 'b phase_state" where
  "phase_step act m h s =
     (let p = calls s h in
      if stopped s h then s
      else if wpc (bars s) h = Returned then
        if p < m
        then case act p h (shared s) of
               Inl e \<Rightarrow> s\<lparr>stopped := (stopped s)(h := True)\<rparr>
             | Inr b \<Rightarrow> s\<lparr>bars := goto h Acquire1 (bars s), shared := b, trace := trace s @ [(p, h)]\<rparr>
        else s
      else let w = wait_barrier_step h (bars s) in
        s\<lparr>bars := w, calls := if wpc w h = Returned then (calls s)(h := Suc p) else calls s\<rparr>)"

definition phase_start :: "nat \<Rightarrow> 'b \<Rightarrow> 'b phase_state" where
  "phase_start n b = \<lparr>bars = \<lparr>wbar = BARRIER_INITIALIZER (int n), wpc = \<lambda>_. Returned\<rparr>,
     calls = \<lambda>_. 0, stopped = \<lambda>_. False, shared = b, trace = []\<rparr>"

definition phase_init :: "nat \<Rightarrow> 'b \<Rightarrow> 'b phase_state \<Rightarrow> bool" where
  "phase_init n b s \<longleftrightarrow> s = phase_start n b"

text \<open>A hart finds no tokens while another one is about to reset them.\<close>

fun resetting :: "wait_pc \<Rightarrow> bool" where
  "resetting Last_passed = True"
| "resetting Last_reset = True"
| "resetting _ = False"

definition racing :: "nat \<Rightarrow> nat \<Rightarrow> wait_state \<Rightarrow> bool" where
  "racing n h w \<longleftrightarrow> wpc w h = If_last \<and> LAST_HART (wbar w) \<and> (\<exists>k < n. resetting (wpc w k))"

definition all_steps :: "nat \<Rightarrow> 'b action \<Rightarrow> nat \<Rightarrow> 'b phase_state \<Rightarrow> 'b phase_state \<Rightarrow> bool" where
  "all_steps n act m s s' \<longleftrightarrow> (\<exists>h < n. s' = phase_step act m h s)"

definition calm_steps :: "nat \<Rightarrow> 'b action \<Rightarrow> nat \<Rightarrow> 'b phase_state \<Rightarrow> 'b phase_state \<Rightarrow> bool" where
  "calm_steps n act m s s' \<longleftrightarrow> (\<exists>h < n. \<not> racing n h (bars s) \<and> s' = phase_step act m h s)"

interpretation pa: transition_system "phase_init n b" "all_steps n act m" for n b act m .

interpretation pq: transition_system "phase_init n b" "calm_steps n act m" for n b act m .

section \<open>The invariant of a reused barrier\<close>

text \<open>
  \<open>r\<close> is the number of resets. Harts that have decremented in this round are counted by the tokens;
  harts that are still in the call before it and have not incremented \<^verbatim>\<open>passed\<close> lag behind.
\<close>

fun gathered :: "wait_pc \<Rightarrow> bool" where
  "gathered Release1 = True"
| "gathered If_last = True"
| "gathered Wait_reset = True"
| "gathered p = resetting p"

fun unpassed :: "wait_pc \<Rightarrow> bool" where
  "unpassed Release1 = True"
| "unpassed If_last = True"
| "unpassed Wait_reset = True"
| "unpassed Acquire2 = True"
| "unpassed Inc_read = True"
| "unpassed (Inc_write p) = True"
| "unpassed _ = False"

fun hart_ok :: "nat \<Rightarrow> barrier \<Rightarrow> nat \<Rightarrow> wait_pc \<Rightarrow> bool" where
  "hart_ok r b c (Dec_write t) \<longleftrightarrow> c = r \<and> t = tokens b"
| "hart_ok r b c Release1 \<longleftrightarrow> c = r \<or> Suc c = r"
| "hart_ok r b c If_last \<longleftrightarrow> c = r \<or> Suc c = r"
| "hart_ok r b c Wait_reset \<longleftrightarrow> c = r \<or> Suc c = r"
| "hart_ok r b c Last_passed \<longleftrightarrow> c = r \<and> tokens b = 0"
| "hart_ok r b c Last_reset \<longleftrightarrow> c = r \<and> tokens b = 0 \<and> passed b = 1"
| "hart_ok r b c (Inc_write p) \<longleftrightarrow> Suc c = r \<and> p = passed b"
| "hart_ok r b c pc \<longleftrightarrow> (if pc \<in> {Returned, Acquire1, Dec_read} then c = r else Suc c = r)"

definition counted :: "nat \<Rightarrow> nat \<Rightarrow> wait_state \<Rightarrow> (nat \<Rightarrow> nat) \<Rightarrow> nat set" where
  "counted n r w c = {h. h < n \<and> c h = r \<and> gathered (wpc w h)}"

definition lagging :: "nat \<Rightarrow> nat \<Rightarrow> wait_state \<Rightarrow> (nat \<Rightarrow> nat) \<Rightarrow> nat set" where
  "lagging n r w c = {h. h < n \<and> Suc (c h) = r \<and> unpassed (wpc w h)}"

definition round_inv :: "nat \<Rightarrow> nat \<Rightarrow> wait_state \<Rightarrow> (nat \<Rightarrow> nat) \<Rightarrow> bool" where
  "round_inv n r w c \<longleftrightarrow>
     initial (wbar w) = int n \<and> lock_inv n w \<and>
     tokens (wbar w) = int n - int (card (counted n r w c)) \<and>
     (\<forall>h < n. hart_ok r (wbar w) (c h) (wpc w h)) \<and>
     (\<forall>h < n. \<forall>k < n. resetting (wpc w h) \<longrightarrow> resetting (wpc w k) \<longrightarrow> h = k) \<and>
     (lagging n r w c \<noteq> {} \<longrightarrow> (\<exists>h < n. wpc w h = Last_wait)) \<and>
     (\<forall>h < n. wpc w h = Last_wait \<longrightarrow> passed (wbar w) = int n - int (card (lagging n r w c)))"

lemma finite_rounds [simp]: "finite (counted n r w c)" "finite (lagging n r w c)"
  by (simp_all add: counted_def lagging_def)

text \<open>A step that keeps the counters and the sets; only the hart that moves can change its own entry.\<close>

lemma round_keep:
  assumes i: "round_inv n r w c" and h: "h < n"
    and lk: "lock_inv n (goto h p (set_bar f w))"
    and f: "initial (f (wbar w)) = initial (wbar w)" "tokens (f (wbar w)) = tokens (wbar w)"
      "passed (f (wbar w)) = passed (wbar w)"
    and p: "hart_ok r (wbar w) c' p" "c' = r \<and> gathered p \<longleftrightarrow> c h = r \<and> gathered (wpc w h)"
      "Suc c' = r \<and> unpassed p \<longleftrightarrow> Suc (c h) = r \<and> unpassed (wpc w h)"
      "resetting p \<longrightarrow> resetting (wpc w h)" "p = Last_wait \<longleftrightarrow> wpc w h = Last_wait"
  shows "round_inv n r (goto h p (set_bar f w)) (c(h := c'))"
proof -
  let ?w = "goto h p (set_bar f w)"
  have sets: "counted n r ?w (c(h := c')) = counted n r w c" "lagging n r ?w (c(h := c')) = lagging n r w c"
    using p(2,3) by (auto simp: counted_def lagging_def)
  have ok: "hart_ok r (f (wbar w)) d q = hart_ok r (wbar w) d q" for d q
    using f by (cases q) auto
  show ?thesis
    using i h lk f p(1,4,5) unfolding round_inv_def sets by (auto simp: ok)
qed

lemma round_invI:
  assumes "initial (wbar w) = int n" "lock_inv n w" "tokens (wbar w) = int n - int (card (counted n r w c))"
    and "\<And>h. h < n \<Longrightarrow> hart_ok r (wbar w) (c h) (wpc w h)"
    and "\<And>h k. h < n \<Longrightarrow> k < n \<Longrightarrow> resetting (wpc w h) \<Longrightarrow> resetting (wpc w k) \<Longrightarrow> h = k"
    and "lagging n r w c \<noteq> {} \<Longrightarrow> \<exists>h < n. wpc w h = Last_wait"
    and "\<And>h. h < n \<Longrightarrow> wpc w h = Last_wait \<Longrightarrow> passed (wbar w) = int n - int (card (lagging n r w c))"
  shows "round_inv n r w c"
  unfolding round_inv_def using assms by blast

lemma round_invD:
  assumes "round_inv n r w c"
  shows "initial (wbar w) = int n" "lock_inv n w" "tokens (wbar w) = int n - int (card (counted n r w c))"
    and "h < n \<Longrightarrow> hart_ok r (wbar w) (c h) (wpc w h)"
    and "h < n \<Longrightarrow> k < n \<Longrightarrow> resetting (wpc w h) \<Longrightarrow> resetting (wpc w k) \<Longrightarrow> h = k"
    and "lagging n r w c \<noteq> {} \<Longrightarrow> \<exists>h < n. wpc w h = Last_wait"
    and "h < n \<Longrightarrow> wpc w h = Last_wait \<Longrightarrow> passed (wbar w) = int n - int (card (lagging n r w c))"
  using assms unfolding round_inv_def by blast+

lemma no_tokens:
  assumes i: "round_inv n r w c" and t: "tokens (wbar w) = 0" and h: "h < n"
  shows "c h = r" "gathered (wpc w h)"
proof -
  have "card (counted n r w c) = card {..<n}" using i t by (simp add: round_inv_def)
  then have "counted n r w c = {..<n}" by (intro card_subset_eq) (auto simp: counted_def)
  with h show "c h = r" "gathered (wpc w h)" by (auto simp: counted_def)
qed

text \<open>While a hart has not been counted, no hart resets.\<close>

lemma uncounted_calm:
  assumes i: "round_inv n r w c" and h: "h < n" "c h \<noteq> r \<or> \<not> gathered (wpc w h)" and k: "k < n"
  shows "\<not> resetting (wpc w k)"
proof
  assume "resetting (wpc w k)"
  then have "tokens (wbar w) = 0" using round_invD(4) [OF i k] by (cases "wpc w k") auto
  with no_tokens [OF i _ h(1)] h(2) show False by simp
qed

text \<open>The steps that write a counter or enter or leave the branch of the last hart.\<close>

lemma round_dec:
  assumes i: "round_inv n r w c" and h: "h < n" and p: "wpc w h = Dec_write t"
  shows "round_inv n r (goto h Release1 (set_bar (tokens_update (\<lambda>_. t - 1)) w)) c"
proof -
  let ?w = "goto h Release1 (set_bar (tokens_update (\<lambda>_. t - 1)) w)"
  note hk = round_invD(4) [OF i]
  have c: "c h = r" "t = tokens (wbar w)" using hk [OF h] p by simp_all
  have lk: "lock_inv n w" and "holders n w = {h}"
    using round_invD(2) [OF i] lock_inv_cases(1) [of n w h] h p by simp_all
  then have alone: "k < n \<Longrightarrow> wpc w k = Dec_write u \<Longrightarrow> k = h" for k u
    using member_iff(2) [of k n w] by auto
  have calm: "k < n \<Longrightarrow> \<not> resetting (wpc w k)" for k
    using uncounted_calm [OF i h] p by simp
  have sets: "counted n r ?w c = insert h (counted n r w c)" "lagging n r ?w c = lagging n r w c"
    "h \<notin> counted n r w c"
    using c h p by (auto simp: counted_def lagging_def)
  have ok: "hart_ok r (wbar ?w) (c k) (wpc ?w k)" if "k < n" for k
    using hk [OF that] alone [OF that] calm [OF that] c by (cases "wpc w k") auto
  have lw: "wpc ?w k = Last_wait \<longleftrightarrow> wpc w k = Last_wait" for k using p by simp
  show ?thesis
  proof (rule round_invI)
    show "lock_inv n ?w" using lock_inv_step [OF lk h] p by (simp add: wait_barrier_step_def Let_def)
  next
    fix k l assume "k < n" "resetting (wpc ?w k)"
    then show "k = l" using calm [of k] by (simp split: if_splits)
  qed (use round_invD [OF i] ok c sets lw in \<open>simp_all del: wait_simps(1)\<close>)
qed

lemma round_inc:
  assumes i: "round_inv n r w c" and h: "h < n" and p: "wpc w h = Inc_write q"
  shows "round_inv n r (goto h Release2 (set_bar (passed_update (\<lambda>_. q + 1)) w)) c"
proof -
  let ?w = "goto h Release2 (set_bar (passed_update (\<lambda>_. q + 1)) w)"
  note hk = round_invD(4) [OF i]
  have c: "Suc (c h) = r" "q = passed (wbar w)" using hk [OF h] p by simp_all
  have lk: "lock_inv n w" and "holders n w = {h}"
    using round_invD(2) [OF i] lock_inv_cases(1) [of n w h] h p by simp_all
  then have alone: "k < n \<Longrightarrow> wpc w k = Inc_write u \<Longrightarrow> k = h" for k u
    using member_iff(2) [of k n w] by auto
  have calm: "k < n \<Longrightarrow> \<not> resetting (wpc w k)" for k
    using uncounted_calm [OF i h] p by simp
  have sets: "counted n r ?w c = counted n r w c" "lagging n r ?w c = lagging n r w c - {h}" "h \<in> lagging n r w c"
    using c h p by (auto simp: counted_def lagging_def)
  have ok: "hart_ok r (wbar ?w) (c k) (wpc ?w k)" if "k < n" for k
    using hk [OF that] alone [OF that] calm [OF that] c by (cases "wpc w k") auto
  have lw: "wpc ?w k = Last_wait \<longleftrightarrow> wpc w k = Last_wait" for k using p by simp
  have "card (lagging n r w c) = Suc (card (lagging n r w c - {h}))"
    using card_Suc_Diff1 [OF finite_rounds(2) sets(3)] by simp
  note card = this
  show ?thesis
  proof (rule round_invI)
    show "lock_inv n ?w" using lock_inv_step [OF lk h] p by (simp add: wait_barrier_step_def Let_def)
  next
    fix k l assume "k < n" "resetting (wpc ?w k)"
    then show "k = l" using calm [of k] by (simp split: if_splits)
  next
    assume "lagging n r ?w c \<noteq> {}"
    then show "\<exists>k < n. wpc ?w k = Last_wait" using round_invD(6) [OF i] sets(3) unfolding lw by blast
  next
    fix k assume "k < n" "wpc ?w k = Last_wait"
    then show "passed (wbar ?w) = int n - int (card (lagging n r ?w c))"
      using round_invD(7) [OF i, of k] card c unfolding lw sets by simp
  next
    show "tokens (wbar ?w) = int n - int (card (counted n r ?w c))" using round_invD(3) [OF i] by (simp add: sets(1))
  qed (use round_invD(1) [OF i] ok in \<open>simp_all del: wait_simps(1)\<close>)
qed

lemma round_last:
  assumes i: "round_inv n r w c" and h: "h < n" and p: "wpc w h = If_last" and t: "tokens (wbar w) = 0"
    and calm: "\<And>k. k < n \<Longrightarrow> \<not> resetting (wpc w k)"
  shows "round_inv n r (goto h Last_passed w) c"
proof -
  let ?w = "goto h Last_passed w"
  note all = no_tokens [OF i t]
  have ahead: "k < n \<Longrightarrow> Suc (c k) \<noteq> r" for k using all(1) by simp
  have sets: "counted n r ?w c = counted n r w c" "lagging n r ?w c = {}"
    using p h ahead by (auto simp: counted_def lagging_def)
  have no: "wpc ?w k \<noteq> Last_wait" if "k < n" for k using all(2) [OF that] by auto
  show ?thesis
  proof (rule round_invI)
    show "lock_inv n ?w"
      using lock_inv_step [OF round_invD(2) [OF i] h] p t by (simp add: wait_barrier_step_def Let_def LAST_HART_def)
  next
    fix k l assume "k < n" "l < n" "resetting (wpc ?w k)" "resetting (wpc ?w l)"
    then show "k = l" using calm [of k] calm [of l] by (simp split: if_splits)
  next
    fix k assume "k < n"
    then show "hart_ok r (wbar ?w) (c k) (wpc ?w k)" using round_invD(4) [OF i, of k] all(1) [of k] t by simp
  next
    fix k assume "k < n" "wpc ?w k = Last_wait"
    then show "passed (wbar ?w) = int n - int (card (lagging n r ?w c))" using no by blast
  qed (use round_invD(1,3) [OF i] sets in \<open>simp_all del: wait_simps(1)\<close>)
qed

lemma round_passed:
  assumes i: "round_inv n r w c" and h: "h < n" and p: "wpc w h = Last_passed"
  shows "round_inv n r (goto h Last_reset (set_bar (passed_update (\<lambda>_. 1)) w)) c"
proof -
  let ?w = "goto h Last_reset (set_bar (passed_update (\<lambda>_. 1)) w)"
  have t: "tokens (wbar w) = 0" "c h = r" using round_invD(4) [OF i h] p by simp_all
  note all = no_tokens [OF i t(1)]
  have ahead: "k < n \<Longrightarrow> Suc (c k) \<noteq> r" for k using all(1) by simp
  have sets: "counted n r ?w c = counted n r w c" "lagging n r ?w c = {}"
    using p h ahead by (auto simp: counted_def lagging_def)
  have no: "wpc ?w k \<noteq> Last_wait" if "k < n" for k using all(2) [OF that] by auto
  have alone: "k < n \<Longrightarrow> resetting (wpc w k) \<Longrightarrow> k = h" for k using round_invD(5) [OF i _ h] p by simp
  show ?thesis
  proof (rule round_invI)
    show "lock_inv n ?w"
      using lock_inv_step [OF round_invD(2) [OF i] h] p by (simp add: wait_barrier_step_def Let_def)
  next
    fix k l assume "k < n" "l < n" "resetting (wpc ?w k)" "resetting (wpc ?w l)"
    then show "k = l" using alone [of k] alone [of l] by (simp split: if_splits)
  next
    fix k assume k: "k < n"
    show "hart_ok r (wbar ?w) (c k) (wpc ?w k)"
      using round_invD(4) [OF i k] all [OF k] alone [OF k] t by (cases "wpc w k") auto
  next
    fix k assume "k < n" "wpc ?w k = Last_wait"
    then show "passed (wbar ?w) = int n - int (card (lagging n r ?w c))" using no by blast
  qed (use round_invD(1,3) [OF i] sets in \<open>simp_all del: wait_simps(1)\<close>)
qed

text \<open>The reset starts the next round: all harts are behind it, the last hart waits for the others.\<close>

lemma round_reset:
  assumes i: "round_inv n r w c" and h: "h < n" and p: "wpc w h = Last_reset"
  shows "round_inv n (Suc r) (goto h Last_wait (set_bar (tokens_update (\<lambda>_. initial (wbar w))) w)) c"
proof -
  let ?w = "goto h Last_wait (set_bar (tokens_update (\<lambda>_. initial (wbar w))) w)"
  have t: "tokens (wbar w) = 0" "passed (wbar w) = 1" "c h = r" using round_invD(4) [OF i h] p by simp_all
  note all = no_tokens [OF i t(1)]
  have alone: "k < n \<Longrightarrow> resetting (wpc w k) \<Longrightarrow> k = h" for k using round_invD(5) [OF i _ h] p by simp
  have pcs: "wpc w k \<in> {Release1, If_last, Wait_reset}" if "k < n" "k \<noteq> h" for k
    using all(2) [OF that(1)] alone [OF that(1)] that(2) by (cases "wpc w k") auto
  have lag: "lagging n (Suc r) ?w c = {..<n} - {h}"
    using all(1) pcs by (auto simp: lagging_def split: if_splits) fastforce+
  have cnt: "counted n (Suc r) ?w c = {}" using all(1) by (force simp: counted_def)
  show ?thesis
  proof (rule round_invI)
    show "lock_inv n ?w"
      using lock_inv_step [OF round_invD(2) [OF i] h] p by (simp add: wait_barrier_step_def Let_def)
  next
    fix k l assume "k < n" "resetting (wpc ?w k)"
    then show "k = l" using alone [of k] by (auto split: if_splits)
  next
    fix k assume k: "k < n"
    show "hart_ok (Suc r) (wbar ?w) (c k) (wpc ?w k)" using pcs [OF k] all(1) [OF k] by auto
  next
    fix k assume "k < n" "wpc ?w k = Last_wait"
    show "passed (wbar ?w) = int n - int (card (lagging n (Suc r) ?w c))" using t h unfolding lag by simp
  next
    show "\<exists>k < n. wpc ?w k = Last_wait" using h by auto
  qed (use round_invD(1) [OF i] cnt in simp_all)
qed

text \<open>The last hart leaves when nobody lags behind.\<close>

lemma round_leave:
  assumes i: "round_inv n r w c" and h: "h < n" and p: "wpc w h = Last_wait" and e: "passed (wbar w) = int n"
  shows "round_inv n r (goto h Returned w) (c(h := Suc (c h)))"
proof -
  let ?w = "goto h Returned w" and ?c = "c(h := Suc (c h))"
  have c: "Suc (c h) = r" using round_invD(4) [OF i h] p by simp
  have "card (lagging n r w c) = 0" using round_invD(7) [OF i h p] e by simp
  then have "lagging n r w c = {}" by simp
  then have sets: "lagging n r ?w ?c = {}" "counted n r ?w ?c = counted n r w c"
    using p c by (auto simp: lagging_def counted_def)
  show ?thesis
  proof (rule round_invI)
    show "lock_inv n ?w"
      using lock_inv_step [OF round_invD(2) [OF i] h] p e round_invD(1) [OF i]
      by (simp add: wait_barrier_step_def Let_def)
  next
    fix k l assume "k < n" "l < n" "resetting (wpc ?w k)" "resetting (wpc ?w l)"
    then show "k = l" using round_invD(5) [OF i, of k l] by (simp split: if_splits)
  next
    fix k assume k: "k < n"
    show "hart_ok r (wbar ?w) (?c k) (wpc ?w k)" using round_invD(4) [OF i k] c by simp
  next
    fix k assume "k < n"
    show "passed (wbar ?w) = int n - int (card (lagging n r ?w ?c))" using e sets by simp
  qed (use round_invD(1,3) [OF i] sets in \<open>simp_all del: wait_simps(1)\<close>)
qed

text \<open>Every step of a call; \<open>returns\<close> counts a call that has returned.\<close>

definition returns :: "nat \<Rightarrow> wait_state \<Rightarrow> (nat \<Rightarrow> nat) \<Rightarrow> nat \<Rightarrow> nat" where
  "returns h w c = (if wpc w h = Returned then c(h := Suc (c h)) else c)"

definition advances :: "nat \<Rightarrow> nat \<Rightarrow> nat \<Rightarrow> wait_state \<Rightarrow> (nat \<Rightarrow> nat) \<Rightarrow> bool" where
  "advances n h r w c \<longleftrightarrow> (\<exists>r' \<ge> r. round_inv n r' (wait_barrier_step h w) (returns h (wait_barrier_step h w) c))"

lemma advances_move:
  assumes i: "round_inv n r w c" and h: "h < n" and w': "wait_barrier_step h w = goto h p (set_bar f w)"
    and f: "initial (f (wbar w)) = initial (wbar w)" "tokens (f (wbar w)) = tokens (wbar w)"
      "passed (f (wbar w)) = passed (wbar w)"
    and p: "hart_ok r (wbar w) (c h) p" "c h = r \<and> gathered p \<longleftrightarrow> c h = r \<and> gathered (wpc w h)"
      "Suc (c h) = r \<and> unpassed p \<longleftrightarrow> Suc (c h) = r \<and> unpassed (wpc w h)"
      "\<not> resetting p" "p \<noteq> Last_wait" "wpc w h \<noteq> Last_wait"
    and np: "p \<noteq> Returned"
  shows "advances n h r w c"
proof -
  have "lock_inv n (goto h p (set_bar f w))" using lock_inv_step [OF round_invD(2) [OF i] h] by (simp add: w')
  from round_keep [OF i h this f p(1-3)] p(4-6) np show ?thesis by (auto simp: w' advances_def returns_def)
qed

lemma advances_same: "round_inv n r w c \<Longrightarrow> wpc w h \<noteq> Returned \<Longrightarrow> wait_barrier_step h w = w \<Longrightarrow> advances n h r w c"
  by (auto simp: advances_def returns_def)

lemma advances_goto:
  "round_inv n r' (goto h q v) c \<Longrightarrow> wait_barrier_step h w = goto h q v \<Longrightarrow> q \<noteq> Returned \<Longrightarrow> r \<le> r' \<Longrightarrow>
   advances n h r w c"
  by (auto simp: advances_def returns_def)

lemma goto_id: "goto h q w = goto h q (set_bar (\<lambda>b. b) w)"
  by (simp add: goto_def set_bar_def)

lemmas call_step = wait_barrier_step_def Let_def LAST_HART_def

lemma advances_acquire:
  assumes i: "round_inv n r w c" and h: "h < n"
    and q: "wpc w h = Acquire1 \<and> q = Dec_read \<or> wpc w h = Acquire2 \<and> q = Inc_read"
  shows "advances n h r w c"
proof (cases "acquire (bar_lk (wbar w))")
  case (Inl e)
  with q have "wait_barrier_step h w = w" by (auto simp: call_step)
  then show ?thesis using advances_same [OF i] q by auto
next
  case (Inr lk)
  with q have "wait_barrier_step h w = goto h q (set_bar (bar_lk_update (\<lambda>_. lk)) w)" by (auto simp: call_step)
  then show ?thesis by (rule advances_move [OF i h]) (use q round_invD(4) [OF i h] in auto)
qed

lemma advances_arriving:
  assumes i: "round_inv n r w c" and h: "h < n" and calm: "\<not> racing n h w"
    and p: "wpc w h \<in> {Acquire1, Dec_read, Release1, If_last} \<or> (\<exists>t. wpc w h = Dec_write t)"
  shows "advances n h r w c"
proof (cases "wpc w h")
  case Acquire1
  then show ?thesis using advances_acquire [OF i h] by blast
next
  case Dec_read
  then have "wait_barrier_step h w = goto h (Dec_write (tokens (wbar w))) (set_bar (\<lambda>b. b) w)"
    by (simp add: call_step goto_id [of h _ w])
  then show ?thesis by (rule advances_move [OF i h]) (use Dec_read round_invD(4) [OF i h] in simp_all)
next
  case (Dec_write t)
  show ?thesis by (rule advances_goto [OF round_dec [OF i h Dec_write]]) (simp_all add: Dec_write call_step)
next
  case Release1
  then have "wait_barrier_step h w = goto h If_last (set_bar (bar_lk_update (\<lambda>_. release (bar_lk (wbar w)))) w)"
    by (simp add: call_step)
  then show ?thesis by (rule advances_move [OF i h]) (use Release1 round_invD(4) [OF i h] in simp_all)
next
  case If_last
  show ?thesis
  proof (cases "tokens (wbar w) = 0")
    case True
    then have "\<not> resetting (wpc w k)" if "k < n" for k
      using calm If_last that by (auto simp: racing_def LAST_HART_def)
    note last = round_last [OF i h If_last True this]
    show ?thesis by (rule advances_goto [OF last]) (simp_all add: If_last True call_step)
  next
    case False
    then have "wait_barrier_step h w = goto h Wait_reset (set_bar (\<lambda>b. b) w)"
      using If_last by (simp add: call_step goto_id [of h _ w])
    then show ?thesis by (rule advances_move [OF i h]) (use If_last round_invD(4) [OF i h] in simp_all)
  qed
qed (use p in auto)

lemma advances_last:
  assumes i: "round_inv n r w c" and h: "h < n" and p: "wpc w h \<in> {Last_passed, Last_reset, Last_wait}"
  shows "advances n h r w c"
proof -
  consider "wpc w h = Last_passed" | "wpc w h = Last_reset"
    | "wpc w h = Last_wait" "passed (wbar w) = int n" | "wpc w h = Last_wait" "passed (wbar w) \<noteq> int n"
    using p by blast
  then show ?thesis
  proof cases
    case 1
    show ?thesis by (rule advances_goto [OF round_passed [OF i h 1]]) (simp_all add: 1 call_step)
  next
    case 2
    show ?thesis by (rule advances_goto [OF round_reset [OF i h 2]]) (simp_all add: 2 call_step)
  next
    case 3
    then have "wait_barrier_step h w = goto h Returned w" using round_invD(1) [OF i] by (simp add: call_step)
    with round_leave [OF i h 3] show ?thesis by (auto simp: advances_def returns_def)
  next
    case 4
    then have "wait_barrier_step h w = w" using round_invD(1) [OF i] by (simp add: call_step)
    with 4 show ?thesis using advances_same [OF i] by simp
  qed
qed

lemma advances_passing:
  assumes i: "round_inv n r w c" and h: "h < n"
    and p: "wpc w h \<in> {Wait_reset, Acquire2, Inc_read, Release2} \<or> (\<exists>q. wpc w h = Inc_write q)"
  shows "advances n h r w c"
proof (cases "wpc w h")
  case Wait_reset
  show ?thesis
  proof (cases "tokens (wbar w) = initial (wbar w)")
    case True
    then have "counted n r w c = {}" using round_invD(1,3) [OF i] by simp
    with h Wait_reset round_invD(4) [OF i h] have c: "Suc (c h) = r" by (auto simp: counted_def)
    have "wait_barrier_step h w = goto h Acquire2 (set_bar (\<lambda>b. b) w)"
      using True Wait_reset by (simp add: call_step goto_id [of h _ w])
    then show ?thesis by (rule advances_move [OF i h]) (use Wait_reset c in simp_all)
  next
    case False
    then have "wait_barrier_step h w = w" using Wait_reset by (simp add: call_step)
    with Wait_reset show ?thesis using advances_same [OF i] by simp
  qed
next
  case Acquire2
  then show ?thesis using advances_acquire [OF i h] by blast
next
  case Inc_read
  then have "wait_barrier_step h w = goto h (Inc_write (passed (wbar w))) (set_bar (\<lambda>b. b) w)"
    by (simp add: call_step goto_id [of h _ w])
  then show ?thesis by (rule advances_move [OF i h]) (use Inc_read round_invD(4) [OF i h] in simp_all)
next
  case (Inc_write q)
  show ?thesis by (rule advances_goto [OF round_inc [OF i h Inc_write]]) (simp_all add: Inc_write call_step)
next
  case Release2
  let ?w = "wait_barrier_step h w"
  have w': "?w = goto h Returned (set_bar (bar_lk_update (\<lambda>_. release (bar_lk (wbar w)))) w)"
    using Release2 by (simp add: call_step)
  have "lock_inv n ?w" by (rule lock_inv_step [OF round_invD(2) [OF i] h])
  then have "round_inv n r ?w (c(h := Suc (c h)))"
    unfolding w' by (rule round_keep [OF i h]) (use Release2 round_invD(4) [OF i h] in simp_all)
  then show ?thesis by (auto simp: w' advances_def returns_def)
qed (use p in auto)

lemma round_step:
  assumes "round_inv n r w c" "h < n" "wpc w h \<noteq> Returned" "\<not> racing n h w"
  shows "advances n h r w c"
  using advances_arriving [OF assms(1,2,4)] advances_last [OF assms(1,2)] advances_passing [OF assms(1,2)] assms(3)
  by (cases "wpc w h") simp_all

lemma round_enter:
  assumes i: "round_inv n r w c" and h: "h < n" and p: "wpc w h = Returned"
  shows "round_inv n r (goto h Acquire1 w) c"
proof -
  have "lock_inv n (goto h Acquire1 w)"
    using round_invD(2) [OF i] h p member_iff(2) [OF h, of w] by (auto simp: lock_inv_def member_keep)
  then show ?thesis
    using round_keep [OF i h, of Acquire1 "\<lambda>b. b" "c h"] round_invD(4) [OF i h] p
    by (simp add: goto_id [of h Acquire1 w] fun_upd_idem)
qed

section \<open>The order of the phases\<close>

text \<open>The actions of a trace, one after the other.\<close>

fun run_acts :: "'b action \<Rightarrow> (nat \<times> nat) list \<Rightarrow> 'b \<Rightarrow> 'b outcome" where
  "run_acts act [] b = Inr b"
| "run_acts act ((p, h) # tr) b = bindE (act p h b) (run_acts act tr)"

lemma run_acts_append: "run_acts act (tr @ tr') b = bindE (run_acts act tr b) (run_acts act tr')"
  by (induction tr arbitrary: b) (auto simp: bindE_assoc intro!: bindE_cong)

definition executed :: "'b phase_state \<Rightarrow> nat \<Rightarrow> nat" where
  "executed s h = (if wpc (bars s) h = Returned then calls s h else Suc (calls s h))"

definition ordered :: "nat \<Rightarrow> 'b action \<Rightarrow> 'b \<Rightarrow> 'b phase_state \<Rightarrow> bool" where
  "ordered n act b s \<longleftrightarrow>
     sorted (map fst (trace s)) \<and> distinct (trace s) \<and>
     set (trace s) = {(p, h). h < n \<and> p < executed s h} \<and> run_acts act (trace s) b = Inr (shared s) \<and>
     (\<forall>h < n. \<forall>k < n. executed s h \<le> Suc (executed s k))"

text \<open>In round \<open>r\<close> no later phase has been executed, and all earlier ones have.\<close>

definition in_round :: "nat \<Rightarrow> nat \<Rightarrow> 'b phase_state \<Rightarrow> bool" where
  "in_round n r s \<longleftrightarrow> round_inv n r (bars s) (calls s)"

lemma in_round_executed:
  assumes "in_round n r s" "h < n"
  shows "r \<le> executed s h" "executed s h \<le> Suc r" "wpc (bars s) h = Returned \<Longrightarrow> calls s h = r"
  using round_invD(4) [OF assms(1) [unfolded in_round_def] assms(2)]
  by (cases "wpc (bars s) h"; auto simp: executed_def)+

lemma phase_step_cases:
  obtains (idle) "bars (phase_step act m h s) = bars s" "calls (phase_step act m h s) = calls s"
      "shared (phase_step act m h s) = shared s" "trace (phase_step act m h s) = trace s"
  | (enter) b where "wpc (bars s) h = Returned" "act (calls s h) h (shared s) = Inr b"
      "phase_step act m h s =
        s\<lparr>bars := goto h Acquire1 (bars s), shared := b, trace := trace s @ [(calls s h, h)]\<rparr>" "calls s h < m"
  | (call) "wpc (bars s) h \<noteq> Returned"
      "phase_step act m h s =
        s\<lparr>bars := wait_barrier_step h (bars s), calls := returns h (wait_barrier_step h (bars s)) (calls s)\<rparr>"
proof -
  note step = phase_step_def [of act m h s, unfolded Let_def]
  show thesis
  proof (cases "stopped s h \<or> wpc (bars s) h = Returned \<and> m \<le> calls s h")
    case True
    then show thesis by (intro idle) (auto simp: step)
  next
    case False
    show thesis
    proof (cases "wpc (bars s) h = Returned")
      case True
      with False show thesis
        by (cases "act (calls s h) h (shared s)") (intro idle enter; simp add: step)+
    next
      case nr: False
      with False show thesis by (intro call) (auto simp: step returns_def)
    qed
  qed
qed

lemma ordered_cong:
  assumes "ordered n act b s" "trace s' = trace s" "shared s' = shared s" "\<And>h. h < n \<Longrightarrow> executed s' h = executed s h"
  shows "ordered n act b s'"
proof -
  have "{(p, h). h < n \<and> p < executed s' h} = {(p, h). h < n \<and> p < executed s h}" using assms(4) by auto
  with assms show ?thesis by (simp add: ordered_def)
qed

lemma call_executed:
  assumes "wpc (bars s) h \<noteq> Returned"
  shows "executed (s\<lparr>bars := wait_barrier_step h (bars s),
      calls := returns h (wait_barrier_step h (bars s)) (calls s)\<rparr>) k = executed s k"
  using assms step_other [of k h "bars s"] by (auto simp: executed_def returns_def)

text \<open>Entering a call executes the phase of the round: it comes last in the order.\<close>

lemma ordered_enter:
  assumes o: "ordered n act b s" and r: "in_round n r s" and h: "h < n" "wpc (bars s) h = Returned"
    and a: "act (calls s h) h (shared s) = Inr b'"
  shows "ordered n act b (s\<lparr>bars := goto h Acquire1 (bars s), shared := b', trace := trace s @ [(calls s h, h)]\<rparr>)"
proof -
  let ?s = "s\<lparr>bars := goto h Acquire1 (bars s), shared := b', trace := trace s @ [(calls s h, h)]\<rparr>"
  have c: "calls s h = r" "executed s h = r" using in_round_executed [OF r h(1)] h(2) by (auto simp: executed_def)
  have e: "executed ?s = (executed s)(h := Suc r)" using c h by (auto simp: executed_def fun_eq_iff)
  have old: "set (trace s) = {(p, k). k < n \<and> p < executed s k}" using o by (simp add: ordered_def)
  have "p \<le> r" if "(p, k) \<in> set (trace s)" for p k
    using that in_round_executed(2) [OF r, of k] unfolding old by auto
  then have "sorted (map fst (trace ?s))" using o c by (auto simp: ordered_def sorted_append)
  moreover have "(calls s h, h) \<notin> set (trace s)" using c by (simp add: old)
  then have "distinct (trace ?s)" using o by (simp add: ordered_def)
  moreover have "set (trace ?s) = {(p, k). k < n \<and> p < executed ?s k}"
    using h(1) c unfolding e by (auto simp: old split: if_splits)
  moreover have "run_acts act (trace ?s) b = Inr (shared ?s)"
    using o a c by (simp add: ordered_def run_acts_append)
  moreover have "executed ?s k \<le> Suc (executed ?s l)" if "k < n" "l < n" for k l
    using in_round_executed(1,2) [OF r that(1)] in_round_executed(1,2) [OF r that(2)] unfolding e by auto
  ultimately show ?thesis by (simp add: ordered_def)
qed

lemma calm_invariant:
  assumes o: "ordered n act b s" and r: "in_round n r s" and h: "h < n" "\<not> racing n h (bars s)"
  shows "ordered n act b (phase_step act m h s) \<and> (\<exists>r' \<ge> r. in_round n r' (phase_step act m h s))"
proof (cases rule: phase_step_cases [of act m h s])
  case idle
  then have "ordered n act b (phase_step act m h s)" by (intro ordered_cong [OF o]) (simp_all add: executed_def)
  with idle r show ?thesis by (auto simp: in_round_def)
next
  case (enter b')
  have "in_round n r (phase_step act m h s)"
    using round_enter [OF r [unfolded in_round_def] h(1) enter(1)] by (simp add: enter(3) in_round_def)
  with ordered_enter [OF o r h(1) enter(1,2)] show ?thesis by (auto simp: enter(3))
next
  case call
  have "advances n h r (bars s) (calls s)" using round_step r h call(1) by (simp add: in_round_def)
  moreover have "ordered n act b (phase_step act m h s)"
    using call_executed [OF call(1)] by (intro ordered_cong [OF o]) (simp_all add: call(2))
  ultimately show ?thesis by (auto simp: advances_def in_round_def call(2))
qed

lemma init_invariant: "phase_init n b s \<Longrightarrow> ordered n act b s \<and> in_round n 0 s"
  by (auto simp: phase_init_def phase_start_def ordered_def in_round_def executed_def round_inv_def counted_def lagging_def
      lock_inv_def holders_def BARRIER_INITIALIZER_def LOCK_INITIALIZER_def)

lemma calm_ordered: "pq.reach n b act m s \<Longrightarrow> ordered n act b s \<and> (\<exists>r. in_round n r s)"
proof (erule pq.reach_invariant)
  fix s s' assume "ordered n act b s \<and> (\<exists>r. in_round n r s)" "calm_steps n act m s s'"
  then show "ordered n act b s' \<and> (\<exists>r. in_round n r s')"
    using calm_invariant [of n act b s _ _ m] unfolding calm_steps_def by blast
qed (use init_invariant [of n b _ act] in blast)

text \<open>
  Two harts that race block each other: both stay in the branch of the last hart, where \<^verbatim>\<open>passed\<close> is 1.
\<close>

definition blocked :: "nat \<Rightarrow> wait_state \<Rightarrow> bool" where
  "blocked n w \<longleftrightarrow> initial (wbar w) = int n \<and>
     (\<forall>h < n. wpc w h = Last_passed \<or> wpc w h \<in> {Last_reset, Last_wait} \<and> passed (wbar w) = 1)"

lemma race_blocks:
  assumes i: "round_inv 2 r w c" and h: "h < 2" "racing 2 h w"
  shows "blocked 2 (wait_barrier_step h w)"
proof -
  obtain k where k: "k < 2" "resetting (wpc w k)" and p: "wpc w h = If_last" "tokens (wbar w) = 0"
    using h(2) by (auto simp: racing_def LAST_HART_def)
  have "k \<noteq> h" using k p by auto
  with h(1) k(1) have other: "l < 2 \<Longrightarrow> l \<noteq> h \<Longrightarrow> l = k" for l by linarith
  have "wpc w k = Last_passed \<or> wpc w k = Last_reset \<and> passed (wbar w) = 1"
    using k(2) round_invD(4) [OF i k(1)] by (cases "wpc w k") auto
  then show ?thesis
    using other p round_invD(1) [OF i] unfolding blocked_def by (auto simp: call_step)
qed

lemma blocked_step:
  assumes b: "blocked 2 w" and h: "h < 2"
  shows "blocked 2 (wait_barrier_step h w)" "wpc (wait_barrier_step h w) h \<noteq> Returned"
proof -
  have all: "k < 2 \<Longrightarrow> wpc w k = Last_passed \<or> wpc w k \<in> {Last_reset, Last_wait} \<and> passed (wbar w) = 1" for k
    using b by (simp add: blocked_def)
  have ini: "initial (wbar w) = 2" using b by (simp add: blocked_def)
  consider "wpc w h = Last_passed" | "wpc w h = Last_reset" "passed (wbar w) = 1"
    | "wpc w h = Last_wait" "passed (wbar w) = 1" using all [OF h] by blast
  then show "blocked 2 (wait_barrier_step h w)" "wpc (wait_barrier_step h w) h \<noteq> Returned"
    using all ini unfolding blocked_def by (cases; auto simp: call_step)+
qed

text \<open>With two harts no assumption on the interleaving is needed.\<close>

lemma pair_step:
  fixes m :: nat
  assumes o: "ordered 2 act b s" and i: "(\<exists>r. in_round 2 r s) \<or> blocked 2 (bars s)" and h: "h < 2"
  defines "s' \<equiv> phase_step act m h s"
  shows "ordered 2 act b s' \<and> ((\<exists>r. in_round 2 r s') \<or> blocked 2 (bars s'))"
proof (cases "racing 2 h (bars s) \<or> blocked 2 (bars s)")
  case False
  then show ?thesis using calm_invariant [OF o _ h, of _ m] i unfolding s'_def by blast
next
  case True
  then have np: "wpc (bars s) h \<noteq> Returned" using h by (auto simp: racing_def blocked_def)
  have "blocked 2 (wait_barrier_step h (bars s))"
    using True i race_blocks [OF _ h] blocked_step(1) [OF _ h] by (auto simp: in_round_def)
  then show ?thesis
  proof (cases rule: phase_step_cases [of act m h s])
    case idle
    then have "ordered 2 act b s'" unfolding s'_def by (intro ordered_cong [OF o]) (simp_all add: executed_def)
    with idle i show ?thesis by (auto simp: s'_def in_round_def)
  next
    case call
    have "ordered 2 act b s'"
      using call_executed [OF np] unfolding s'_def by (intro ordered_cong [OF o]) (simp_all add: call(2))
    with \<open>blocked 2 (wait_barrier_step h (bars s))\<close> show ?thesis by (simp add: s'_def call(2))
  qed (use np in simp)
qed

lemma pair_ordered: "pa.reach 2 b act m s \<Longrightarrow> ordered 2 act b s \<and> ((\<exists>r. in_round 2 r s) \<or> blocked 2 (bars s))"
proof (erule pa.reach_invariant)
  fix s s' assume i: "ordered 2 act b s \<and> ((\<exists>r. in_round 2 r s) \<or> blocked 2 (bars s))" and "all_steps 2 act m s s'"
  then obtain h where h: "h < 2" "s' = phase_step act m h s" by (auto simp: all_steps_def)
  show "ordered 2 act b s' \<and> ((\<exists>r. in_round 2 r s') \<or> blocked 2 (bars s'))"
    unfolding h(2) using i by (intro pair_step h(1)) simp_all
qed (use init_invariant [of 2 b _ act] in blast)

lemma phases_ordered:
  assumes "pq.reach n b act m s \<or> n = 2 \<and> pa.reach n b act m s"
  shows "ordered n act b s"
    and "h < n \<Longrightarrow> wpc (bars s) h = Returned \<Longrightarrow> k < n \<Longrightarrow> calls s h \<le> executed s k \<and> executed s k \<le> Suc (calls s h)"
proof -
  have o: "ordered n act b s" "(\<exists>r. in_round n r s) \<or> blocked n (bars s)"
    using assms calm_ordered [of n b act m s] pair_ordered [of b act m s] by blast+
  show "ordered n act b s" by (rule o(1))
  assume h: "h < n" "wpc (bars s) h = Returned" and k: "k < n"
  then have "\<not> blocked n (bars s)" by (auto simp: blocked_def)
  then obtain r where r: "in_round n r s" using o(2) by blast
  show "calls s h \<le> executed s k \<and> executed s k \<le> Suc (calls s h)"
    using in_round_executed [OF r h(1)] in_round_executed [OF r k] h(2) by simp
qed

section \<open>Schedules\<close>

lemma phase_schedule_reach:
  assumes "set sched \<subseteq> {..<n}"
  shows "pa.reach n b act m (fold (phase_step act m) sched (phase_start n b))"
proof -
  have "pa.reach n b act m s \<Longrightarrow> pa.reach n b act m (fold (phase_step act m) sched s)" for s
    using assms
  proof (induction sched arbitrary: s)
    case (Cons h sched)
    then have "pa.reach n b act m (phase_step act m h s)"
      by (intro pa.reach_step [OF Cons.prems(1)]) (auto simp: all_steps_def)
    with Cons show ?case by simp
  qed simp
  then show ?thesis by (simp add: pa.reach_init phase_init_def)
qed

lemmas phase_eval = phase_start_def phase_step_def wait_barrier_step_def goto_def set_bar_def
  BARRIER_INITIALIZER_def LOCK_INITIALIZER_def LAST_HART_def acquire_def release_def Let_def

text \<open>Both harts execute each phase and pass the barrier behind it.\<close>

definition pass_once :: "nat list" where
  "pass_once = [0, 1, 0, 0, 0, 0, 0, 1, 1, 1, 1, 1, 1, 1, 0, 0, 0, 0, 0, 1]"

definition lockstep :: "nat list" where
  "lockstep = pass_once @ pass_once @ pass_once"

lemma lockstep_runs:
  assumes "run_acts act [(0, 0), (0, 1), (1, 0), (1, 1), (2, 0), (2, 1)] b = Inr b'"
  defines "s \<equiv> fold (phase_step act 3) lockstep (phase_start 2 b)"
  shows "wpc (bars s) 0 = Returned" "wpc (bars s) 1 = Returned" "calls s 0 = 3" "calls s 1 = 3" "shared s = b'"
proof -
  obtain b1 b2 b3 b4 b5 where "act 0 0 b = Inr b1" "act 0 1 b1 = Inr b2" "act 1 0 b2 = Inr b3"
    "act 1 1 b3 = Inr b4" "act 2 0 b4 = Inr b5" "act 2 1 b5 = Inr b'"
    using assms(1) by (auto simp del: One_nat_def)
  note acts = this [unfolded One_nat_def] numeral_2_eq_2 [symmetric]
  show "wpc (bars s) 0 = Returned" "wpc (bars s) 1 = Returned" "calls s 0 = 3" "calls s 1 = 3" "shared s = b'"
    unfolding s_def lockstep_def pass_once_def by (simp_all add: phase_eval acts)
qed

text \<open>
  Three harts: harts 1 and 2 both reset the barrier, hart 2 after hart 0 has called again. The second
  reset lets hart 0 pass a barrier that the others have not reached.
\<close>

definition overtaking :: "nat list" where
  "overtaking =
     [0, 1, 2, 0, 0, 0, 0, 0, 1, 1, 1, 1, 2, 2, 2, 2, 1, 2, 1, 1, 0, 0, 0, 0, 0, 0, 0, 0, 0, 0, 0, 2, 2, 0, 0, 0, 0, 0, 0]"

lemma overtaking_runs:
  assumes "run_acts act [(0, 0), (0, 1), (0, 2), (1, 0), (2, 0)] b = Inr b'"
  defines "s \<equiv> fold (phase_step act 3) overtaking (phase_start 3 b)"
  shows "trace s = [(0, 0), (0, 1), (0, 2), (1, 0), (2, 0)]" "shared s = b'"
proof -
  obtain b1 b2 b3 b4 where "act 0 0 b = Inr b1" "act 0 1 b1 = Inr b2" "act 0 2 b2 = Inr b3"
    "act 1 0 b3 = Inr b4" "act 2 0 b4 = Inr b'"
    using assms(1) by (auto simp del: One_nat_def)
  note acts = this [unfolded One_nat_def] numeral_2_eq_2 [symmetric]
  show "trace s = [(0, 0), (0, 1), (0, 2), (1, 0), (2, 0)]" "shared s = b'"
    unfolding s_def overtaking_def by (simp_all add: phase_eval acts)
qed

end
