(* ===== verification/Layout.thy ===== *)
theory Layout
  imports Prelude
begin

text \<open>
  The machine layout: the constants of \<^verbatim>\<open>src/src/include/dtb.h\<close> (the hand-parsed device tree)
  and the address arithmetic of \<^verbatim>\<open>src/src/include/memory.h\<close>: page rounding, the conversions
  between physical addresses (\<^verbatim>\<open>pa\<close>), linearly mapped RAM (\<^verbatim>\<open>kpa\<close>) and kernel image addresses
  (\<^verbatim>\<open>kva\<close>), and the encoding of Sv39 page table entries. The lemmas show that the conversions
  invert each other and that an entry keeps the page it was built from.
\<close>

section \<open>The device tree constants (dtb.h)\<close>

definition DTB_FW_CFG :: uint64 where [layout_defs]: "DTB_FW_CFG = 0x10100000"
definition DTB_FLASH :: uint64 where [layout_defs]: "DTB_FLASH = 0x20000000"
definition DTB_PLATFORM_BUS :: uint64 where [layout_defs]: "DTB_PLATFORM_BUS = 0x4000000"
definition FIRMWARE_SIZE :: uint64 where [layout_defs]: "FIRMWARE_SIZE = 0x00100000"
definition DTB_MEMORY :: uint64 where [layout_defs]: "DTB_MEMORY = 0x80000000"
definition DTB_MEMORY_SIZE :: uint64 where [layout_defs]: "DTB_MEMORY_SIZE = 0x10000000"
definition DTB_MEMORY_END :: uint64 where
  [layout_defs]: "DTB_MEMORY_END = DTB_MEMORY + DTB_MEMORY_SIZE"
definition DTB_NR_CPUS :: nat where [layout_defs]: "DTB_NR_CPUS = 2"
definition DTB_RTC :: uint64 where [layout_defs]: "DTB_RTC = 0x101000"
definition DTB_SERIAL :: uint64 where [layout_defs]: "DTB_SERIAL = 0x10000000"
definition DTB_VIRTIO0 :: uint64 where [layout_defs]: "DTB_VIRTIO0 = 0x10001000"
definition DTB_VIRTIO_SIZE :: uint64 where [layout_defs]: "DTB_VIRTIO_SIZE = 0x1000"
definition DTB_PCI :: uint64 where [layout_defs]: "DTB_PCI = 0x30000000"
definition DTB_PCI_SIZE :: uint64 where [layout_defs]: "DTB_PCI_SIZE = 0x10000000"
definition DTB_PCI_IO :: uint64 where [layout_defs]: "DTB_PCI_IO = 0x3000000"
definition DTB_PCI_IO_SIZE :: uint64 where [layout_defs]: "DTB_PCI_IO_SIZE = 0x10000"
definition DTB_PLIC :: uint64 where [layout_defs]: "DTB_PLIC = 0xc000000"
definition DTB_PLIC_SIZE :: uint64 where [layout_defs]: "DTB_PLIC_SIZE = 0x600000"
definition DTB_CLINT :: uint64 where [layout_defs]: "DTB_CLINT = 0x2000000"
definition DTB_CLINT_SIZE :: uint64 where [layout_defs]: "DTB_CLINT_SIZE = 0x10000"

section \<open>Pages and address spaces (memory.h)\<close>

definition PAGE_SHIFT :: nat where [layout_defs]: "PAGE_SHIFT = 12"
definition PAGE_SIZE :: uint64 where [layout_defs]: "PAGE_SIZE = push_bit 12 1"
definition VAS_KERNEL :: uint64 where [layout_defs]: "VAS_KERNEL = 0xffffffc000000000"
definition VAS_CPU_STRUCT :: uint64 where [layout_defs]: "VAS_CPU_STRUCT = 0xffffffc040000000"
definition VAS_RAM :: uint64 where [layout_defs]: "VAS_RAM = 0xffffffe000000000"
definition MAX_VA :: uint64 where [layout_defs]: "MAX_VA = 0xffffffffffffffff"

definition KPA2PA :: "uint64 \<Rightarrow> uint64" where
  "KPA2PA kpa = (kpa AND NOT VAS_RAM) + DTB_MEMORY"

definition PA2KPA :: "uint64 \<Rightarrow> uint64" where
  "PA2KPA pa = (pa - DTB_MEMORY) OR VAS_RAM"

definition KVA2PA :: "uint64 \<Rightarrow> uint64" where
  "KVA2PA kva = kva - VAS_KERNEL + DTB_MEMORY"

definition PA2KVA :: "uint64 \<Rightarrow> uint64" where
  "PA2KVA pa = pa - DTB_MEMORY + VAS_KERNEL"

definition KVA2KPA :: "uint64 \<Rightarrow> uint64" where
  "KVA2KPA kva = kva - VAS_KERNEL + VAS_RAM"

definition KPA2KVA :: "uint64 \<Rightarrow> uint64" where
  "KPA2KVA kpa = kpa - VAS_RAM + VAS_KERNEL"

definition PGROUNDUP :: "uint64 \<Rightarrow> uint64" where
  "PGROUNDUP a = (a + PAGE_SIZE - 1) AND NOT (PAGE_SIZE - 1)"

definition PGROUNDDOWN :: "uint64 \<Rightarrow> uint64" where
  "PGROUNDDOWN a = a AND NOT (PAGE_SIZE - 1)"

section \<open>Page table entries (memory.h)\<close>

definition PTE_SIZE :: uint64 where [layout_defs]: "PTE_SIZE = 8"
definition LEVELS :: nat where [layout_defs]: "LEVELS = 3"

definition PTE_V :: uint64 where [layout_defs]: "PTE_V = push_bit 0 1"
definition PTE_R :: uint64 where [layout_defs]: "PTE_R = push_bit 1 1"
definition PTE_W :: uint64 where [layout_defs]: "PTE_W = push_bit 2 1"
definition PTE_X :: uint64 where [layout_defs]: "PTE_X = push_bit 3 1"
definition PTE_U :: uint64 where [layout_defs]: "PTE_U = push_bit 4 1"
definition PTE_G :: uint64 where [layout_defs]: "PTE_G = push_bit 5 1"
definition PTE_A :: uint64 where [layout_defs]: "PTE_A = push_bit 6 1"
definition PTE_D :: uint64 where [layout_defs]: "PTE_D = push_bit 7 1"

definition PA2PTE :: "uint64 \<Rightarrow> pte_t" where
  "PA2PTE pa = push_bit 10 (drop_bit 12 pa)"

definition PTE2PA :: "pte_t \<Rightarrow> uint64" where
  "PTE2PA pte = push_bit 12 (drop_bit 10 pte)"

definition VA2IDX :: "nat \<Rightarrow> uint64 \<Rightarrow> uint64" where
  "VA2IDX level va = drop_bit (level * 9) (drop_bit PAGE_SHIFT va) AND 0x1ff"

section \<open>Address arithmetic\<close>

lemma and_not_mask_eq: "a AND NOT (mask n) = push_bit n (drop_bit n (a :: uint64))"
  by (rule bit_word_eqI) (auto simp: bit_simps)

lemma page_mask_eq: "PAGE_SIZE - 1 = mask 12"
  by (simp add: layout_defs mask_eq_exp_minus_1)

lemma PGROUNDDOWN_eq: "PGROUNDDOWN a = push_bit 12 (drop_bit 12 a)"
  unfolding PGROUNDDOWN_def page_mask_eq by (rule and_not_mask_eq)

lemma PGROUNDUP_eq: "PGROUNDUP a = PGROUNDDOWN (a + 4095)"
  by (simp add: PGROUNDUP_def PGROUNDDOWN_def layout_defs add.commute)

lemma PGROUNDDOWN_aligned [simp]: "take_bit 12 (PGROUNDDOWN a) = 0"
  by (rule bit_word_eqI) (auto simp: PGROUNDDOWN_eq bit_simps)

lemma PGROUNDUP_aligned [simp]: "take_bit 12 (PGROUNDUP a) = 0"
  by (simp add: PGROUNDUP_eq)

lemma PGROUNDDOWN_id: "take_bit 12 a = 0 \<Longrightarrow> PGROUNDDOWN a = a"
  using bits_split [of 12 a] by (simp add: PGROUNDDOWN_eq)

lemma PGROUNDDOWN_aligned_add:
  "take_bit 12 p = 0 \<Longrightarrow> x < 4096 \<Longrightarrow> PGROUNDDOWN (p + x) = p"
  using aligned_add_drop_bit [of 12 p x] PGROUNDDOWN_id [of p] by (simp add: PGROUNDDOWN_eq)

lemma PGROUNDUP_id: "take_bit 12 a = 0 \<Longrightarrow> PGROUNDUP a = a"
  by (simp add: PGROUNDUP_eq PGROUNDDOWN_aligned_add)

lemma aligned_unat_mod: "take_bit 12 (p :: uint64) = 0 \<longleftrightarrow> unat p mod 4096 = 0"
proof -
  have "unat (take_bit 12 p) = take_bit 12 (unat p)" by (rule unsigned_take_bit_eq)
  then have "unat (take_bit 12 p) = unat p mod 4096" by (simp add: take_bit_eq_mod [of 12 "unat p"])
  then show ?thesis by (metis unat_0 unat_eq_zero)
qed

text \<open>Aligned addresses are at least a page apart.\<close>

lemma aligned_less_next:
  fixes p q :: uint64
  assumes "take_bit 12 p = 0" "take_bit 12 q = 0" "p < q"
  shows "unat p + 4096 \<le> unat q"
proof -
  have "unat p mod 4096 = 0" "unat q mod 4096 = 0" "unat p < unat q"
    using assms by (simp_all add: aligned_unat_mod word_less_nat_alt)
  then show ?thesis by (rule multiples_apart)
qed

lemma VAS_RAM_eq: "VAS_RAM = NOT (mask 37)"
  by (simp add: layout_defs mask_eq_exp_minus_1)

lemma KPA2PA_PA2KPA:
  assumes "pa - DTB_MEMORY < 2 ^ 37"
  shows "KPA2PA (PA2KPA pa) = pa"
proof -
  have "((pa - DTB_MEMORY) OR VAS_RAM) AND NOT VAS_RAM = pa - DTB_MEMORY"
    using bit_less_two_powerD [OF assms]
    by (intro bit_word_eqI) (auto simp: VAS_RAM_eq bit_simps)
  then show ?thesis by (simp add: KPA2PA_def PA2KPA_def)
qed

lemma VAS_RAM_offset: "VAS_RAM \<le> kpa \<Longrightarrow> kpa - VAS_RAM < 2 ^ 37"
  using unat_sub [of VAS_RAM kpa] unat_less_length [of kpa]
  by (simp add: word_less_nat_alt layout_defs)

lemma PA2KPA_KPA2PA:
  assumes "VAS_RAM \<le> kpa"
  shows "PA2KPA (KPA2PA kpa) = kpa"
proof -
  define x where "x = kpa - VAS_RAM"
  have x: "x < 2 ^ 37" unfolding x_def by (rule VAS_RAM_offset [OF assms])
  have "VAS_RAM + x = VAS_RAM OR x"
    by (rule aligned_add_eq_or [OF _ x]) (simp add: layout_defs)
  then have kpa: "kpa = VAS_RAM OR x" by (simp add: x_def)
  have "(VAS_RAM OR x) AND NOT VAS_RAM = x"
    using bit_less_two_powerD [OF x] by (intro bit_word_eqI) (auto simp: VAS_RAM_eq bit_simps)
  then show ?thesis by (simp add: KPA2PA_def PA2KPA_def kpa or.commute)
qed

lemma KVA_conversions:
  "PA2KVA (KVA2PA kva) = kva" "KVA2PA (PA2KVA pa) = pa" "KPA2KVA (KVA2KPA kva) = kva"
  by (simp_all add: KVA2PA_def PA2KVA_def KVA2KPA_def KPA2KVA_def)

lemma PTE2PA_PA2PTE: "flags < 1024 \<Longrightarrow> PTE2PA (PA2PTE pa OR flags) = PGROUNDDOWN pa"
proof -
  assume "flags < 1024"
  then have "drop_bit 10 flags = 0"
    using take_bit_eq_self_word [of flags 10] by (simp add: take_bit_eq_self_iff_drop_bit_eq_0)
  then show ?thesis
    unfolding PTE2PA_def PA2PTE_def PGROUNDDOWN_eq
    by (intro bit_word_eqI) (auto simp: bit_simps drop_bit_or bit_eq_iff)
qed

lemma PTE2PA_aligned [simp]: "take_bit 12 (PTE2PA pte) = 0"
  by (rule bit_word_eqI) (auto simp: PTE2PA_def bit_simps)

end
