(* ===== verification/Memory.thy ===== *)
theory Memory
  imports Layout
begin

text \<open>
  Kernel memory as the code sees it: bytes indexed by the virtual address the kernel uses, and
  64-bit little-endian accesses through \<^verbatim>\<open>uint64 *\<close> and \<^verbatim>\<open>pte_t *\<close> pointers. The routine
  \<^verbatim>\<open>memset\<close> of \<^verbatim>\<open>src/src/lib/string.c\<close> is the byte loop of the source.

  The interface that the allocator and the page table code rely on is the locale
  \<open>word_memory\<close>: what a 64-bit load returns after a store and after a page was cleared. It is
  interpreted on the byte memory at the end; its lemmas on null-terminated chains of pages are
  the ones the free list is proved with.
\<close>

section \<open>Definitions\<close>

type_synonym memory = "uint64 \<Rightarrow> uint8"

definition load64 :: "memory \<Rightarrow> uint64 \<Rightarrow> uint64" where
  "load64 m a = foldr (\<lambda>i acc. push_bit (8 * i) (ucast (m (a + of_nat i))) OR acc) [0..<8] 0"

definition store64 :: "memory \<Rightarrow> uint64 \<Rightarrow> uint64 \<Rightarrow> memory" where
  "store64 m a v = (\<lambda>x. if x - a < 8 then ucast (drop_bit (8 * unat (x - a)) v) else m x)"

definition memset_loop :: "memory \<Rightarrow> uint64 \<Rightarrow> uint8 \<Rightarrow> int \<Rightarrow> memory" where
  "memset_loop m dst c sz = fold (\<lambda>i m. m(dst + of_nat i := c)) [0..<nat sz] m"

text \<open>The first byte store of the loop goes through the pointer, so a null pointer traps.\<close>

definition memset :: "memory \<Rightarrow> uint64 \<Rightarrow> uint8 \<Rightarrow> int \<Rightarrow> memory outcome" where
  "memset m dst c sz =
     (if dst = 0 \<and> 0 < sz then Inl Null_deref else Inr (memset_loop m dst c sz))"

definition zero_page :: "memory \<Rightarrow> uint64 \<Rightarrow> memory" where
  "zero_page m p = memset_loop m p 0 4096"

section \<open>The 64-bit view of byte memory\<close>

lemma bit_foldr_bytes:
  fixes f :: "nat \<Rightarrow> uint8"
  shows "bit (foldr (\<lambda>i acc. push_bit (8 * i) (ucast (f i)) OR acc) xs (0 :: uint64)) n \<longleftrightarrow>
    n < 64 \<and> (\<exists>i \<in> set xs. 8 * i \<le> n \<and> bit (f i) (n - 8 * i))"
  by (induction xs) (auto simp: bit_simps dest: bit_imp_le_length)

lemma bit_load64: "bit (load64 m a) n \<longleftrightarrow> n < 64 \<and> bit (m (a + of_nat (n div 8))) (n mod 8)"
proof -
  have "8 * i \<le> n \<and> bit (m (a + of_nat i)) (n - 8 * i) \<longleftrightarrow>
      i = n div 8 \<and> bit (m (a + of_nat i)) (n mod 8)" for i
  proof -
    have "8 * i \<le> n \<Longrightarrow> n - 8 * i < 8 \<Longrightarrow> i = n div 8" by simp
    moreover have "n - 8 * (n div 8) = n mod 8" by (simp add: minus_mult_div_eq_mod)
    ultimately show ?thesis using bit_imp_le_length [of "m (a + of_nat i)" "n - 8 * i"] by auto
  qed
  then show ?thesis unfolding load64_def bit_foldr_bytes by auto
qed

lemma load64_cong: "(\<And>i. i < 8 \<Longrightarrow> m (a + i) = m' (a + i)) \<Longrightarrow> load64 m a = load64 m' a"
proof (rule bit_word_eqI)
  fix n
  assume eq: "\<And>i. i < 8 \<Longrightarrow> m (a + i) = m' (a + i)" and "n < LENGTH(64)"
  then have "(of_nat (n div 8) :: uint64) < 8"
    by (simp add: word_less_nat_alt unat_of_nat)
  with eq show "bit (load64 m a) n = bit (load64 m' a) n"
    by (simp add: bit_load64)
qed

lemma load64_store64_same [simp]: "load64 (store64 m a v) a = v"
proof (rule bit_word_eqI)
  fix n
  assume n: "n < LENGTH(64)"
  then have small: "(of_nat (n div 8) :: uint64) < 8" "unat (of_nat (n div 8) :: uint64) = n div 8"
    by (simp_all add: word_less_nat_alt unat_of_nat)
  then show "bit (load64 (store64 m a v) a) n = bit v n"
    using n by (simp add: bit_load64 store64_def bit_simps)
qed

lemma store64_other: "\<not> x - a < 8 \<Longrightarrow> store64 m a v x = m x"
  by (simp add: store64_def)

lemma aligned8_disjoint:
  fixes a b i :: uint64
  assumes "take_bit 3 a = 0" "take_bit 3 b = 0" "a \<noteq> b" "i < 8"
  shows "\<not> b + i - a < 8"
proof
  assume j: "b + i - a < 8"
  have "b + i = a + (b + i - a)" by simp
  then have "b = a \<and> i = b + i - a"
    by (intro aligned_add_cancel [of 3]) (use assms j in simp_all)
  with assms(3) show False by simp
qed

lemma load64_store64_other [simp]:
  "take_bit 3 a = 0 \<Longrightarrow> take_bit 3 b = 0 \<Longrightarrow> a \<noteq> b \<Longrightarrow> load64 (store64 m a v) b = load64 m b"
  by (rule load64_cong) (simp add: store64_other aligned8_disjoint)

section \<open>Clearing memory\<close>

lemma memset_loop_apply:
  assumes "0 \<le> sz" "sz < 2 ^ 63"
  shows "memset_loop m dst c sz x = (if uint (x - dst) < sz then c else m x)"
proof -
  have "fold (\<lambda>i m. m(dst + of_nat i := c)) [0..<n] m x = (if unat (x - dst) < n then c else m x)"
    if "n < 2 ^ 63" for n
    using that
  proof (induction n)
    case 0
    show ?case by simp
  next
    case (Suc n)
    have "unat (of_nat n :: uint64) = n" using Suc.prems by (simp add: unat_of_nat)
    moreover have "x = dst + of_nat n \<longleftrightarrow> x - dst = of_nat n"
      by (metis add_diff_cancel_left' diff_add_cancel add.commute)
    ultimately have "x = dst + of_nat n \<longleftrightarrow> unat (x - dst) = n"
      by (simp only: word_unat_eq_iff)
    with Suc show ?case by (auto simp: less_Suc_eq)
  qed
  from this [of "nat sz"] assms show ?thesis
    by (auto simp: memset_loop_def zless_nat_eq_int_zless)
qed

lemma zero_page_apply: "zero_page m p x = (if x - p < 4096 then 0 else m x)"
  by (simp add: zero_page_def memset_loop_apply word_less_def)

lemma memset_page: "dst \<noteq> 0 \<Longrightarrow> memset m dst 0 4096 = Inr (zero_page m dst)"
  by (simp add: memset_def zero_page_def)

lemma memset_null: "0 < sz \<Longrightarrow> memset m 0 c sz = Inl Null_deref"
  by (simp add: memset_def)

lemma page_offset_iff:
  fixes a p :: uint64
  assumes "take_bit 12 p = 0"
  shows "a - p < 4096 \<longleftrightarrow> PGROUNDDOWN a = p"
proof
  assume "a - p < 4096"
  then show "PGROUNDDOWN a = p" using PGROUNDDOWN_aligned_add [OF assms, of "a - p"] by simp
next
  assume "PGROUNDDOWN a = p"
  then have "a = p OR take_bit 12 a" using bits_split [of 12 a] by (simp add: PGROUNDDOWN_eq)
  moreover have small: "take_bit 12 a < 2 ^ 12" by (rule take_bit_less_two_power) simp
  ultimately have "a = p + take_bit 12 a"
    using aligned_add_eq_or [OF assms small] by simp
  then have "a - p = take_bit 12 a" by (metis add_diff_cancel_left')
  with small show "a - p < 4096" by simp
qed

lemma PGROUNDDOWN_add_aligned8:
  fixes a i :: uint64
  assumes "take_bit 3 a = 0" "i < 8"
  shows "PGROUNDDOWN (a + i) = PGROUNDDOWN a"
proof -
  have "drop_bit 12 (a + i) = drop_bit 9 (drop_bit 3 (a + i))" by simp
  also have "\<dots> = drop_bit 9 (drop_bit 3 a)"
    using aligned_add_drop_bit [of 3 a i] assms by simp
  finally show ?thesis by (simp add: PGROUNDDOWN_eq)
qed

text \<open>Clearing a range of whole words.\<close>

lemma aligned8_uint: "take_bit 3 (x :: uint64) = 0 \<longleftrightarrow> uint x mod 8 = 0"
proof -
  have "uint (take_bit 3 x) = take_bit 3 (uint x)" by (rule unsigned_take_bit_eq)
  then have "uint (take_bit 3 x) = uint x mod 8" by (simp add: take_bit_eq_mod [of 3 "uint x"])
  then show ?thesis by (metis unsigned_0 unsigned_eq_0_iff)
qed

lemma aligned8_add_uint:
  fixes x i :: uint64
  assumes "take_bit 3 x = 0" "i < 8"
  shows "uint (x + i) = uint x + uint i"
proof -
  have "uint x < 18446744073709551616" using uint_bounded [of x] by simp
  with assms(1) have "uint x + 8 \<le> 18446744073709551616"
    by (intro multiples_apart_int) (simp_all add: aligned8_uint)
  moreover have "uint i < 8" using assms(2) by (simp add: word_less_def)
  ultimately show ?thesis by (simp add: uint_word_ariths)
qed

lemma load64_memset_zero:
  assumes "take_bit 3 dst = 0" "take_bit 3 a = 0" "0 \<le> sz" "sz < 2 ^ 63" "sz mod 8 = 0"
  shows "load64 (memset_loop m dst 0 sz) a = (if uint (a - dst) < sz then 0 else load64 m a)"
proof -
  have al: "take_bit 3 (a - dst) = 0"
    using take_bit_add_aligned [of 3 a "- dst"] assms(1,2) by (simp add: take_bit_eq_0_iff)
  have range: "uint (a + i - dst) < sz \<longleftrightarrow> uint (a - dst) < sz" if "i < 8" for i
  proof -
    have "uint (a + i - dst) = uint (a - dst) + uint i"
      using aligned8_add_uint [OF al that] by (simp add: algebra_simps)
    moreover have "uint i < 8" using that by (simp add: word_less_def)
    moreover have "uint (a - dst) < sz \<Longrightarrow> uint (a - dst) + 8 \<le> sz"
      by (rule multiples_apart_int) (use al assms(5) in \<open>simp_all add: aligned8_uint\<close>)
    moreover have "0 \<le> uint i" by (rule unsigned_greater_eq)
    ultimately show ?thesis by (cases "uint (a - dst) < sz") linarith+
  qed
  show ?thesis
  proof (cases "uint (a - dst) < sz")
    case True
    have "load64 (memset_loop m dst 0 sz) a = load64 (\<lambda>_. 0) a"
      by (rule load64_cong) (use assms(3,4) in \<open>simp add: memset_loop_apply range True\<close>)
    also have "\<dots> = 0" by (rule bit_word_eqI) (simp add: bit_load64)
    finally show ?thesis using True by simp
  next
    case False
    have "load64 (memset_loop m dst 0 sz) a = load64 m a"
      by (rule load64_cong) (use assms(3,4) in \<open>simp add: memset_loop_apply range False\<close>)
    with False show ?thesis by simp
  qed
qed

lemma load64_zero_page:
  assumes "take_bit 12 p = 0" "take_bit 3 a = 0"
  shows "load64 (zero_page m p) a = (if PGROUNDDOWN a = p then 0 else load64 m a)"
proof (cases "PGROUNDDOWN a = p")
  case True
  have "load64 (zero_page m p) a = load64 (\<lambda>_. 0) a"
    by (rule load64_cong)
       (use assms True in \<open>simp add: zero_page_apply page_offset_iff PGROUNDDOWN_add_aligned8\<close>)
  also have "\<dots> = 0" by (rule bit_word_eqI) (simp add: bit_load64)
  finally show ?thesis using True by simp
next
  case False
  have "load64 (zero_page m p) a = load64 m a"
    by (rule load64_cong)
       (use assms False in \<open>simp add: zero_page_apply page_offset_iff PGROUNDDOWN_add_aligned8\<close>)
  with False show ?thesis by simp
qed

section \<open>The interface of word memory\<close>

locale word_memory =
  fixes ld :: "'m \<Rightarrow> uint64 \<Rightarrow> uint64"
    and st :: "'m \<Rightarrow> uint64 \<Rightarrow> uint64 \<Rightarrow> 'm"
    and clr :: "'m \<Rightarrow> uint64 \<Rightarrow> 'm"
  assumes ld_st_same: "ld (st m a v) a = v"
    and ld_st_other:
      "take_bit 3 a = 0 \<Longrightarrow> take_bit 3 b = 0 \<Longrightarrow> a \<noteq> b \<Longrightarrow> ld (st m a v) b = ld m b"
    and ld_clr: "take_bit 12 p = 0 \<Longrightarrow> take_bit 3 b = 0 \<Longrightarrow>
      ld (clr m p) b = (if PGROUNDDOWN b = p then 0 else ld m b)"
begin

text \<open>
  A chain: \<open>p\<close> points to the first element, the word at each element points to the next, the
  last one holds the null pointer.
\<close>

fun chain :: "'m \<Rightarrow> uint64 \<Rightarrow> uint64 list \<Rightarrow> bool" where
  "chain m p [] \<longleftrightarrow> p = 0"
| "chain m p (x # xs) \<longleftrightarrow> p = x \<and> x \<noteq> 0 \<and> chain m (ld m x) xs"

lemma chain_cong:
  "(\<And>x. x \<in> set xs \<Longrightarrow> ld m x = ld m' x) \<Longrightarrow> chain m p xs \<longleftrightarrow> chain m' p xs"
  by (induction xs arbitrary: p) auto

lemma chain_functional: "chain m p xs \<Longrightarrow> chain m p ys \<Longrightarrow> xs = ys"
proof (induction xs arbitrary: p ys)
  case Nil
  then show ?case by (cases ys) auto
next
  case (Cons x xs)
  then show ?case by (cases ys) auto
qed

lemma chain_append_tail: "chain m p (xs @ ys) \<Longrightarrow> \<exists>q. chain m q ys"
  by (induction xs arbitrary: p) auto

lemma chain_distinct: "chain m p xs \<Longrightarrow> distinct xs"
proof (induction xs arbitrary: p)
  case Nil
  then show ?case by simp
next
  case (Cons x xs)
  have "x \<notin> set xs"
  proof
    assume "x \<in> set xs"
    then obtain as bs where xs: "xs = as @ x # bs" by (meson split_list)
    from Cons.prems have here: "chain m x (x # xs)" by simp
    from Cons.prems xs have "chain m (ld m x) (as @ x # bs)" by simp
    then obtain q where "chain m q (x # bs)" using chain_append_tail by blast
    then have "chain m x (x # bs)" by simp
    with here have "xs = bs" using chain_functional by blast
    with xs show False by simp
  qed
  with Cons show ?case by auto
qed

lemma chain_push:
  assumes "chain m p xs" "x \<noteq> 0" "x \<notin> set xs" "take_bit 3 x = 0" "\<forall>y \<in> set xs. take_bit 3 y = 0"
  shows "chain (st m x p) x (x # xs)"
proof -
  have "chain (st m x p) p xs \<longleftrightarrow> chain m p xs"
    by (rule chain_cong) (use assms ld_st_other in metis)
  with assms show ?thesis by (simp add: ld_st_same)
qed

lemma chain_st_outside:
  assumes "take_bit 3 a = 0" "\<forall>y \<in> set xs. take_bit 3 y = 0" "a \<notin> set xs"
  shows "chain (st m a v) p xs \<longleftrightarrow> chain m p xs"
  by (rule chain_cong) (use assms ld_st_other in metis)

lemma chain_clr_outside:
  assumes "take_bit 12 q = 0" "\<forall>y \<in> set xs. take_bit 12 y = 0 \<and> take_bit 3 y = 0" "q \<notin> set xs"
  shows "chain (clr m q) p xs \<longleftrightarrow> chain m p xs"
  by (rule chain_cong) (use assms in \<open>auto simp: ld_clr PGROUNDDOWN_id\<close>)

end

interpretation bm: word_memory load64 store64 zero_page
  by unfold_locales (simp_all add: load64_zero_page)

end
