(* ===== verification/Kmem.thy ===== *)
theory Kmem
  imports Memory Lock
begin

text \<open>
  The physical page allocator of \<^verbatim>\<open>src/src/mem/kmem.c\<close>: a free list threaded through the free
  pages themselves. The linker symbol \<^verbatim>\<open>dynamic\<close> (the first address after the kernel image,
  \<^verbatim>\<open>src/src/helper/linkerscript.c\<close>) is a parameter.

  The invariant \<open>kmem_ok\<close> ties the heap to an abstract list of free pages. The lemmas show that
  every operation keeps it, that a page handed out was free, is cleared and is no longer free,
  that freeing undoes allocating, and that \<open>init_kmem\<close> terminates with exactly the pages of the
  dynamic region in the list. The interface \<open>page_allocator\<close> states what the page table code
  relies on; it is interpreted on \<open>kmalloc\<close>.
\<close>

section \<open>Definitions\<close>

record kmem_state =
  mem :: memory
  kmem_lk :: lock
  freelist :: uint64

definition valid_address :: "uint64 \<Rightarrow> uint64 \<Rightarrow> bool" where
  "valid_address dynamic kpa =
     (if kpa mod PAGE_SIZE \<noteq> 0 then False
      else if kpa < KVA2KPA dynamic \<or> kpa \<ge> PA2KPA DTB_MEMORY_END then False
      else True)"

definition kmalloc :: "kmem_state \<Rightarrow> (uint64 \<times> kmem_state) outcome" where
  "kmalloc s =
     bindE (acquire (kmem_lk s)) (\<lambda>lk.
       let page = freelist s;
           fl = (if page \<noteq> 0 then load64 (mem s) page else freelist s);
           lk' = release lk
       in bindE (memset (mem s) page 0 (uint PAGE_SIZE)) (\<lambda>m.
            Inr (page, s\<lparr>mem := m, kmem_lk := lk', freelist := fl\<rparr>)))"

definition kfree :: "uint64 \<Rightarrow> uint64 \<Rightarrow> kmem_state \<Rightarrow> kmem_state outcome" where
  "kfree dynamic kpa s =
     (if \<not> valid_address dynamic kpa then Inl (Panic ''kfree'')
      else bindE (acquire (kmem_lk s)) (\<lambda>lk.
        Inr (s\<lparr>mem := store64 (mem s) kpa (freelist s), freelist := kpa, kmem_lk := release lk\<rparr>)))"

definition bootstrap_kfree :: "uint64 \<Rightarrow> kmem_state \<Rightarrow> kmem_state" where
  "bootstrap_kfree kpa s = s\<lparr>mem := store64 (mem s) kpa (freelist s), freelist := kpa\<rparr>"

function init_kmem_loop :: "uint64 \<Rightarrow> uint64 \<Rightarrow> kmem_state \<Rightarrow> kmem_state" where
  "init_kmem_loop dynamic kpa s =
     (if valid_address dynamic kpa
      then init_kmem_loop dynamic (kpa + PAGE_SIZE) (bootstrap_kfree kpa s)
      else s)"
  by pat_completeness auto

lemma PA2KPA_end: "PA2KPA DTB_MEMORY_END = 0xffffffe010000000"
  by (simp add: PA2KPA_def layout_defs)

lemma valid_address_iff:
  "valid_address dynamic kpa \<longleftrightarrow>
     take_bit 12 kpa = 0 \<and> KVA2KPA dynamic \<le> kpa \<and> kpa < 0xffffffe010000000"
  unfolding valid_address_def PA2KPA_end by (auto simp: layout_defs take_bit_eq_mod)

lemma valid_address_next:
  assumes "valid_address dynamic kpa"
  shows "unat (kpa + PAGE_SIZE) = unat kpa + 4096"
  using assms by (simp add: valid_address_iff layout_defs unat_word_ariths word_less_nat_alt)

termination init_kmem_loop
proof (relation "measure (\<lambda>(dynamic, kpa, s). 0xffffffe010000000 - unat kpa)")
  fix dynamic kpa s
  assume v: "valid_address dynamic kpa"
  then have "unat kpa < 0xffffffe010000000" by (simp add: valid_address_iff word_less_nat_alt)
  with valid_address_next [OF v]
  show "((dynamic, kpa + PAGE_SIZE, bootstrap_kfree kpa s), dynamic, kpa, s)
      \<in> measure (\<lambda>(dynamic, kpa, s). 0xffffffe010000000 - unat kpa)"
    by simp
qed simp

declare init_kmem_loop.simps [simp del]

definition init_kmem :: "uint64 \<Rightarrow> kmem_state \<Rightarrow> kmem_state" where
  "init_kmem dynamic s = init_kmem_loop dynamic (KVA2KPA (PGROUNDUP dynamic)) s"

section \<open>The invariant\<close>

text \<open>What the linker script guarantees of \<^verbatim>\<open>dynamic\<close>: page aligned, in the kernel's window.\<close>

definition linker_ok :: "uint64 \<Rightarrow> bool" where
  "linker_ok dynamic \<longleftrightarrow> take_bit 12 dynamic = 0 \<and> VAS_KERNEL \<le> dynamic \<and>
     dynamic \<le> VAS_KERNEL + DTB_MEMORY_SIZE"

definition kmem_ok :: "uint64 \<Rightarrow> kmem_state \<Rightarrow> uint64 list \<Rightarrow> bool" where
  "kmem_ok dynamic s free \<longleftrightarrow>
     bm.chain (mem s) (freelist s) free \<and> (\<forall>p \<in> set free. valid_address dynamic p) \<and>
     locked (kmem_lk s) = 0"

lemma take_bit_3_of_12: "take_bit 12 (p :: uint64) = 0 \<Longrightarrow> take_bit 3 p = 0"
proof -
  assume "take_bit 12 p = 0"
  moreover have "take_bit 3 p = take_bit 3 (take_bit 12 p)" by simp
  ultimately show ?thesis by simp
qed

lemma valid_address_aligned:
  "valid_address dynamic p \<Longrightarrow> take_bit 12 p = 0" "valid_address dynamic p \<Longrightarrow> take_bit 3 p = 0"
  by (auto simp: valid_address_iff intro: take_bit_3_of_12)

lemma KVA2KPA_dynamic:
  assumes "linker_ok dynamic"
  shows "VAS_RAM \<le> KVA2KPA dynamic" "take_bit 12 (KVA2KPA dynamic) = 0"
proof -
  define x where "x = dynamic - VAS_KERNEL"
  have "x \<le> DTB_MEMORY_SIZE"
    using assms unat_sub [of VAS_KERNEL dynamic]
    by (auto simp: linker_ok_def x_def layout_defs word_le_nat_alt)
  then have "unat (x + VAS_RAM) = unat x + unat VAS_RAM"
    by (simp add: layout_defs unat_word_ariths word_le_nat_alt)
  then show "VAS_RAM \<le> KVA2KPA dynamic"
    by (simp add: KVA2KPA_def x_def word_le_nat_alt)
  have "take_bit 12 (VAS_RAM - VAS_KERNEL) = 0" "take_bit 12 dynamic = 0"
    using assms by (simp_all add: linker_ok_def layout_defs)
  then have "take_bit 12 (dynamic + (VAS_RAM - VAS_KERNEL)) = 0"
    by (rule take_bit_add_aligned [rotated])
  then show "take_bit 12 (KVA2KPA dynamic) = 0"
    by (simp add: KVA2KPA_def algebra_simps)
qed

lemma valid_address_ram: "linker_ok dynamic \<Longrightarrow> valid_address dynamic p \<Longrightarrow> VAS_RAM \<le> p"
  using KVA2KPA_dynamic(1) [of dynamic] by (auto simp: valid_address_iff)

lemma valid_address_nonzero: "linker_ok dynamic \<Longrightarrow> valid_address dynamic p \<Longrightarrow> p \<noteq> 0"
  using valid_address_ram [of dynamic p] by (auto simp: layout_defs)

lemma kmem_ok_distinct: "kmem_ok dynamic s free \<Longrightarrow> distinct free"
  by (auto simp: kmem_ok_def intro: bm.chain_distinct)

lemma kmem_ok_functional: "kmem_ok dynamic s free \<Longrightarrow> kmem_ok dynamic s free' \<Longrightarrow> free = free'"
  by (auto simp: kmem_ok_def intro: bm.chain_functional)

section \<open>Allocation\<close>

lemma kmalloc_page:
  assumes ok: "kmem_ok dynamic s (p # free)"
  defines "s' \<equiv> s\<lparr>mem := zero_page (mem s) p, freelist := load64 (mem s) p\<rparr>"
  shows "kmalloc s = Inr (p, s')" "kmem_ok dynamic s' free"
proof -
  from ok have fl: "freelist s = p" "p \<noteq> 0" and lk: "locked (kmem_lk s) = 0"
    by (auto simp: kmem_ok_def)
  have "uint PAGE_SIZE = 4096" by (simp add: layout_defs)
  with fl lk show "kmalloc s = Inr (p, s')"
    by (simp add: kmalloc_def memset_page Let_def s'_def)
  have "p \<notin> set free" using kmem_ok_distinct [OF ok] by simp
  with ok show "kmem_ok dynamic s' free"
    using bm.chain_clr_outside [of p free "mem s" "load64 (mem s) p"] valid_address_aligned [of dynamic]
    by (auto simp: kmem_ok_def s'_def)
qed

lemma kmalloc_exhausted: "kmem_ok dynamic s [] \<Longrightarrow> kmalloc s = Inl Null_deref"
  by (simp add: kmem_ok_def kmalloc_def memset_null layout_defs)

lemma kmalloc_cases:
  assumes "kmem_ok dynamic s free" "kmalloc s = Inr (p, s')"
  obtains free' where "free = p # free'" "kmem_ok dynamic s' free'" "mem s' = zero_page (mem s) p"
  using assms kmalloc_page [of dynamic s] kmalloc_exhausted [of dynamic s] by (cases free) auto

section \<open>Freeing\<close>

lemma kfree_page:
  assumes "linker_ok dynamic" "kmem_ok dynamic s free" "valid_address dynamic p" "p \<notin> set free"
  defines "s' \<equiv> s\<lparr>mem := store64 (mem s) p (freelist s), freelist := p\<rparr>"
  shows "kfree dynamic p s = Inr s'" "kmem_ok dynamic s' (p # free)"
proof -
  show "kfree dynamic p s = Inr s'"
    using assms by (simp add: kfree_def kmem_ok_def)
  have "bm.chain (store64 (mem s) p (freelist s)) p (p # free)"
    by (rule bm.chain_push)
       (use assms in \<open>auto simp: kmem_ok_def valid_address_aligned valid_address_nonzero\<close>)
  with assms show "kmem_ok dynamic s' (p # free)"
    by (auto simp: kmem_ok_def)
qed

lemma bootstrap_kfree_eq:
  "locked (kmem_lk s) = 0 \<Longrightarrow> valid_address dynamic p \<Longrightarrow>
     kfree dynamic p s = Inr (bootstrap_kfree p s)"
  by (simp add: kfree_def bootstrap_kfree_def)

section \<open>Boot: the free list of the dynamic region\<close>

lemma init_kmem_loop_ok:
  assumes "linker_ok dynamic" "kmem_ok dynamic s free" "\<forall>p \<in> set free. p < kpa"
    "take_bit 12 kpa = 0" "KVA2KPA dynamic \<le> kpa"
  shows "\<exists>free'. kmem_ok dynamic (init_kmem_loop dynamic kpa s) free' \<and>
           set free' = set free \<union> {p. valid_address dynamic p \<and> kpa \<le> p}"
  using assms
proof (induction dynamic kpa s arbitrary: free rule: init_kmem_loop.induct)
  case (1 dynamic kpa s)
  show ?case
  proof (cases "valid_address dynamic kpa")
    case False
    then have "{p. valid_address dynamic p \<and> kpa \<le> p} = {}"
      using "1.prems" by (auto simp: valid_address_iff)
    with "1.prems" False show ?thesis
      by (auto simp: init_kmem_loop.simps [of dynamic kpa s])
  next
    case True
    define s' where "s' = bootstrap_kfree kpa s"
    have notin: "kpa \<notin> set free" using "1.prems" by auto
    have ok': "kmem_ok dynamic s' (kpa # free)"
      using kfree_page(2) [OF "1.prems"(1,2) True notin] by (simp add: s'_def bootstrap_kfree_def)
    have nxt: "unat (kpa + PAGE_SIZE) = unat kpa + 4096"
      by (rule valid_address_next [OF True])
    have al: "take_bit 12 (kpa + PAGE_SIZE) = 0"
      by (rule take_bit_add_aligned) (use "1.prems" in \<open>simp_all add: layout_defs\<close>)
    have split: "valid_address dynamic p \<and> kpa \<le> p \<longleftrightarrow>
        p = kpa \<or> valid_address dynamic p \<and> kpa + PAGE_SIZE \<le> p" for p
    proof -
      have "valid_address dynamic p \<Longrightarrow> kpa < p \<Longrightarrow> kpa + PAGE_SIZE \<le> p"
        using aligned_less_next [of kpa p] "1.prems"(4) nxt valid_address_aligned(1) [of dynamic p]
        by (simp add: word_le_nat_alt)
      moreover have "kpa + PAGE_SIZE \<le> p \<Longrightarrow> kpa \<le> p"
        using nxt by (simp add: word_le_nat_alt)
      ultimately show ?thesis using True by (auto simp: le_less)
    qed
    have "\<exists>free'. kmem_ok dynamic (init_kmem_loop dynamic (kpa + PAGE_SIZE) s') free' \<and>
        set free' = set (kpa # free) \<union> {p. valid_address dynamic p \<and> kpa + PAGE_SIZE \<le> p}"
      unfolding s'_def
    proof (rule "1.IH" [OF True "1.prems"(1)])
      show "kmem_ok dynamic (bootstrap_kfree kpa s) (kpa # free)" using ok' by (simp add: s'_def)
      show "\<forall>p \<in> set (kpa # free). p < kpa + PAGE_SIZE"
        using "1.prems"(3) nxt by (auto simp: word_less_nat_alt)
      show "take_bit 12 (kpa + PAGE_SIZE) = 0" by (rule al)
      show "KVA2KPA dynamic \<le> kpa + PAGE_SIZE"
        using "1.prems"(5) nxt by (simp add: word_le_nat_alt)
    qed
    then obtain free' where "kmem_ok dynamic (init_kmem_loop dynamic (kpa + PAGE_SIZE) s') free'"
      and "set free' = set (kpa # free) \<union> {p. valid_address dynamic p \<and> kpa + PAGE_SIZE \<le> p}"
      by blast
    then show ?thesis
      using True by (auto simp: init_kmem_loop.simps [of dynamic kpa s] s'_def split)
  qed
qed

lemma init_kmem_ok:
  assumes "linker_ok dynamic" "freelist s = 0" "locked (kmem_lk s) = 0"
  shows "\<exists>free. kmem_ok dynamic (init_kmem dynamic s) free \<and> set free = {p. valid_address dynamic p}"
proof -
  have start: "PGROUNDUP dynamic = dynamic"
    using assms(1) by (simp add: linker_ok_def PGROUNDUP_id)
  have "kmem_ok dynamic s []" using assms by (simp add: kmem_ok_def)
  from init_kmem_loop_ok [OF assms(1) this, of "KVA2KPA dynamic"] KVA2KPA_dynamic [OF assms(1)]
  obtain free where "kmem_ok dynamic (init_kmem_loop dynamic (KVA2KPA dynamic) s) free"
    and "set free = {p. valid_address dynamic p \<and> KVA2KPA dynamic \<le> p}"
    by auto
  then show ?thesis
    unfolding init_kmem_def start by (auto simp: valid_address_iff)
qed

section \<open>The interface of the allocator\<close>

text \<open>
  What clients rely on: \<open>ok s F\<close> says that \<open>F\<close> is the set of free pages of the state. A
  successful call hands out an aligned page of \<open>F\<close>, clears it, changes no word outside it and
  leaves the other pages free. Writing into a page that is not free keeps the set.
\<close>

locale page_allocator =
  fixes alloc :: "'s \<Rightarrow> (uint64 \<times> 's) outcome"
    and word :: "'s \<Rightarrow> uint64 \<Rightarrow> uint64"
    and upd :: "'s \<Rightarrow> uint64 \<Rightarrow> uint64 \<Rightarrow> 's"
    and ok :: "'s \<Rightarrow> uint64 set \<Rightarrow> bool"
  assumes alloc_free: "ok s F \<Longrightarrow> alloc s = Inr (p, s') \<Longrightarrow>
        p \<in> F \<and> p \<noteq> 0 \<and> take_bit 12 p = 0 \<and> ok s' (F - {p})"
    and alloc_word: "ok s F \<Longrightarrow> alloc s = Inr (p, s') \<Longrightarrow> take_bit 3 a = 0 \<Longrightarrow>
        word s' a = (if PGROUNDDOWN a = p then 0 else word s a)"
    and alloc_total: "ok s F \<Longrightarrow> F \<noteq> {} \<Longrightarrow> \<exists>p s'. alloc s = Inr (p, s')"
    and upd_word: "take_bit 3 a = 0 \<Longrightarrow> take_bit 3 b = 0 \<Longrightarrow>
        word (upd s a v) b = (if b = a then v else word s b)"
    and upd_ok: "ok s F \<Longrightarrow> take_bit 3 a = 0 \<Longrightarrow> PGROUNDDOWN a \<notin> F \<Longrightarrow> ok (upd s a v) F"
    and ok_finite: "ok s F \<Longrightarrow> finite F"
begin

text \<open>Repeated allocation: \<open>n\<close> pages, in the order in which they are handed out.\<close>

fun alloc_many :: "nat \<Rightarrow> 's \<Rightarrow> (uint64 list \<times> 's) outcome" where
  "alloc_many 0 s = Inr ([], s)"
| "alloc_many (Suc n) s =
     bindE (alloc s) (\<lambda>(p, s'). bindE (alloc_many n s') (\<lambda>(ps, s''). Inr (p # ps, s'')))"

lemma alloc_many_distinct:
  "ok s F \<Longrightarrow> alloc_many n s = Inr (ps, s') \<Longrightarrow>
     distinct ps \<and> set ps \<subseteq> F \<and> length ps = n \<and> ok s' (F - set ps)"
proof (induction n arbitrary: s F ps)
  case 0
  then show ?case by simp
next
  case (Suc n)
  from Suc.prems(2) obtain p s1 qs where p: "alloc s = Inr (p, s1)"
    and qs: "alloc_many n s1 = Inr (qs, s')" and ps: "ps = p # qs"
    by (auto split: prod.splits)
  from alloc_free [OF Suc.prems(1) p] have "p \<in> F" and ok1: "ok s1 (F - {p})" by auto
  with Suc.IH [OF ok1 qs] ps show ?case by (auto simp: Diff_insert2 [symmetric])
qed

lemma alloc_many_total: "ok s F \<Longrightarrow> n \<le> card F \<Longrightarrow> \<exists>ps s'. alloc_many n s = Inr (ps, s')"
proof (induction n arbitrary: s F)
  case 0
  then show ?case by simp
next
  case (Suc n)
  then have "F \<noteq> {}" by auto
  with Suc.prems obtain p s1 where p: "alloc s = Inr (p, s1)" using alloc_total by blast
  from alloc_free [OF Suc.prems(1) p] have "p \<in> F" and ok1: "ok s1 (F - {p})" by auto
  moreover have "n \<le> card (F - {p})"
    using Suc.prems \<open>p \<in> F\<close> ok_finite by (simp add: card_Diff_singleton)
  ultimately obtain ps s' where "alloc_many n s1 = Inr (ps, s')" using Suc.IH by blast
  with p show ?case by simp
qed

end

definition free_set :: "uint64 \<Rightarrow> kmem_state \<Rightarrow> uint64 set \<Rightarrow> bool" where
  "free_set dynamic s F \<longleftrightarrow> (\<exists>free. kmem_ok dynamic s free \<and> set free = F)"

definition store_word :: "kmem_state \<Rightarrow> uint64 \<Rightarrow> uint64 \<Rightarrow> kmem_state" where
  "store_word s a v = s\<lparr>mem := store64 (mem s) a v\<rparr>"

interpretation ka: page_allocator kmalloc "\<lambda>s. load64 (mem s)" store_word "free_set dynamic"
  for dynamic
proof unfold_locales
  fix s F p s' a
  assume F: "free_set dynamic s F" and p: "kmalloc s = Inr (p, s')"
  then obtain free where ok: "kmem_ok dynamic s free" "set free = F" by (auto simp: free_set_def)
  from kmalloc_cases [OF ok(1) p] obtain free' where
    f: "free = p # free'" "kmem_ok dynamic s' free'" "mem s' = zero_page (mem s) p" .
  with ok kmem_ok_distinct [OF ok(1)]
  show "p \<in> F \<and> p \<noteq> 0 \<and> take_bit 12 p = 0 \<and> free_set dynamic s' (F - {p})"
    by (auto simp: free_set_def kmem_ok_def valid_address_aligned)
  then show "take_bit 3 a = 0 \<Longrightarrow> load64 (mem s') a = (if PGROUNDDOWN a = p then 0 else load64 (mem s) a)"
    using f by (simp add: bm.ld_clr)
next
  fix s F
  assume "free_set dynamic s F" "F \<noteq> {}"
  then obtain p free where "kmem_ok dynamic s (p # free)"
    by (metis free_set_def list.exhaust list.set(1))
  then show "\<exists>p s'. kmalloc s = Inr (p, s')" using kmalloc_page(1) by blast
next
  fix a b v :: uint64 and s
  assume "take_bit 3 a = 0" "take_bit 3 b = 0"
  then show "load64 (mem (store_word s a v)) b = (if b = a then v else load64 (mem s) b)"
    by (simp add: store_word_def)
next
  fix s F v and a :: uint64
  assume F: "free_set dynamic s F" and a: "take_bit 3 a = 0" "PGROUNDDOWN a \<notin> F"
  then obtain free where ok: "kmem_ok dynamic s free" "set free = F" by (auto simp: free_set_def)
  have al: "take_bit 3 y = 0 \<and> PGROUNDDOWN y = y" if "y \<in> set free" for y
    using ok that by (auto simp: kmem_ok_def valid_address_aligned PGROUNDDOWN_id)
  then have "a \<notin> set free" using a ok by auto
  with al ok a have "kmem_ok dynamic (store_word s a v) free"
    by (simp add: kmem_ok_def store_word_def bm.chain_st_outside)
  with ok show "free_set dynamic (store_word s a v) F" by (auto simp: free_set_def)
next
  fix s F
  assume "free_set dynamic s F"
  then show "finite F" by (auto simp: free_set_def)
qed

end
