(* ===== verification/Bits.thy ===== *)
theory Bits
  imports Prelude
begin

text \<open>
  The bit helpers of \<^verbatim>\<open>src/src/lib/bits.c\<close>. \<open>get_value\<close> extracts a bit field by building its
  mask in a loop; \<open>count_set_bits\<close> walks a one-bit mask of type \<^verbatim>\<open>int\<close> through a 64-bit number.
  The lemmas relate both loops to the word operations \<open>take_bit\<close> and \<open>drop_bit\<close> and to the
  number of set bits; the sign extension of the mask \<^verbatim>\<open>1 << 31\<close> is part of the model, so the
  characterisation of \<open>count_set_bits\<close> shows what happens from bit 31 on.
\<close>

section \<open>Definitions\<close>

text \<open>
  The mask \<^verbatim>\<open>i\<close> is a signed 32-bit integer, so \<^verbatim>\<open>num & i\<close> sign extends it to 64 bits; the loop
  ends when the shift has pushed the bit out.
\<close>

function count_set_bits_loop :: "uint64 \<Rightarrow> 32 word \<Rightarrow> int \<Rightarrow> int" where
  "count_set_bits_loop num i count =
     (if i = 0 then count
      else count_set_bits_loop num (push_bit 1 i)
             (if num AND scast i \<noteq> 0 then count + 1 else count))"
  by pat_completeness auto

lemma push_bit_nonzero_shrinks:
  assumes "(i :: 32 word) \<noteq> 0"
  shows "card {k. k < 32 \<and> push_bit k (push_bit 1 i) \<noteq> 0} < card {k. k < 32 \<and> push_bit k i \<noteq> 0}"
proof -
  let ?A = "{k. k < 32 \<and> push_bit k (push_bit 1 i) \<noteq> 0}"
  let ?B = "{k. k < 32 \<and> push_bit k i \<noteq> 0}"
  have "Suc ` ?A \<subseteq> ?B - {0}"
  proof
    fix n
    assume "n \<in> Suc ` ?A"
    then obtain k where "n = Suc k" "push_bit (Suc k) i \<noteq> 0"
      by auto
    moreover have "n < 32"
    proof (rule ccontr)
      assume "\<not> n < 32"
      then have "push_bit n i = 0"
        by (intro bit_word_eqI) (auto simp: bit_simps)
      with calculation show False by simp
    qed
    ultimately show "n \<in> ?B - {0}" by auto
  qed
  then have "card (Suc ` ?A) \<le> card (?B - {0})"
    by (intro card_mono) auto
  moreover have "card (Suc ` ?A) = card ?A"
    by (rule card_image) simp
  moreover have "0 \<in> ?B" using assms by simp
  then have "card (?B - {0}) < card ?B"
    by (intro card_Diff1_less) auto
  ultimately show ?thesis by simp
qed

termination count_set_bits_loop
  by (relation "measure (\<lambda>(num, i, count). card {k. k < 32 \<and> push_bit k i \<noteq> 0})")
     (use push_bit_nonzero_shrinks in \<open>auto simp: push_bit_eq_mult mult.commute\<close>)

declare count_set_bits_loop.simps [simp del]

definition count_set_bits :: "uint64 \<Rightarrow> int" where
  "count_set_bits num = count_set_bits_loop num 1 0"

definition get_value_mask :: "int \<Rightarrow> uint64" where
  "get_value_mask bits = fold (\<lambda>_ mask. push_bit 1 mask OR 1) [0..<nat bits] 0"

definition get_value :: "uint64 \<Rightarrow> int \<Rightarrow> int \<Rightarrow> uint64" where
  "get_value val offset bits =
     (if offset < 0 \<or> 63 < offset then - 1
      else if bits < 0 \<or> 63 < bits then - 1
      else drop_bit (nat offset) val AND get_value_mask bits)"

section \<open>Bit fields\<close>

lemma get_value_mask_eq: "get_value_mask bits = mask (nat bits)"
proof -
  have "fold (\<lambda>_ m. push_bit 1 m OR 1) [0..<n] (0 :: uint64) = mask n" for n
    by (induction n) (simp_all add: mask_Suc_double or.commute push_bit_eq_mult mult.commute)
  then show ?thesis by (simp add: get_value_mask_def)
qed

lemma get_value_eq:
  "0 \<le> offset \<Longrightarrow> offset \<le> 63 \<Longrightarrow> 0 \<le> bits \<Longrightarrow> bits \<le> 63 \<Longrightarrow>
     get_value val offset bits = take_bit (nat bits) (drop_bit (nat offset) val)"
  by (simp add: get_value_def get_value_mask_eq take_bit_eq_mask)

lemma bit_get_value:
  "0 \<le> offset \<Longrightarrow> offset \<le> 63 \<Longrightarrow> 0 \<le> bits \<Longrightarrow> bits \<le> 63 \<Longrightarrow>
     bit (get_value val offset bits) n \<longleftrightarrow> n < nat bits \<and> bit val (nat offset + n)"
  by (auto simp: get_value_eq bit_simps)

section \<open>Counting bits\<close>

text \<open>The reference: the number of set bits of a word.\<close>

definition popcount :: "uint64 \<Rightarrow> nat" where
  "popcount w = card {k. k < 64 \<and> bit w k}"

lemma scast_one_bit: "k < 31 \<Longrightarrow> (scast (2 ^ k :: 32 word) :: uint64) = 2 ^ k"
  by (rule bit_word_eqI) (auto simp: bit_simps simp flip: push_bit_of_1)

lemma bit_scast_sign_bit:
  assumes "31 \<le> n" "n < 32"
  shows "bit (scast (2 ^ n :: 32 word) :: uint64) k \<longleftrightarrow> n \<le> k \<and> k < 64"
  using assms by (auto simp: bit_simps simp flip: push_bit_of_1)

lemma and_bit_nonzero: "num AND 2 ^ k \<noteq> 0 \<longleftrightarrow> bit num k" for num :: uint64
  by (simp add: and_exp_eq_0_iff_not_bit)

lemma and_sign_bit_nonzero:
  fixes num :: uint64
  assumes "31 \<le> n" "n < 32"
  shows "num AND scast (2 ^ n :: 32 word) \<noteq> 0 \<longleftrightarrow> drop_bit n num \<noteq> 0"
proof -
  have "num AND scast (2 ^ n :: 32 word) \<noteq> 0 \<longleftrightarrow> (\<exists>k. n \<le> k \<and> bit num k)"
    using bit_imp_le_length [of num] by (auto simp: bit_eq_iff bit_and_iff bit_scast_sign_bit [OF assms])
  also have "\<dots> \<longleftrightarrow> (\<exists>j. bit (drop_bit n num) j)"
    by (auto simp: bit_drop_bit_eq le_iff_add)
  also have "\<dots> \<longleftrightarrow> drop_bit n num \<noteq> 0"
    by (metis bit_eqI bit_0_eq bot_apply bot_bool_def)
  finally show ?thesis .
qed

text \<open>The loop from bit \<open>k\<close> on: one step per bit below 31, then the sign extended mask.\<close>

lemma count_set_bits_loop_eq:
  assumes "k \<le> 31"
  shows "count_set_bits_loop num (2 ^ k) c =
           c + int (card {j. k \<le> j \<and> j < 31 \<and> bit num j}) + of_bool (drop_bit 31 num \<noteq> 0)"
  using assms
proof (induction "31 - k" arbitrary: k c)
  case 0
  then have k: "k = 31" by simp
  have "num AND scast (2 ^ 31 :: 32 word) \<noteq> 0 \<longleftrightarrow> drop_bit 31 num \<noteq> 0"
    by (rule and_sign_bit_nonzero) simp_all
  then show ?case
    by (simp add: k count_set_bits_loop.simps [of num "0x80000000"] count_set_bits_loop.simps [of num 4294967296])
next
  case (Suc n)
  then have k: "k < 31" by simp
  have step: "push_bit 1 (2 ^ k :: 32 word) = 2 ^ Suc k"
    by (simp add: push_bit_eq_mult)
  have nz: "(2 ^ k :: 32 word) \<noteq> 0"
    using k by simp
  have set: "{j. k \<le> j \<and> j < 31 \<and> bit num j} =
      (if bit num k then insert k {j. Suc k \<le> j \<and> j < 31 \<and> bit num j}
       else {j. Suc k \<le> j \<and> j < 31 \<and> bit num j})"
    using k by (auto simp: Suc_le_eq le_less)
  have ih: "count_set_bits_loop num (2 ^ k * 2) c' =
      c' + int (card {j. Suc k \<le> j \<and> j < 31 \<and> bit num j}) + of_bool (drop_bit 31 num \<noteq> 0)" for c'
    using Suc.hyps(1) [of "Suc k" c'] Suc.hyps(2) k by (simp add: mult.commute)
  show ?case
    using nz k
    by (simp add: count_set_bits_loop.simps [of num "2 ^ k"] step scast_one_bit
        and_bit_nonzero set ih del: push_bit_of_Suc_0 push_bit_of_1)
qed

lemma count_set_bits_eq:
  "count_set_bits num = int (card {j. j < 31 \<and> bit num j}) + of_bool (drop_bit 31 num \<noteq> 0)"
  using count_set_bits_loop_eq [of 0 num 0] by (simp add: count_set_bits_def)

lemma count_set_bits_popcount:
  assumes "num < 2 ^ 32"
  shows "count_set_bits num = int (popcount num)"
proof -
  have low: "bit num k \<Longrightarrow> k < 32" for k
    using assms by (rule bit_less_two_powerD)
  have "drop_bit 31 num \<noteq> 0 \<longleftrightarrow> bit num 31"
  proof
    assume "drop_bit 31 num \<noteq> 0"
    then obtain j where "bit (drop_bit 31 num) j"
      by (metis bit_eqI bit_0_eq bot_apply bot_bool_def)
    then have "bit num (31 + j)" by (simp add: bit_drop_bit_eq)
    moreover from this low have "31 + j < 32" by blast
    ultimately show "bit num 31" by simp
  next
    assume "bit num 31"
    then have "bit (drop_bit 31 num) 0" by (simp add: bit_drop_bit_eq)
    then show "drop_bit 31 num \<noteq> 0" by auto
  qed
  moreover have "{k. k < 64 \<and> bit num k} =
      (if bit num 31 then insert 31 {j. j < 31 \<and> bit num j} else {j. j < 31 \<and> bit num j})"
    using low by (auto simp: less_Suc_eq numeral_eq_Suc)
  ultimately show ?thesis by (simp add: count_set_bits_eq popcount_def)
qed

end
