(* ===== verification/Vmem.thy ===== *)
theory Vmem
  imports Kmem Bits
begin

text \<open>
  The page tables of \<^verbatim>\<open>src/src/mem/vmem.c\<close>: three-level Sv39 tables, and Sv39x4 tables whose root
  has four times as many entries (\<open>x4\<close>). \<open>walk\<close> descends, allocating missing tables on
  request; \<open>map_page\<close> and \<open>map_pages\<close> install leaves; \<open>convert_va_to_pa\<close> translates.

  The abstract view of a table is the partial map \<open>translation\<close> from addresses to valid leaf
  entries. The invariant \<open>pt_tree\<close> says that the tables form a tree with disjoint entries, by
  means of a ghost map from table pages to their path of indices.
\<close>

section \<open>Definitions\<close>

definition va2idx :: "uint64 \<Rightarrow> nat \<Rightarrow> bool \<Rightarrow> uint64" where
  "va2idx va level x4 =
     (if level = LEVELS - 1 \<and> x4
      then get_value va (int (level * 9 + PAGE_SHIFT)) 11
      else get_value va (int (level * 9 + PAGE_SHIFT)) 9)"

text \<open>\<^verbatim>\<open>&kpa[idx]\<close>: the address of an entry of the table at \<open>kpa\<close>.\<close>

definition entry_addr :: "uint64 \<Rightarrow> uint64 \<Rightarrow> uint64" where
  "entry_addr kpa idx = kpa + PTE_SIZE * idx"

fun walk_loop :: "nat \<Rightarrow> uint64 \<Rightarrow> uint64 \<Rightarrow> bool \<Rightarrow> bool \<Rightarrow> kmem_state \<Rightarrow> (uint64 \<times> kmem_state) outcome"
  where
  "walk_loop 0 kpa va alloc x4 s = Inr (entry_addr kpa (va2idx va 0 x4), s)"
| "walk_loop (Suc l) kpa va alloc x4 s =
     (let pte = entry_addr kpa (va2idx va (Suc l) x4) in
      if load64 (mem s) pte AND PTE_V \<noteq> 0
      then walk_loop l (PA2KPA (PTE2PA (load64 (mem s) pte))) va alloc x4 s
      else if \<not> alloc then Inr (0, s)
      else bindE (kmalloc s) (\<lambda>(kpa', s1).
             if kpa' = 0 then Inr (0, s1)
             else bindE (memset (mem s1) kpa' 0 (uint PAGE_SIZE)) (\<lambda>m.
               walk_loop l kpa' va alloc x4
                 (store_word (s1\<lparr>mem := m\<rparr>) pte (PA2PTE (KPA2PA kpa') OR PTE_V)))))"

definition walk :: "uint64 \<Rightarrow> uint64 \<Rightarrow> bool \<Rightarrow> bool \<Rightarrow> kmem_state \<Rightarrow> (uint64 \<times> kmem_state) outcome"
  where
  "walk pgtable va alloc x4 s =
     (if pgtable = 0 then Inl (Panic ''root page table doesn't exist'')
      else walk_loop (LEVELS - 1) pgtable va alloc x4 s)"

definition map_page ::
  "uint64 \<Rightarrow> uint64 \<Rightarrow> uint64 \<Rightarrow> int \<Rightarrow> bool \<Rightarrow> kmem_state \<Rightarrow> (int \<times> kmem_state) outcome" where
  "map_page pgtable va pa pte_flags x4 s =
     bindE (walk pgtable va True x4 s) (\<lambda>(leaf, s').
       if leaf = 0 then Inr (- 1, s')
       else if load64 (mem s') leaf AND PTE_V \<noteq> 0 then Inl (Panic ''tried to remap page'')
       else Inr (0, store_word s' leaf (PA2PTE pa OR u64_of_int pte_flags OR PTE_V)))"

function map_pages_loop ::
  "uint64 \<Rightarrow> uint64 \<Rightarrow> uint64 \<Rightarrow> uint64 \<Rightarrow> int \<Rightarrow> bool \<Rightarrow> uint64 \<Rightarrow> kmem_state \<Rightarrow>
     (int \<times> kmem_state) outcome" where
  "map_pages_loop pgtable va pa sz pte_flags x4 i s =
     (if i < PGROUNDUP sz then
        bindE (if pa = 0 then bindE (kmalloc s) (\<lambda>(kpa, s'). Inr (KPA2PA kpa, s'))
               else Inr (pa + i, s)) (\<lambda>(tmp, s1).
        bindE (map_page pgtable (va + i) tmp pte_flags x4 s1) (\<lambda>(rv, s2).
          if rv < 0 then Inr (- 1, s2)
          else map_pages_loop pgtable va pa sz pte_flags x4 (i + PAGE_SIZE) s2))
      else Inr (0, s))"
  by pat_completeness auto

lemma PGROUNDUP_step:
  assumes "i < PGROUNDUP sz"
  shows "unat (i + PAGE_SIZE) = unat i + 4096"
proof -
  have "unat (PGROUNDUP sz) mod 4096 = 0" "unat (PGROUNDUP sz) < 18446744073709551616"
    using unat_less_length [of "PGROUNDUP sz"] by (simp_all add: flip: aligned_unat_mod)
  then have "unat (PGROUNDUP sz) \<le> 18446744073709547520"
    using multiples_apart [of "unat (PGROUNDUP sz)" 4096 18446744073709551616] by simp
  with assms show ?thesis by (simp add: layout_defs unat_word_ariths word_less_nat_alt)
qed

termination map_pages_loop
proof (relation "measure (\<lambda>(pgtable, va, pa, sz, fl, x4, i, s). unat (PGROUNDUP sz) - unat i)", goal_cases)
  case (2 pgtable va pa sz fl x4 i s)
  then show ?case by (auto simp: PGROUNDUP_step word_less_nat_alt)
qed simp

declare map_pages_loop.simps [simp del]

definition map_pages ::
  "uint64 \<Rightarrow> uint64 \<Rightarrow> uint64 \<Rightarrow> uint64 \<Rightarrow> int \<Rightarrow> bool \<Rightarrow> kmem_state \<Rightarrow> (int \<times> kmem_state) outcome"
  where
  "map_pages pgtable va pa sz pte_flags x4 s =
     map_pages_loop pgtable va pa sz pte_flags x4 0 s"

definition convert_va_to_pa :: "uint64 \<Rightarrow> uint64 \<Rightarrow> bool \<Rightarrow> kmem_state \<Rightarrow> uint64 outcome" where
  "convert_va_to_pa pgtable va x4 s =
     bindE (walk pgtable va False x4 s) (\<lambda>(pte, s').
       if pte = 0 then Inl (Panic ''bad walk for va'')
       else let page_pa = PTE2PA (load64 (mem s') pte);
                pa = page_pa OR get_value va 0 12
            in Inr pa)"

section \<open>The abstract view\<close>

type_synonym words = "uint64 \<Rightarrow> uint64"

definition valid_pte :: "pte_t \<Rightarrow> bool" where
  "valid_pte e \<longleftrightarrow> e AND PTE_V \<noteq> 0"

definition next_table :: "pte_t \<Rightarrow> uint64" where
  "next_table e = PA2KPA (PTE2PA e)"

text \<open>The leaf entry an address reaches from the table \<open>kpa\<close> at a level, if all tables exist.\<close>

fun leaf_slot :: "words \<Rightarrow> bool \<Rightarrow> nat \<Rightarrow> uint64 \<Rightarrow> uint64 \<Rightarrow> uint64 option" where
  "leaf_slot ld x4 0 kpa va = Some (entry_addr kpa (va2idx va 0 x4))"
| "leaf_slot ld x4 (Suc l) kpa va =
     (let e = ld (entry_addr kpa (va2idx va (Suc l) x4)) in
      if valid_pte e then leaf_slot ld x4 l (next_table e) va else None)"

definition translation :: "words \<Rightarrow> bool \<Rightarrow> nat \<Rightarrow> uint64 \<Rightarrow> uint64 \<Rightarrow> pte_t option" where
  "translation ld x4 l kpa va =
     (case leaf_slot ld x4 l kpa va of
        None \<Rightarrow> None
      | Some a \<Rightarrow> if valid_pte (ld a) then Some (ld a) else None)"

text \<open>Two addresses lie in the same page when they have the same index at every level.\<close>

definition same_page :: "bool \<Rightarrow> uint64 \<Rightarrow> uint64 \<Rightarrow> bool" where
  "same_page x4 va va' \<longleftrightarrow> (\<forall>l \<in> {0, 1, 2}. va2idx va l x4 = va2idx va' l x4)"

definition entries :: "bool \<Rightarrow> uint64 list \<Rightarrow> uint64" where
  "entries x4 path = (if path = [] \<and> x4 then 2048 else 512)"

text \<open>
  The tree of tables. \<open>own\<close> gives each table page the path of indices that leads to it; the
  root has the empty path. Entries lie outside the free pages, distinct tables have distinct
  entries, and a valid entry above the leaves points to the table one index further down.
\<close>

definition pt_tree :: "words \<Rightarrow> bool \<Rightarrow> uint64 \<Rightarrow> (uint64 \<rightharpoonup> uint64 list) \<Rightarrow> uint64 set \<Rightarrow> bool" where
  "pt_tree ld x4 root own F \<longleftrightarrow>
     root \<noteq> 0 \<and> own root = Some [] \<and>
     (\<forall>p path. own p = Some path \<longrightarrow> p \<noteq> 0 \<and> length path \<le> 2) \<and>
     (\<forall>p path i. own p = Some path \<longrightarrow> i < entries x4 path \<longrightarrow>
        take_bit 3 (entry_addr p i) = 0 \<and> PGROUNDDOWN (entry_addr p i) \<notin> F \<and> entry_addr p i \<noteq> 0) \<and>
     (\<forall>p q path path' i j. own p = Some path \<longrightarrow> own q = Some path' \<longrightarrow>
        i < entries x4 path \<longrightarrow> j < entries x4 path' \<longrightarrow>
        entry_addr p i = entry_addr q j \<longrightarrow> p = q \<and> i = j) \<and>
     (\<forall>p path i. own p = Some path \<longrightarrow> length path < 2 \<longrightarrow> i < entries x4 path \<longrightarrow>
        valid_pte (ld (entry_addr p i)) \<longrightarrow> own (next_table (ld (entry_addr p i))) = Some (path @ [i]))"

lemma va2idx_eq:
  assumes "level \<le> 2"
  shows "va2idx va level x4 =
    take_bit (if level = 2 \<and> x4 then 11 else 9) (drop_bit (level * 9 + 12) va)"
  using assms by (simp add: va2idx_def layout_defs get_value_eq nat_add_distrib nat_mult_distrib)

lemma va2idx_bound:
  assumes "length path + level = 2"
  shows "va2idx va level x4 < entries x4 path"
proof -
  have "take_bit n (drop_bit (level * 9 + 12) va) < 2 ^ n" if "n \<in> {9, 11}" for n
    using that by (intro take_bit_less_two_power) auto
  from this [of 9] this [of 11] show ?thesis
    using assms by (auto simp: va2idx_eq entries_def)
qed

lemma VA2IDX_va2idx: "level \<le> 2 \<Longrightarrow> va2idx va level False = VA2IDX level va"
proof -
  assume "level \<le> 2"
  moreover have "(0x1ff :: uint64) = mask 9" by (simp add: mask_eq_exp_minus_1)
  ultimately show ?thesis
    by (simp only: va2idx_eq VA2IDX_def) (simp add: layout_defs take_bit_eq_mask)
qed

lemma pt_treeD:
  assumes "pt_tree ld x4 root own F"
  shows pt_tree_root: "root \<noteq> 0" "own root = Some []"
    and pt_tree_table: "own p = Some path \<Longrightarrow> p \<noteq> 0" "own p = Some path \<Longrightarrow> length path \<le> 2"
    and pt_tree_entry: "own p = Some path \<Longrightarrow> i < entries x4 path \<Longrightarrow> take_bit 3 (entry_addr p i) = 0"
      "own p = Some path \<Longrightarrow> i < entries x4 path \<Longrightarrow> PGROUNDDOWN (entry_addr p i) \<notin> F"
      "own p = Some path \<Longrightarrow> i < entries x4 path \<Longrightarrow> entry_addr p i \<noteq> 0"
    and pt_tree_inj: "own p = Some path \<Longrightarrow> own q = Some path' \<Longrightarrow> i < entries x4 path \<Longrightarrow>
      j < entries x4 path' \<Longrightarrow> entry_addr p i = entry_addr q j \<Longrightarrow> p = q \<and> i = j"
    and pt_tree_next: "own p = Some path \<Longrightarrow> length path < 2 \<Longrightarrow> i < entries x4 path \<Longrightarrow>
      valid_pte (ld (entry_addr p i)) \<Longrightarrow> own (next_table (ld (entry_addr p i))) = Some (path @ [i])"
  using assms unfolding pt_tree_def by blast+

section \<open>Reading the tree\<close>

text \<open>The indices an address selects from a level down to the leaf tables.\<close>

fun vpath :: "bool \<Rightarrow> nat \<Rightarrow> uint64 \<Rightarrow> uint64 list" where
  "vpath x4 0 va = []"
| "vpath x4 (Suc l) va = va2idx va (Suc l) x4 # vpath x4 l va"

lemma leaf_slot_own:
  assumes "pt_tree ld x4 root own F" "own p = Some path" "length path + l = 2"
    "leaf_slot ld x4 l p va = Some a"
  shows "\<exists>q. own q = Some (path @ vpath x4 l va) \<and> a = entry_addr q (va2idx va 0 x4)"
  using assms(2-)
proof (induction l arbitrary: p path)
  case 0
  then show ?case by auto
next
  case (Suc l)
  let ?e = "ld (entry_addr p (va2idx va (Suc l) x4))"
  from Suc.prems(3) have v: "valid_pte ?e" and ls: "leaf_slot ld x4 l (next_table ?e) va = Some a"
    by (auto simp: Let_def split: if_splits)
  have "own (next_table ?e) = Some (path @ [va2idx va (Suc l) x4])"
    by (rule pt_tree_next [OF assms(1) Suc.prems(1) _ _ v])
       (use Suc.prems in \<open>auto intro!: va2idx_bound\<close>)
  from Suc.IH [OF this _ ls] Suc.prems(2) show ?case by simp
qed

lemma leaf_slot_same_page:
  assumes t: "pt_tree ld x4 root own F"
    and "leaf_slot ld x4 2 root va = Some a" "leaf_slot ld x4 2 root va' = Some a"
  shows "same_page x4 va va'"
proof -
  have path: "vpath x4 2 w = [va2idx w 2 x4, va2idx w 1 x4]" for w
    by (simp add: numeral_2_eq_2)
  obtain q where q: "own q = Some (vpath x4 2 va)" "a = entry_addr q (va2idx va 0 x4)"
    using leaf_slot_own [OF t pt_tree_root(2) [OF t] _ assms(2)] by auto
  obtain q' where q': "own q' = Some (vpath x4 2 va')" "a = entry_addr q' (va2idx va' 0 x4)"
    using leaf_slot_own [OF t pt_tree_root(2) [OF t] _ assms(3)] by auto
  have "q = q' \<and> va2idx va 0 x4 = va2idx va' 0 x4"
    by (rule pt_tree_inj [OF t q(1) q'(1)])
       (use q q' in \<open>auto simp: path intro!: va2idx_bound\<close>)
  with q q' show ?thesis by (auto simp: same_page_def path)
qed

lemma leaf_slot_same_pageD: "same_page x4 va va' \<Longrightarrow> leaf_slot ld x4 2 p va = leaf_slot ld x4 2 p va'"
  by (simp add: same_page_def numeral_2_eq_2 Let_def)

text \<open>Descending only depends on the entries above the leaves.\<close>

lemma leaf_slot_cong:
  assumes "pt_tree ld x4 root own F" "own p = Some path" "length path + l = 2"
    and eq: "\<And>q path i. own q = Some path \<Longrightarrow> length path < 2 \<Longrightarrow> i < entries x4 path \<Longrightarrow>
      ld' (entry_addr q i) = ld (entry_addr q i)"
  shows "leaf_slot ld' x4 l p va = leaf_slot ld x4 l p va"
  using assms(2,3)
proof (induction l arbitrary: p path)
  case 0
  then show ?case by simp
next
  case (Suc l)
  let ?a = "entry_addr p (va2idx va (Suc l) x4)"
  have b: "va2idx va (Suc l) x4 < entries x4 path" "length path < 2"
    using Suc.prems by (auto intro!: va2idx_bound)
  then have "ld' ?a = ld ?a" using eq Suc.prems by blast
  moreover have "valid_pte (ld ?a) \<Longrightarrow>
      leaf_slot ld' x4 l (next_table (ld ?a)) va = leaf_slot ld x4 l (next_table (ld ?a)) va"
    using Suc.IH [OF pt_tree_next [OF assms(1) Suc.prems(1) b(2,1)]] Suc.prems by simp
  ultimately show ?case by (simp add: Let_def)
qed

lemma pt_tree_cong:
  assumes "pt_tree ld x4 root own F"
    and "\<And>q path i. own q = Some path \<Longrightarrow> length path < 2 \<Longrightarrow> i < entries x4 path \<Longrightarrow>
      ld' (entry_addr q i) = ld (entry_addr q i)"
  shows "pt_tree ld' x4 root own F"
  using assms(1) unfolding pt_tree_def
  by (elim conjE, intro conjI allI impI) (simp_all add: assms(2))

section \<open>Writing a leaf\<close>

text \<open>
  Storing into an entry of a leaf table keeps the tree and changes the translation of the
  addresses of one page only.
\<close>

lemma leaf_store:
  assumes t: "pt_tree ld x4 root own F" and slot: "leaf_slot ld x4 2 root va = Some a"
    and ld': "\<And>b. take_bit 3 b = 0 \<Longrightarrow> ld' b = (if b = a then v else ld b)"
  shows leaf_store_tree: "pt_tree ld' x4 root own F"
    and leaf_store_slot: "leaf_slot ld' x4 2 root va' = leaf_slot ld x4 2 root va'"
    and leaf_store_translation: "valid_pte v \<Longrightarrow> translation ld' x4 2 root va' =
      (if same_page x4 va va' then Some v else translation ld x4 2 root va')"
proof -
  obtain q where q: "own q = Some (vpath x4 2 va)" "a = entry_addr q (va2idx va 0 x4)"
    using leaf_slot_own [OF t pt_tree_root(2) [OF t] _ slot] by auto
  have path: "vpath x4 2 va = [va2idx va 2 x4, va2idx va 1 x4]" by (simp add: numeral_2_eq_2)
  have bound: "va2idx va 0 x4 < entries x4 (vpath x4 2 va)"
    by (rule va2idx_bound) (simp add: path)
  have upper: "ld' (entry_addr p i) = ld (entry_addr p i)"
    if p: "own p = Some path" "length path < 2" "i < entries x4 path" for p path i
  proof -
    have "entry_addr p i \<noteq> a"
      using pt_tree_inj [OF t p(1) q(1) p(3) bound] p q path by auto
    then show ?thesis using ld' pt_tree_entry(1) [OF t p(1,3)] by simp
  qed
  show "pt_tree ld' x4 root own F" by (rule pt_tree_cong [OF t upper])
  show slots: "leaf_slot ld' x4 2 root va' = leaf_slot ld x4 2 root va'" for va'
    by (rule leaf_slot_cong [OF t pt_tree_root(2) [OF t] _ upper]) simp_all
  assume v: "valid_pte v"
  show "translation ld' x4 2 root va' =
      (if same_page x4 va va' then Some v else translation ld x4 2 root va')"
  proof (cases "leaf_slot ld x4 2 root va'")
    case None
    then have "\<not> same_page x4 va va'" using leaf_slot_same_pageD slot by force
    with None show ?thesis by (simp add: translation_def slots)
  next
    case (Some b)
    obtain q' where q': "own q' = Some (vpath x4 2 va')" "b = entry_addr q' (va2idx va' 0 x4)"
      using leaf_slot_own [OF t pt_tree_root(2) [OF t] _ Some] by auto
    have "take_bit 3 b = 0"
      unfolding q'(2) by (rule pt_tree_entry(1) [OF t q'(1)])
        (auto simp: numeral_2_eq_2 intro!: va2idx_bound)
    moreover have "b = a \<longleftrightarrow> same_page x4 va va'"
      using leaf_slot_same_page [OF t slot] leaf_slot_same_pageD [of x4 va va'] Some slot by auto
    ultimately show ?thesis using Some v by (simp add: translation_def slots ld')
  qed
qed

section \<open>Growing the tree\<close>

text \<open>
  What descending with allocation may do to memory: new tables come from the free pages, valid
  entries stay, no translation changes, and no word outside the tables and the free pages is
  written.
\<close>

definition pt_grow ::
  "bool \<Rightarrow> words \<Rightarrow> (uint64 \<rightharpoonup> uint64 list) \<Rightarrow> uint64 set \<Rightarrow>
     words \<Rightarrow> (uint64 \<rightharpoonup> uint64 list) \<Rightarrow> uint64 set \<Rightarrow> bool" where
  "pt_grow x4 ld own F ld' own' F' \<longleftrightarrow>
     own \<subseteq>\<^sub>m own' \<and> F' \<subseteq> F \<and>
     (\<forall>p path. own' p = Some path \<longrightarrow>
        own p = Some path \<or> p \<in> F \<and> take_bit 12 p = 0 \<and> path \<noteq> []) \<and>
     (\<forall>p path i. own p = Some path \<longrightarrow> i < entries x4 path \<longrightarrow> valid_pte (ld (entry_addr p i)) \<longrightarrow>
        ld' (entry_addr p i) = ld (entry_addr p i)) \<and>
     (\<forall>p path l va. own p = Some path \<longrightarrow> length path + l = 2 \<longrightarrow>
        translation ld' x4 l p va = translation ld x4 l p va) \<and>
     (\<forall>b. take_bit 3 b = 0 \<longrightarrow> PGROUNDDOWN b \<notin> F \<longrightarrow>
        (\<forall>p path i. own p = Some path \<longrightarrow> i < entries x4 path \<longrightarrow> b \<noteq> entry_addr p i) \<longrightarrow> ld' b = ld b)"

lemma pt_grow_refl: "pt_grow x4 ld own F ld own F"
  by (auto simp: pt_grow_def)

lemma pt_growD:
  assumes "pt_grow x4 ld own F ld' own' F'"
  shows pt_grow_own: "own p = Some path \<Longrightarrow> own' p = Some path"
    and pt_grow_new: "own' p = Some path \<Longrightarrow>
      own p = Some path \<or> p \<in> F \<and> take_bit 12 p = 0 \<and> path \<noteq> []"
    and pt_grow_free: "F' \<subseteq> F"
    and pt_grow_valid: "own p = Some path \<Longrightarrow> i < entries x4 path \<Longrightarrow>
      valid_pte (ld (entry_addr p i)) \<Longrightarrow> ld' (entry_addr p i) = ld (entry_addr p i)"
    and pt_grow_translation: "own p = Some path \<Longrightarrow> length path + l = 2 \<Longrightarrow>
      translation ld' x4 l p va = translation ld x4 l p va"
    and pt_grow_frame: "take_bit 3 b = 0 \<Longrightarrow> PGROUNDDOWN b \<notin> F \<Longrightarrow>
      (\<And>p path i. own p = Some path \<Longrightarrow> i < entries x4 path \<Longrightarrow> b \<noteq> entry_addr p i) \<Longrightarrow> ld' b = ld b"
  using assms unfolding pt_grow_def by (auto simp: map_le_def dom_def)

lemma entry_page:
  assumes "take_bit 12 p = 0" "i < 512"
  shows "PGROUNDDOWN (entry_addr p i) = p" "take_bit 3 (entry_addr p i) = 0"
proof -
  have "unat i < 512" using assms(2) by (simp add: word_less_nat_alt)
  then have "8 * i < 4096" by (simp add: word_less_nat_alt unat_word_ariths)
  then show "PGROUNDDOWN (entry_addr p i) = p"
    using PGROUNDDOWN_aligned_add [OF assms(1)] by (simp add: entry_addr_def layout_defs)
  have "take_bit 3 (8 * i) = 0"
    by (simp add: take_bit_eq_0_iff)
  then show "take_bit 3 (entry_addr p i) = 0"
    using take_bit_add_aligned [OF take_bit_3_of_12 [OF assms(1)]]
    by (simp add: entry_addr_def layout_defs)
qed

lemma pt_grow_trans:
  assumes g1: "pt_grow x4 ld own F ld1 own1 F1" and g2: "pt_grow x4 ld1 own1 F1 ld2 own2 F2"
  shows "pt_grow x4 ld own F ld2 own2 F2"
  unfolding pt_grow_def
proof (intro conjI allI impI)
  show "own \<subseteq>\<^sub>m own2"
    using pt_grow_own [OF g1] pt_grow_own [OF g2] by (auto simp: map_le_def dom_def)
  show "F2 \<subseteq> F" using pt_grow_free [OF g1] pt_grow_free [OF g2] by blast
next
  fix p path assume "own2 p = Some path"
  then show "own p = Some path \<or> p \<in> F \<and> take_bit 12 p = 0 \<and> path \<noteq> []"
    using pt_grow_new [OF g2] pt_grow_new [OF g1] pt_grow_free [OF g1] by blast
next
  fix p path i
  assume a: "own p = Some path" "i < entries x4 path" "valid_pte (ld (entry_addr p i))"
  then have "ld1 (entry_addr p i) = ld (entry_addr p i)" by (rule pt_grow_valid [OF g1])
  with a show "ld2 (entry_addr p i) = ld (entry_addr p i)"
    using pt_grow_valid [OF g2 pt_grow_own [OF g1 a(1)] a(2)] by simp
next
  fix p path l va
  assume "own p = Some path" "length path + l = 2"
  then show "translation ld2 x4 l p va = translation ld x4 l p va"
    using pt_grow_translation [OF g1] pt_grow_translation [OF g2] pt_grow_own [OF g1] by metis
next
  fix b
  assume b: "take_bit 3 b = 0" "PGROUNDDOWN b \<notin> F"
    and out: "\<forall>p path i. own p = Some path \<longrightarrow> i < entries x4 path \<longrightarrow> b \<noteq> entry_addr p i"
  have "ld1 b = ld b" using pt_grow_frame [OF g1 b] out by blast
  moreover have "b \<noteq> entry_addr p i" if "own1 p = Some path" "i < entries x4 path" for p path i
    using pt_grow_new [OF g1 that(1)] out that b(2) entry_page(1) [of p i]
    by (auto simp: entries_def)
  then have "ld2 b = ld1 b"
    using pt_grow_frame [OF g2 b(1)] pt_grow_free [OF g1] b(2) by blast
  ultimately show "ld2 b = ld b" by simp
qed

text \<open>One new table: a cleared page linked into an invalid entry above the leaves.\<close>

lemma translation_empty_table:
  fixes path :: "uint64 list"
  assumes "take_bit 12 q = 0" "length path + l = 2" "path \<noteq> []"
    and "\<And>b. take_bit 3 b = 0 \<Longrightarrow> PGROUNDDOWN b = q \<Longrightarrow> ld b = 0"
  shows "translation ld x4 l q va = None"
proof -
  have "va2idx va l x4 < 512"
    using va2idx_bound [OF assms(2), of va x4] assms(3) by (simp add: entries_def)
  then have "ld (entry_addr q (va2idx va l x4)) = 0"
    using entry_page [OF assms(1)] assms(4) by blast
  then show ?thesis by (cases l) (simp_all add: translation_def valid_pte_def)
qed

definition pt_link ::
  "bool \<Rightarrow> words \<Rightarrow> (uint64 \<rightharpoonup> uint64 list) \<Rightarrow> uint64 set \<Rightarrow>
     uint64 \<Rightarrow> uint64 list \<Rightarrow> uint64 \<Rightarrow> uint64 \<Rightarrow> pte_t \<Rightarrow> words \<Rightarrow> bool" where
  "pt_link x4 ld own F p path i q e ld' \<longleftrightarrow>
     own p = Some path \<and> length path < 2 \<and> i < entries x4 path \<and>
     \<not> valid_pte (ld (entry_addr p i)) \<and>
     q \<in> F \<and> take_bit 12 q = 0 \<and> q \<noteq> 0 \<and> valid_pte e \<and> next_table e = q \<and>
     (\<forall>b. take_bit 3 b = 0 \<longrightarrow>
       ld' b = (if b = entry_addr p i then e else if PGROUNDDOWN b = q then 0 else ld b))"

lemma entries_pos [simp]: "0 < entries x4 path"
  by (simp add: entries_def)

lemma pt_link_fresh:
  assumes t: "pt_tree ld x4 root own F" and l: "pt_link x4 ld own F p path i q e ld'"
  shows "own q = None"
proof (rule ccontr)
  assume "own q \<noteq> None"
  then obtain path' where "own q = Some path'" by auto
  from pt_tree_entry(2) [OF t this entries_pos] entry_page(1) [of q 0] l
  show False by (simp add: pt_link_def)
qed

lemma pt_link_old:
  assumes t: "pt_tree ld x4 root own F" and l: "pt_link x4 ld own F p path i q e ld'"
    and r: "own r = Some path'" "j < entries x4 path'"
  shows "ld' (entry_addr r j) = (if r = p \<and> j = i then e else ld (entry_addr r j))"
proof -
  have "entry_addr r j = entry_addr p i \<longleftrightarrow> r = p \<and> j = i"
    using pt_tree_inj [OF t r(1) _ r(2), of p path i] l by (auto simp: pt_link_def)
  moreover have "PGROUNDDOWN (entry_addr r j) \<noteq> q"
    using pt_tree_entry(2) [OF t r] l by (auto simp: pt_link_def)
  ultimately show ?thesis
    using l pt_tree_entry(1) [OF t r] by (simp add: pt_link_def)
qed

lemma pt_link_empty:
  assumes t: "pt_tree ld x4 root own F" and l: "pt_link x4 ld own F p path i q e ld'"
    and b: "take_bit 3 b = 0" "PGROUNDDOWN b = q"
  shows "ld' b = 0"
proof -
  have "PGROUNDDOWN (entry_addr p i) \<noteq> q"
    using pt_tree_entry(2) [OF t, of p path i] l by (auto simp: pt_link_def)
  with b l show ?thesis by (auto simp: pt_link_def)
qed

lemma pt_link_entry:
  assumes "pt_link x4 ld own F p path i q e ld'" "j < entries x4 (path @ [i])"
  shows "PGROUNDDOWN (entry_addr q j) = q" "take_bit 3 (entry_addr q j) = 0"
    "entry_addr q j \<noteq> 0"
proof -
  have "take_bit 12 q = 0" "j < 512" "q \<noteq> 0" using assms by (auto simp: pt_link_def entries_def)
  with entry_page show "PGROUNDDOWN (entry_addr q j) = q" "take_bit 3 (entry_addr q j) = 0"
    by blast+
  with \<open>q \<noteq> 0\<close> show "entry_addr q j \<noteq> 0" by (auto simp: PGROUNDDOWN_eq)
qed

lemma pt_link_entry_inj:
  assumes "pt_link x4 ld own F p path i q e ld'" "entry_addr q j = entry_addr q k"
    "j < entries x4 (path @ [i])" "k < entries x4 (path @ [i])"
  shows "j = k"
proof -
  have "8 * j = 8 * k" using assms(2) by (simp add: entry_addr_def layout_defs)
  moreover have "unat j < 512" "unat k < 512" using assms by (simp_all add: entries_def word_less_nat_alt)
  ultimately show ?thesis by (simp add: word_unat_eq_iff unat_word_ariths)
qed

lemma pt_link_tree:
  assumes t: "pt_tree ld x4 root own F" and l: "pt_link x4 ld own F p path i q e ld'"
  shows "pt_tree ld' x4 root (own(q \<mapsto> path @ [i])) (F - {q})"
proof -
  note fresh = pt_link_fresh [OF t l] and old = pt_link_old [OF t l]
  let ?own = "own(q \<mapsto> path @ [i])"
  have q: "q \<in> F" "q \<noteq> 0" "length path < 2" "next_table e = q"
    using l by (auto simp: pt_link_def)
  have disj: "entry_addr r j \<noteq> entry_addr q k"
    if "own r = Some path'" "j < entries x4 path'" "k < entries x4 (path @ [i])" for r path' j k
    using pt_tree_entry(2) [OF t that(1,2)] pt_link_entry(1) [OF l that(3)] q(1) by auto
  have cases: "?own r = Some path' \<Longrightarrow> r = q \<and> path' = path @ [i] \<or> r \<noteq> q \<and> own r = Some path'"
    for r path' by (auto split: if_splits)
  show ?thesis
    unfolding pt_tree_def
  proof (intro conjI allI impI)
    show "root \<noteq> 0" "?own root = Some []"
      using pt_tree_root [OF t] fresh by auto
  next
    fix r path' assume "?own r = Some path'"
    then show "r \<noteq> 0" "length path' \<le> 2"
      using cases pt_tree_table [OF t] q by fastforce+
  next
    fix r path' j assume "?own r = Some path'" "j < entries x4 path'"
    then show "take_bit 3 (entry_addr r j) = 0" "PGROUNDDOWN (entry_addr r j) \<notin> F - {q}"
      "entry_addr r j \<noteq> 0"
      using cases pt_tree_entry [OF t] pt_link_entry [OF l] by blast+
  next
    fix r r' path' path'' j k
    assume "?own r = Some path'" "?own r' = Some path''" "j < entries x4 path'"
      "k < entries x4 path''" "entry_addr r j = entry_addr r' k"
    then show "r = r'" "j = k"
      using cases [of r] cases [of r'] disj pt_tree_inj [OF t] pt_link_entry_inj [OF l] by metis+
  next
    fix r path' j
    assume r: "?own r = Some path'" "length path' < 2" "j < entries x4 path'"
      "valid_pte (ld' (entry_addr r j))"
    show "?own (next_table (ld' (entry_addr r j))) = Some (path' @ [j])"
    proof (cases "r = q")
      case True
      then have "ld' (entry_addr r j) = 0"
        using r cases pt_link_entry [OF l] pt_link_empty [OF t l] by auto
      with r(4) show ?thesis by (simp add: valid_pte_def)
    next
      case False
      then have own: "own r = Some path'" using r(1) by simp
      show ?thesis
        using old [OF own r(3)] pt_tree_next [OF t own r(2,3)] r(4) q(4) fresh own l
        by (auto simp: pt_link_def split: if_splits)
    qed
  qed
qed

lemma pt_link_translation:
  assumes t: "pt_tree ld x4 root own F" and l: "pt_link x4 ld own F p path i q e ld'"
    and "own r = Some path'" "length path' + n = 2"
  shows "translation ld' x4 n r va = translation ld x4 n r va"
  using assms(3,4)
proof (induction n arbitrary: r path')
  case 0
  then have "r \<noteq> p" using l by (auto simp: pt_link_def)
  moreover have "va2idx va 0 x4 < entries x4 path'" by (rule va2idx_bound) (use 0 in simp)
  ultimately show ?case
    using pt_link_old [OF t l "0.prems"(1)] by (simp add: translation_def)
next
  case (Suc n)
  let ?a = "entry_addr r (va2idx va (Suc n) x4)"
  have b: "va2idx va (Suc n) x4 < entries x4 path'" by (rule va2idx_bound) (use Suc in simp)
  have step: "translation w x4 (Suc n) r va =
      (if valid_pte (w ?a) then translation w x4 n (next_table (w ?a)) va else None)" for w
    by (simp add: translation_def Let_def)
  show ?case
  proof (cases "r = p \<and> va2idx va (Suc n) x4 = i")
    case True
    have "length (path @ [i]) + n = 2" using True Suc.prems l by (auto simp: pt_link_def)
    then have "translation ld' x4 n q va = None"
      by (rule translation_empty_table [rotated]) (use l pt_link_empty [OF t l] in \<open>auto simp: pt_link_def\<close>)
    with True pt_link_old [OF t l Suc.prems(1) b] l show ?thesis
      unfolding step by (auto simp: pt_link_def)
  next
    case False
    then have eq: "ld' ?a = ld ?a" using pt_link_old [OF t l Suc.prems(1) b] by auto
    have "valid_pte (ld ?a) \<Longrightarrow>
        translation ld' x4 n (next_table (ld ?a)) va = translation ld x4 n (next_table (ld ?a)) va"
      using Suc.IH [OF pt_tree_next [OF t Suc.prems(1) _ b]] Suc.prems by simp
    with eq show ?thesis by (simp add: step)
  qed
qed

lemma pt_link_grow:
  assumes t: "pt_tree ld x4 root own F" and l: "pt_link x4 ld own F p path i q e ld'"
  shows "pt_grow x4 ld own F ld' (own(q \<mapsto> path @ [i])) (F - {q})"
  unfolding pt_grow_def
proof (intro conjI allI impI)
  show "own \<subseteq>\<^sub>m own(q \<mapsto> path @ [i])"
    using pt_link_fresh [OF t l] by (auto simp: map_le_def)
  show "F - {q} \<subseteq> F" by blast
next
  fix r path' assume "(own(q \<mapsto> path @ [i])) r = Some path'"
  then show "own r = Some path' \<or> r \<in> F \<and> take_bit 12 r = 0 \<and> path' \<noteq> []"
    using l by (auto simp: pt_link_def split: if_splits)
next
  fix r path' j
  assume "own r = Some path'" "j < entries x4 path'" "valid_pte (ld (entry_addr r j))"
  then show "ld' (entry_addr r j) = ld (entry_addr r j)"
    using pt_link_old [OF t l] l by (auto simp: pt_link_def)
next
  fix r path' n va
  assume "own r = Some path'" "length path' + n = 2"
  then show "translation ld' x4 n r va = translation ld x4 n r va"
    by (rule pt_link_translation [OF t l])
next
  fix b
  assume "take_bit 3 b = 0" "PGROUNDDOWN b \<notin> F"
    "\<forall>r path' j. own r = Some path' \<longrightarrow> j < entries x4 path' \<longrightarrow> b \<noteq> entry_addr r j"
  then show "ld' b = ld b" using l by (auto simp: pt_link_def)
qed

section \<open>walk\<close>

text \<open>A page table of the state: the tree over its memory, with the free pages of the allocator.\<close>

definition pt_state ::
  "uint64 \<Rightarrow> bool \<Rightarrow> uint64 \<Rightarrow> kmem_state \<Rightarrow> (uint64 \<rightharpoonup> uint64 list) \<Rightarrow> uint64 set \<Rightarrow> bool" where
  "pt_state dynamic x4 root s own F \<longleftrightarrow>
     linker_ok dynamic \<and> free_set dynamic s F \<and> pt_tree (load64 (mem s)) x4 root own F"

lemma free_set_ram: "linker_ok dynamic \<Longrightarrow> free_set dynamic s F \<Longrightarrow> p \<in> F \<Longrightarrow>
    VAS_RAM \<le> p \<and> take_bit 12 p = 0"
  by (auto simp: free_set_def kmem_ok_def intro: valid_address_ram valid_address_aligned(1))

lemma KPA2PA_aligned: "take_bit 12 p = 0 \<Longrightarrow> take_bit 12 (KPA2PA p) = 0"
proof -
  assume "take_bit 12 p = 0"
  then have "take_bit 12 (p AND NOT VAS_RAM) = 0" by (simp add: take_bit_and)
  then show ?thesis
    unfolding KPA2PA_def by (rule take_bit_add_aligned) (simp add: layout_defs)
qed

lemma next_table_link:
  assumes "VAS_RAM \<le> q" "take_bit 12 q = 0"
  shows "next_table (PA2PTE (KPA2PA q) OR PTE_V) = q" "valid_pte (PA2PTE pa OR f OR PTE_V)"
    "valid_pte (PA2PTE pa OR PTE_V)"
proof -
  have "PTE2PA (PA2PTE (KPA2PA q) OR PTE_V) = KPA2PA q"
    using PTE2PA_PA2PTE [of PTE_V "KPA2PA q"] KPA2PA_aligned [OF assms(2)]
    by (simp add: PGROUNDDOWN_id layout_defs)
  then show "next_table (PA2PTE (KPA2PA q) OR PTE_V) = q"
    using assms by (simp add: next_table_def PA2KPA_KPA2PA)
  show "valid_pte (PA2PTE pa OR f OR PTE_V)" "valid_pte (PA2PTE pa OR PTE_V)"
    by (auto simp: valid_pte_def layout_defs bit_simps bit_eq_iff intro!: exI [of _ 0])
qed

text \<open>Clearing a page that was just allocated changes nothing.\<close>

lemma memset_fresh_page:
  assumes "free_set dynamic s F" "kmalloc s = Inr (q, s1)"
    and "memset (mem s1) q 0 (uint PAGE_SIZE) = Inr m"
  shows "m = mem s1"
proof -
  obtain free where "kmem_ok dynamic s free" using assms(1) by (auto simp: free_set_def)
  from kmalloc_cases [OF this assms(2)] have "mem s1 = zero_page (mem s) q" by metis
  moreover have "q \<noteq> 0" using ka.alloc_free [OF assms(1,2)] by simp
  then have "m = zero_page (mem s1) q"
    using assms(3) memset_page by (simp add: layout_defs)
  ultimately show ?thesis by (auto simp: zero_page_apply)
qed

text \<open>The new table of a failing level: allocation, clearing and linking give a \<open>pt_link\<close>.\<close>

lemma walk_new_table:
  assumes st: "pt_state dynamic x4 root s own F"
    and p: "own p = Some path" "length path < 2" "i < entries x4 path"
    and inv: "load64 (mem s) (entry_addr p i) AND PTE_V = 0"
    and q: "kmalloc s = Inr (q, s1)" "memset (mem s1) q 0 (uint PAGE_SIZE) = Inr m"
  defines "s2 \<equiv> store_word (s1\<lparr>mem := m\<rparr>) (entry_addr p i) (PA2PTE (KPA2PA q) OR PTE_V)"
  shows "pt_state dynamic x4 root s2 (own(q \<mapsto> path @ [i])) (F - {q})"
    and "pt_grow x4 (load64 (mem s)) own F (load64 (mem s2)) (own(q \<mapsto> path @ [i])) (F - {q})"
    and "next_table (load64 (mem s2) (entry_addr p i)) = q"
    and "valid_pte (load64 (mem s2) (entry_addr p i))"
proof -
  let ?e = "PA2PTE (KPA2PA q) OR PTE_V" and ?a = "entry_addr p i"
  have lk: "linker_ok dynamic" and F: "free_set dynamic s F"
    and t: "pt_tree (load64 (mem s)) x4 root own F" using st by (auto simp: pt_state_def)
  note alloc = ka.alloc_free [OF F q(1)]
  have ram: "VAS_RAM \<le> q" "take_bit 12 q = 0" using free_set_ram [OF lk F] alloc by auto
  have m: "m = mem s1" by (rule memset_fresh_page [OF F q])
  have a3: "take_bit 3 ?a = 0" by (rule pt_tree_entry(1) [OF t p(1,3)])
  have words: "load64 (mem s2) b = (if b = ?a then ?e else if PGROUNDDOWN b = q then 0 else load64 (mem s) b)"
    if "take_bit 3 b = 0" for b
    using ka.upd_word [OF a3 that] ka.alloc_word [OF F q(1) that] by (simp add: s2_def m)
  have l: "pt_link x4 (load64 (mem s)) own F p path i q ?e (load64 (mem s2))"
    using p inv alloc ram next_table_link [OF ram] words by (simp add: pt_link_def valid_pte_def)
  have "PGROUNDDOWN ?a \<notin> F - {q}" using pt_tree_entry(2) [OF t p(1,3)] by blast
  then have "free_set dynamic s2 (F - {q})"
    using ka.upd_ok [OF _ a3] alloc by (simp add: s2_def m)
  with lk pt_link_tree [OF t l] show "pt_state dynamic x4 root s2 (own(q \<mapsto> path @ [i])) (F - {q})"
    by (simp add: pt_state_def)
  show "pt_grow x4 (load64 (mem s)) own F (load64 (mem s2)) (own(q \<mapsto> path @ [i])) (F - {q})"
    by (rule pt_link_grow [OF t l])
  show "next_table (load64 (mem s2) ?a) = q" "valid_pte (load64 (mem s2) ?a)"
    using words [OF a3] next_table_link [OF ram] by simp_all
qed

lemma walk_loop_alloc:
  assumes "pt_state dynamic x4 root s own F" "own p = Some path" "length path + l = 2"
    "walk_loop l p va True x4 s = Inr (a, s')"
  shows "\<exists>own' F'. pt_state dynamic x4 root s' own' F' \<and>
           pt_grow x4 (load64 (mem s)) own F (load64 (mem s')) own' F' \<and>
           leaf_slot (load64 (mem s')) x4 l p va = Some a"
  using assms
proof (induction l arbitrary: p path s own F)
  case 0
  then have "s' = s" "leaf_slot (load64 (mem s')) x4 0 p va = Some a" by auto
  with "0.prems"(1) pt_grow_refl show ?case by blast
next
  case (Suc l)
  define i where "i = va2idx va (Suc l) x4"
  let ?a = "entry_addr p i"
  have len: "length path < 2" and b: "i < entries x4 path"
    using Suc.prems(3) by (auto simp: i_def intro!: va2idx_bound)
  note own = Suc.prems(2)
  have finish: "\<exists>own' F'. pt_state dynamic x4 root s' own' F' \<and>
      pt_grow x4 (load64 (mem s)) own F (load64 (mem s')) own' F' \<and>
      leaf_slot (load64 (mem s')) x4 (Suc l) p va = Some a"
    if st1: "pt_state dynamic x4 root s1 own1 F1"
      and g: "pt_grow x4 (load64 (mem s)) own F (load64 (mem s1)) own1 F1"
      and v: "valid_pte (load64 (mem s1) ?a)"
      and own1: "own1 (next_table (load64 (mem s1) ?a)) = Some (path @ [i])"
      and w: "walk_loop l (next_table (load64 (mem s1) ?a)) va True x4 s1 = Inr (a, s')"
    for s1 own1 F1
  proof -
    obtain own' F' where IH: "pt_state dynamic x4 root s' own' F'"
      "pt_grow x4 (load64 (mem s1)) own1 F1 (load64 (mem s')) own' F'"
      "leaf_slot (load64 (mem s')) x4 l (next_table (load64 (mem s1) ?a)) va = Some a"
      using Suc.IH [OF st1 own1 _ w] Suc.prems(3) by auto
    have "load64 (mem s') ?a = load64 (mem s1) ?a"
      by (rule pt_grow_valid [OF IH(2) pt_grow_own [OF g own] b v])
    with IH v pt_grow_trans [OF g IH(2)] show ?thesis by (auto simp: i_def Let_def)
  qed
  show ?case
  proof (cases "load64 (mem s) ?a AND PTE_V = 0")
    case False
    then have v: "valid_pte (load64 (mem s) ?a)" by (simp add: valid_pte_def)
    have "pt_tree (load64 (mem s)) x4 root own F" using Suc.prems(1) by (simp add: pt_state_def)
    from finish [OF Suc.prems(1) pt_grow_refl v pt_tree_next [OF this own len b v]] Suc.prems(4) False
    show ?thesis by (simp add: i_def Let_def next_table_def)
  next
    case True
    with Suc.prems(4) obtain q s1 m where q: "kmalloc s = Inr (q, s1)"
      "memset (mem s1) q 0 (uint PAGE_SIZE) = Inr m"
      and w: "walk_loop l q va True x4
        (store_word (s1\<lparr>mem := m\<rparr>) ?a (PA2PTE (KPA2PA q) OR PTE_V)) = Inr (a, s')"
      using ka.alloc_free [of dynamic s F] Suc.prems(1)
      by (fastforce simp: i_def Let_def pt_state_def split: if_splits)
    note new = walk_new_table [OF Suc.prems(1) own len b True q]
    from finish [OF new(1,2,4)] w new(3) show ?thesis by simp
  qed
qed

text \<open>Without allocation \<open>walk\<close> only reads.\<close>

lemma walk_loop_lookup:
  "walk_loop l p va False x4 s =
     Inr (case leaf_slot (load64 (mem s)) x4 l p va of None \<Rightarrow> 0 | Some a \<Rightarrow> a, s)"
  by (induction l arbitrary: p) (auto simp: Let_def valid_pte_def next_table_def)

text \<open>Where all tables exist, \<open>walk\<close> with allocation is the same lookup.\<close>

lemma walk_loop_existing:
  "leaf_slot (load64 (mem s)) x4 l p va = Some a \<Longrightarrow> walk_loop l p va True x4 s = Inr (a, s)"
  by (induction l arbitrary: p) (auto simp: Let_def valid_pte_def next_table_def split: if_splits)

text \<open>With enough free pages \<open>walk\<close> succeeds: at most one new table per level.\<close>

lemma walk_loop_total:
  assumes "pt_state dynamic x4 root s own F" "own p = Some path" "length path + l = 2" "l \<le> card F"
  shows "\<exists>a s'. walk_loop l p va True x4 s = Inr (a, s')"
  using assms
proof (induction l arbitrary: p path s own F)
  case 0
  then show ?case by simp
next
  case (Suc l)
  define i where "i = va2idx va (Suc l) x4"
  let ?a = "entry_addr p i"
  have len: "length path < 2" and b: "i < entries x4 path"
    using Suc.prems(3) by (auto simp: i_def intro!: va2idx_bound)
  have F: "free_set dynamic s F" and t: "pt_tree (load64 (mem s)) x4 root own F"
    using Suc.prems(1) by (auto simp: pt_state_def)
  show ?case
  proof (cases "load64 (mem s) ?a AND PTE_V = 0")
    case False
    then have "own (next_table (load64 (mem s) ?a)) = Some (path @ [i])"
      by (intro pt_tree_next [OF t Suc.prems(2) len b]) (simp add: valid_pte_def)
    from Suc.IH [OF Suc.prems(1) this] Suc.prems(3,4) False show ?thesis
      by (auto simp: i_def Let_def next_table_def)
  next
    case True
    have "F \<noteq> {}" using Suc.prems(4) by auto
    then obtain q s1 where q: "kmalloc s = Inr (q, s1)" using ka.alloc_total [OF F] by blast
    note alloc = ka.alloc_free [OF F q]
    then obtain m where m: "memset (mem s1) q 0 (uint PAGE_SIZE) = Inr m"
      using memset_page [of q] by (simp add: layout_defs)
    note new = walk_new_table [OF Suc.prems(1,2) len b True q m]
    have "l \<le> card (F - {q})" using Suc.prems(4) alloc ka.ok_finite [OF F] by simp
    from Suc.IH [OF new(1) _ _ this, of q] Suc.prems(3) q m True alloc show ?thesis
      by (auto simp: i_def Let_def)
  qed
qed

section \<open>map_page\<close>

lemma pt_state_root:
  assumes "pt_state dynamic x4 root s own F"
  shows "pt_tree (load64 (mem s)) x4 root own F" "root \<noteq> 0" "own root = Some []"
  using assms pt_tree_root [of "load64 (mem s)" x4 root own F] by (auto simp: pt_state_def)

lemma leaf_slot_addr:
  assumes t: "pt_tree ld x4 root own F" and slot: "leaf_slot ld x4 2 root va = Some a"
  shows "a \<noteq> 0" "take_bit 3 a = 0" "PGROUNDDOWN a \<notin> F"
    "\<exists>q path i. own q = Some path \<and> i < entries x4 path \<and> a = entry_addr q i"
proof -
  obtain q where q: "own q = Some (vpath x4 2 va)" "a = entry_addr q (va2idx va 0 x4)"
    using leaf_slot_own [OF t pt_tree_root(2) [OF t] _ slot] by auto
  have b: "va2idx va 0 x4 < entries x4 (vpath x4 2 va)"
    by (rule va2idx_bound) (simp add: numeral_2_eq_2)
  show "a \<noteq> 0" "take_bit 3 a = 0" "PGROUNDDOWN a \<notin> F"
    unfolding q(2) using pt_tree_entry [OF t q(1) b] by auto
  show "\<exists>q path i. own q = Some path \<and> i < entries x4 path \<and> a = entry_addr q i"
    using q b by blast
qed

text \<open>
  The effect of installing one leaf, as clients use it: the tree is kept, new tables come from
  the free pages, exactly the addresses of one page change their translation, and no word
  outside the tables and the free pages is written.
\<close>

definition pt_mapped ::
  "uint64 \<Rightarrow> bool \<Rightarrow> uint64 \<Rightarrow> kmem_state \<Rightarrow> (uint64 \<rightharpoonup> uint64 list) \<Rightarrow> uint64 set \<Rightarrow>
     kmem_state \<Rightarrow> (uint64 \<rightharpoonup> uint64 list) \<Rightarrow> uint64 set \<Rightarrow> bool" where
  "pt_mapped dynamic x4 root s own F s' own' F' \<longleftrightarrow>
     pt_state dynamic x4 root s' own' F' \<and> own \<subseteq>\<^sub>m own' \<and> F' \<subseteq> F \<and>
     (\<forall>p path. own' p = Some path \<longrightarrow>
        own p = Some path \<or> p \<in> F \<and> take_bit 12 p = 0 \<and> path \<noteq> []) \<and>
     (\<forall>b. take_bit 3 b = 0 \<longrightarrow> PGROUNDDOWN b \<notin> F \<longrightarrow>
        (\<forall>p path i. own p = Some path \<longrightarrow> i < entries x4 path \<longrightarrow> b \<noteq> entry_addr p i) \<longrightarrow>
        load64 (mem s') b = load64 (mem s) b)"

lemma map_page_cases:
  assumes st: "pt_state dynamic x4 root s own F"
    and mp: "map_page root va pa fl x4 s = Inr (rv, s')"
  obtains a s1 own1 F1 where "pt_state dynamic x4 root s1 own1 F1"
    "pt_grow x4 (load64 (mem s)) own F (load64 (mem s1)) own1 F1"
    "leaf_slot (load64 (mem s1)) x4 2 root va = Some a" "\<not> valid_pte (load64 (mem s1) a)"
    "rv = 0" "s' = store_word s1 a (PA2PTE pa OR u64_of_int fl OR PTE_V)"
proof -
  note t = pt_state_root [OF st]
  from mp obtain a s1 where w: "walk_loop 2 root va True x4 s = Inr (a, s1)"
    and r: "(if a = 0 then Inr (- 1, s1)
       else if load64 (mem s1) a AND PTE_V \<noteq> 0 then Inl (Panic ''tried to remap page'')
       else Inr (0, store_word s1 a (PA2PTE pa OR u64_of_int fl OR PTE_V))) = Inr (rv, s')"
    by (auto simp: map_page_def walk_def layout_defs t(2))
  obtain own1 F1 where st1: "pt_state dynamic x4 root s1 own1 F1"
    and g: "pt_grow x4 (load64 (mem s)) own F (load64 (mem s1)) own1 F1"
    and slot: "leaf_slot (load64 (mem s1)) x4 2 root va = Some a"
    using walk_loop_alloc [OF st t(3) _ w] by auto
  from r leaf_slot_addr(1) [OF pt_state_root(1) [OF st1] slot]
  show ?thesis using that [OF st1 g slot] by (auto simp: valid_pte_def split: if_splits)
qed

lemma valid_pte_leaf: "valid_pte (PA2PTE pa OR f OR PTE_V)"
  using next_table_link(2) [of VAS_RAM] by (simp add: layout_defs)

lemma map_page_translation:
  assumes st: "pt_state dynamic x4 root s own F"
    and mp: "map_page root va pa fl x4 s = Inr (rv, s')"
  shows "rv = 0" "translation (load64 (mem s)) x4 2 root va = None"
    "translation (load64 (mem s')) x4 2 root va' =
      (if same_page x4 va va' then Some (PA2PTE pa OR u64_of_int fl OR PTE_V)
       else translation (load64 (mem s)) x4 2 root va')"
proof -
  obtain a s1 own1 F1 where st1: "pt_state dynamic x4 root s1 own1 F1"
    and g: "pt_grow x4 (load64 (mem s)) own F (load64 (mem s1)) own1 F1"
    and slot: "leaf_slot (load64 (mem s1)) x4 2 root va = Some a"
    and inv: "\<not> valid_pte (load64 (mem s1) a)" and rv: "rv = 0"
    and s': "s' = store_word s1 a (PA2PTE pa OR u64_of_int fl OR PTE_V)"
    by (rule map_page_cases [OF st mp])
  show "rv = 0" by (rule rv)
  note t1 = pt_state_root(1) [OF st1]
  have same: "translation (load64 (mem s1)) x4 2 root w = translation (load64 (mem s)) x4 2 root w" for w
    by (rule pt_grow_translation [OF g pt_state_root(3) [OF st]]) simp
  show "translation (load64 (mem s)) x4 2 root va = None"
    unfolding same [symmetric] using inv slot by (simp add: translation_def)
  have ld': "load64 (mem s') b =
      (if b = a then PA2PTE pa OR u64_of_int fl OR PTE_V else load64 (mem s1) b)"
    if "take_bit 3 b = 0" for b
    using ka.upd_word [OF leaf_slot_addr(2) [OF t1 slot] that] by (simp add: s')
  show "translation (load64 (mem s')) x4 2 root va' =
      (if same_page x4 va va' then Some (PA2PTE pa OR u64_of_int fl OR PTE_V)
       else translation (load64 (mem s)) x4 2 root va')"
    using leaf_store_translation [OF t1 slot ld' valid_pte_leaf] same by simp
qed

lemma pt_mapped_refl: "pt_state dynamic x4 root s own F \<Longrightarrow> pt_mapped dynamic x4 root s own F s own F"
  by (simp add: pt_mapped_def)

lemma map_page_mapped:
  assumes st: "pt_state dynamic x4 root s own F"
    and mp: "map_page root va pa fl x4 s = Inr (rv, s')"
  shows "\<exists>own' F'. pt_mapped dynamic x4 root s own F s' own' F'"
  using st mp
proof (rule map_page_cases)
  fix a s1 own1 F1
  assume st1: "pt_state dynamic x4 root s1 own1 F1"
    and g: "pt_grow x4 (load64 (mem s)) own F (load64 (mem s1)) own1 F1"
    and slot: "leaf_slot (load64 (mem s1)) x4 2 root va = Some a"
    and s': "s' = store_word s1 a (PA2PTE pa OR u64_of_int fl OR PTE_V)"
  note t1 = pt_state_root(1) [OF st1]
  note a = leaf_slot_addr [OF t1 slot]
  have ld': "load64 (mem s') b =
      (if b = a then PA2PTE pa OR u64_of_int fl OR PTE_V else load64 (mem s1) b)"
    if "take_bit 3 b = 0" for b
    using ka.upd_word [OF a(2) that] by (simp add: s')
  have st': "pt_state dynamic x4 root s' own1 F1"
    using st1 leaf_store_tree [OF t1 slot ld'] ka.upd_ok [OF _ a(2,3)] by (auto simp: pt_state_def s')
  have frame: "load64 (mem s') b = load64 (mem s) b"
    if b: "take_bit 3 b = 0" "PGROUNDDOWN b \<notin> F"
      and out: "\<forall>p path i. own p = Some path \<longrightarrow> i < entries x4 path \<longrightarrow> b \<noteq> entry_addr p i" for b
  proof -
    have "b \<noteq> a"
      using a(4) pt_grow_new [OF g] out b(2) entry_page(1) by (fastforce simp: entries_def)
    moreover have "load64 (mem s1) b = load64 (mem s) b"
      using pt_grow_frame [OF g b] out by blast
    ultimately show ?thesis using ld' [OF b(1)] by simp
  qed
  have "pt_mapped dynamic x4 root s own F s' own1 F1"
    unfolding pt_mapped_def
    using st' g frame by (simp add: pt_grow_def)
  then show ?thesis by blast
qed

lemma map_page_remap:
  assumes st: "pt_state dynamic x4 root s own F"
    and "translation (load64 (mem s)) x4 2 root va \<noteq> None"
  shows "map_page root va pa fl x4 s = Inl (Panic ''tried to remap page'')"
proof -
  obtain a where slot: "leaf_slot (load64 (mem s)) x4 2 root va = Some a"
    and v: "valid_pte (load64 (mem s) a)"
    using assms(2) by (auto simp: translation_def split: option.splits if_splits)
  note a = leaf_slot_addr(1) [OF pt_state_root(1) [OF st] slot]
  have "walk root va True x4 s = Inr (a, s)"
    using walk_loop_existing [OF slot] pt_state_root(2) [OF st] by (simp add: walk_def layout_defs)
  with a v show ?thesis by (simp add: map_page_def valid_pte_def)
qed

lemma map_page_total:
  assumes st: "pt_state dynamic x4 root s own F" and "2 \<le> card F"
    and none: "translation (load64 (mem s)) x4 2 root va = None"
  shows "\<exists>s'. map_page root va pa fl x4 s = Inr (0, s')"
proof -
  note t = pt_state_root [OF st]
  obtain a s1 where w: "walk_loop 2 root va True x4 s = Inr (a, s1)"
    using walk_loop_total [OF st t(3) _ assms(2), of va] by auto
  obtain own1 F1 where st1: "pt_state dynamic x4 root s1 own1 F1"
    and g: "pt_grow x4 (load64 (mem s)) own F (load64 (mem s1)) own1 F1"
    and slot: "leaf_slot (load64 (mem s1)) x4 2 root va = Some a"
    using walk_loop_alloc [OF st t(3) _ w] by auto
  have "translation (load64 (mem s1)) x4 2 root va = None"
    using pt_grow_translation [OF g t(3)] none by simp
  then have "\<not> valid_pte (load64 (mem s1) a)" using slot by (simp add: translation_def split: if_splits)
  moreover have "a \<noteq> 0" by (rule leaf_slot_addr(1) [OF pt_state_root(1) [OF st1] slot])
  ultimately show ?thesis
    using w t(2) by (simp add: map_page_def walk_def layout_defs valid_pte_def)
qed

section \<open>convert_va_to_pa\<close>

text \<open>
  The leaf entry is not tested for \<^verbatim>\<open>PTE_V\<close>: an address whose tables exist is translated by
  whatever its leaf entry holds.
\<close>

lemma convert_va_to_pa_slot:
  assumes st: "pt_state dynamic x4 root s own F"
  shows "convert_va_to_pa root va x4 s =
    (case leaf_slot (load64 (mem s)) x4 2 root va of
       None \<Rightarrow> Inl (Panic ''bad walk for va'')
     | Some a \<Rightarrow> Inr (PTE2PA (load64 (mem s) a) OR take_bit 12 va))"
proof -
  have "get_value va 0 12 = take_bit 12 va" by (simp add: get_value_eq)
  then show ?thesis
    using pt_state_root(2) [OF st] leaf_slot_addr(1) [OF pt_state_root(1) [OF st], of va]
    by (auto simp: convert_va_to_pa_def walk_def layout_defs walk_loop_lookup Let_def
        split: option.splits)
qed

lemma convert_va_to_pa_mapped:
  "pt_state dynamic x4 root s own F \<Longrightarrow> translation (load64 (mem s)) x4 2 root va = Some e \<Longrightarrow>
     convert_va_to_pa root va x4 s = Inr (PTE2PA e OR take_bit 12 va)"
  by (simp add: convert_va_to_pa_slot) (auto simp: translation_def split: option.splits if_splits)

lemma flags_small: "u64_of_int fl < 1024 \<Longrightarrow> u64_of_int fl OR PTE_V < 1024"
proof -
  assume "u64_of_int fl < 1024"
  then have "take_bit 10 (u64_of_int fl) = u64_of_int fl" by (intro take_bit_eq_self_word) simp
  then have "take_bit 10 (u64_of_int fl OR PTE_V) = u64_of_int fl OR PTE_V"
    by (simp add: layout_defs)
  moreover have "take_bit 10 (u64_of_int fl OR PTE_V) < 2 ^ 10" by (rule take_bit_less_two_power) simp
  ultimately show ?thesis by simp
qed

lemma PTE2PA_leaf: "u64_of_int fl < 1024 \<Longrightarrow> PTE2PA (PA2PTE pa OR u64_of_int fl OR PTE_V) = PGROUNDDOWN pa"
  using PTE2PA_PA2PTE [OF flags_small] by (simp add: or.assoc)

section \<open>map_pages\<close>

lemma pt_mapped_trans:
  assumes m1: "pt_mapped dynamic x4 root s own F s1 own1 F1"
    and m2: "pt_mapped dynamic x4 root s1 own1 F1 s2 own2 F2"
  shows "pt_mapped dynamic x4 root s own F s2 own2 F2"
  unfolding pt_mapped_def
proof (intro conjI allI impI)
  show "pt_state dynamic x4 root s2 own2 F2" "F2 \<subseteq> F" using m1 m2 by (auto simp: pt_mapped_def)
  show "own \<subseteq>\<^sub>m own2" using m1 m2 map_le_trans by (fastforce simp: pt_mapped_def)
next
  fix p path assume "own2 p = Some path"
  then show "own p = Some path \<or> p \<in> F \<and> take_bit 12 p = 0 \<and> path \<noteq> []"
    using m1 m2 unfolding pt_mapped_def by blast
next
  fix b
  assume b: "take_bit 3 b = 0" "PGROUNDDOWN b \<notin> F"
    and out: "\<forall>p path i. own p = Some path \<longrightarrow> i < entries x4 path \<longrightarrow> b \<noteq> entry_addr p i"
  have "load64 (mem s1) b = load64 (mem s) b" using m1 b out unfolding pt_mapped_def by blast
  moreover have "PGROUNDDOWN b \<notin> F1" using m1 b unfolding pt_mapped_def by blast
  moreover have "b \<noteq> entry_addr p i" if p: "own1 p = Some path" "i < entries x4 path" for p path i
  proof -
    have "own p = Some path \<or> p \<in> F \<and> take_bit 12 p = 0 \<and> path \<noteq> []"
      using m1 p(1) unfolding pt_mapped_def by blast
    then show ?thesis using out p(2) b(2) entry_page(1) [of p i] by (auto simp: entries_def)
  qed
  ultimately show "load64 (mem s2) b = load64 (mem s) b"
    using m2 b(1) unfolding pt_mapped_def by metis
qed

text \<open>
  The result of mapping a range from offset \<open>i\<close> on: nothing that was mapped changes, every page
  of the range is mapped to \<open>back j\<close>, and nothing else becomes mapped.
\<close>

definition range_mapped ::
  "bool \<Rightarrow> uint64 \<Rightarrow> uint64 \<Rightarrow> int \<Rightarrow> uint64 set \<Rightarrow> (uint64 \<Rightarrow> uint64) \<Rightarrow> words \<Rightarrow> words \<Rightarrow> bool" where
  "range_mapped x4 root va fl J back ld ld' \<longleftrightarrow>
     (\<forall>w e. translation ld x4 2 root w = Some e \<longrightarrow> translation ld' x4 2 root w = Some e) \<and>
     (\<forall>j \<in> J. translation ld' x4 2 root (va + j) = Some (PA2PTE (back j) OR u64_of_int fl OR PTE_V)) \<and>
     (\<forall>w e. translation ld' x4 2 root w = Some e \<longrightarrow>
        translation ld x4 2 root w = Some e \<or> (\<exists>j \<in> J. same_page x4 (va + j) w))"

definition page_offsets :: "uint64 \<Rightarrow> uint64 \<Rightarrow> uint64 set" where
  "page_offsets i sz = {j. i \<le> j \<and> j < PGROUNDUP sz \<and> take_bit 12 (j - i) = 0}"

lemma page_offsets_empty: "\<not> i < PGROUNDUP sz \<Longrightarrow> page_offsets i sz = {}"
  by (auto simp: page_offsets_def)

lemma page_offsets_step:
  assumes "i < PGROUNDUP sz"
  shows "page_offsets i sz = insert i (page_offsets (i + PAGE_SIZE) sz)"
proof -
  note nxt = PGROUNDUP_step [OF assms]
  have sub: "j - i = j - (i + PAGE_SIZE) + PAGE_SIZE" for j by simp
  have al: "take_bit 12 (j - i) = 0 \<longleftrightarrow> take_bit 12 (j - (i + PAGE_SIZE)) = 0" for j
    using take_bit_add_aligned [of 12 "j - (i + PAGE_SIZE)" PAGE_SIZE]
      take_bit_add_aligned [of 12 "j - i" "- PAGE_SIZE"]
    by (auto simp: layout_defs diff_diff_eq)
  have far: "i + PAGE_SIZE \<le> j" if "i \<le> j" "take_bit 12 (j - i) = 0" "j \<noteq> i" for j
  proof -
    have "unat (j - i) = unat j - unat i" using that(1) by (rule unat_sub)
    moreover have "unat (j - i) mod 4096 = 0" using that(2) by (simp add: aligned_unat_mod)
    moreover have "unat i < unat j" using that by (simp add: word_le_nat_alt word_unat_eq_iff)
    ultimately have "unat i + 4096 \<le> unat j"
      using multiples_apart [of 0 4096 "unat j - unat i"] by simp
    then show ?thesis using nxt by (simp add: word_le_nat_alt)
  qed
  have near: "i + PAGE_SIZE \<le> j \<Longrightarrow> i \<le> j" for j using nxt by (simp add: word_le_nat_alt)
  show ?thesis
  proof (rule set_eqI)
    fix j
    show "j \<in> page_offsets i sz \<longleftrightarrow> j \<in> insert i (page_offsets (i + PAGE_SIZE) sz)"
      using al [of j] far [of j] near [of j] assms by (cases "j = i") (auto simp: page_offsets_def)
  qed
qed

lemma range_mapped_empty: "range_mapped x4 root va fl {} back ld ld"
  by (simp add: range_mapped_def)

lemma same_page_refl [simp]: "same_page x4 va va"
  by (simp add: same_page_def)

lemma same_page_sym: "same_page x4 va va' \<Longrightarrow> same_page x4 va' va"
  by (auto simp: same_page_def)

lemma translation_same_page: "same_page x4 va va' \<Longrightarrow> translation ld x4 2 p va = translation ld x4 2 p va'"
  using leaf_slot_same_pageD by (simp add: translation_def)

lemma range_mapped_step:
  assumes none: "translation ld x4 2 root (va + i) = None"
    and one: "\<And>w. translation ld1 x4 2 root w =
      (if same_page x4 (va + i) w then Some (PA2PTE tmp OR u64_of_int fl OR PTE_V)
       else translation ld x4 2 root w)"
    and rest: "range_mapped x4 root va fl J back ld1 ld2"
    and bk: "back i = tmp"
  shows "range_mapped x4 root va fl (insert i J) back ld ld2"
  unfolding range_mapped_def
proof (intro conjI allI impI ballI)
  fix w e assume w: "translation ld x4 2 root w = Some e"
  then have "\<not> same_page x4 (va + i) w" using none translation_same_page by force
  with w one have "translation ld1 x4 2 root w = Some e" by simp
  with rest show "translation ld2 x4 2 root w = Some e" by (simp add: range_mapped_def)
next
  fix j assume "j \<in> insert i J"
  then show "translation ld2 x4 2 root (va + j) = Some (PA2PTE (back j) OR u64_of_int fl OR PTE_V)"
    using rest bk one [of "va + i"] by (auto simp: range_mapped_def)
next
  fix w e assume "translation ld2 x4 2 root w = Some e"
  then have "translation ld1 x4 2 root w = Some e \<or> (\<exists>j \<in> J. same_page x4 (va + j) w)"
    using rest by (simp add: range_mapped_def)
  then show "translation ld x4 2 root w = Some e \<or> (\<exists>j \<in> insert i J. same_page x4 (va + j) w)"
    using one [of w] by (auto split: if_splits)
qed

lemma range_mapped_cong:
  "(\<And>j. j \<in> J \<Longrightarrow> back j = back' j) \<Longrightarrow>
     range_mapped x4 root va fl J back ld ld' \<longleftrightarrow> range_mapped x4 root va fl J back' ld ld'"
  by (simp add: range_mapped_def)

lemma pt_mapped_unowned:
  assumes "pt_mapped dynamic x4 root s own F s' own' F'" "p \<notin> F" "own p = None"
  shows "own' p = None"
  using assms unfolding pt_mapped_def by (metis not_Some_eq)

lemma free_unowned:
  assumes "pt_state dynamic x4 root s own F" "p \<in> F"
  shows "own p = None"
proof (rule ccontr)
  assume "own p \<noteq> None"
  then obtain path where "own p = Some path" by auto
  from pt_tree_entry(2) [OF pt_state_root(1) [OF assms(1)] this entries_pos]
  have "PGROUNDDOWN p \<notin> F" by (simp add: entry_addr_def)
  moreover have "take_bit 12 p = 0"
    using free_set_ram assms by (auto simp: pt_state_def)
  ultimately show False using assms(2) by (simp add: PGROUNDDOWN_id)
qed

lemma pt_state_alloc:
  assumes st: "pt_state dynamic x4 root s own F" and q: "kmalloc s = Inr (q, s1)"
  shows "pt_state dynamic x4 root s1 own (F - {q})" "q \<in> F"
    "translation (load64 (mem s1)) x4 2 root w = translation (load64 (mem s)) x4 2 root w"
    "pt_mapped dynamic x4 root s own F s1 own (F - {q})"
proof -
  have F: "free_set dynamic s F" and t: "pt_tree (load64 (mem s)) x4 root own F"
    using st by (auto simp: pt_state_def)
  note alloc = ka.alloc_free [OF F q]
  have eq: "load64 (mem s1) (entry_addr p i) = load64 (mem s) (entry_addr p i)"
    if p: "own p = Some path" "i < entries x4 path" for p path i
    using ka.alloc_word [OF F q pt_tree_entry(1) [OF t p]] pt_tree_entry(2) [OF t p] alloc by auto
  have "pt_tree (load64 (mem s1)) x4 root own F" by (rule pt_tree_cong [OF t eq])
  then have "pt_tree (load64 (mem s1)) x4 root own (F - {q})" by (auto simp: pt_tree_def)
  with st alloc show st1: "pt_state dynamic x4 root s1 own (F - {q})" "q \<in> F"
    by (auto simp: pt_state_def)
  have slots: "leaf_slot (load64 (mem s1)) x4 2 root w = leaf_slot (load64 (mem s)) x4 2 root w"
    by (rule leaf_slot_cong [OF t pt_tree_root(2) [OF t] _ eq]) simp_all
  have "leaf_slot (load64 (mem s)) x4 2 root w = Some a \<Longrightarrow> load64 (mem s1) a = load64 (mem s) a" for a
    using leaf_slot_addr(4) [OF t] eq by blast
  with slots show "translation (load64 (mem s1)) x4 2 root w = translation (load64 (mem s)) x4 2 root w"
    by (simp add: translation_def split: option.splits)
  show "pt_mapped dynamic x4 root s own F s1 own (F - {q})"
    using st1 ka.alloc_word [OF F q] alloc by (auto simp: pt_mapped_def)
qed

text \<open>Mapping a range of given physical memory.\<close>

lemma map_pages_loop_phys:
  assumes "pt_state dynamic x4 root s own F" "pa \<noteq> 0"
    "map_pages_loop root va pa sz fl x4 i s = Inr (rv, s')"
  shows "rv = 0 \<and> (\<exists>own' F'. pt_mapped dynamic x4 root s own F s' own' F') \<and>
    range_mapped x4 root va fl (page_offsets i sz) (\<lambda>j. pa + j) (load64 (mem s)) (load64 (mem s'))"
  using assms
proof (induction root va pa sz fl x4 i s arbitrary: own F rule: map_pages_loop.induct)
  case (1 root va pa sz fl x4 i s)
  note st = "1.prems"(1)
  show ?case
  proof (cases "i < PGROUNDUP sz")
    case False
    then have "rv = 0" "s' = s"
      using "1.prems"(3) by (auto simp: map_pages_loop.simps [of root va pa sz fl x4 i s])
    with st pt_mapped_refl [OF st] False show ?thesis
      by (auto simp: page_offsets_empty range_mapped_empty)
  next
    case True
    with "1.prems"(2,3) obtain rv1 s1 where mp: "map_page root (va + i) (pa + i) fl x4 s = Inr (rv1, s1)"
      and next1: "(if rv1 < 0 then Inr (- 1, s1)
        else map_pages_loop root va pa sz fl x4 (i + PAGE_SIZE) s1) = Inr (rv, s')"
      by (auto simp: map_pages_loop.simps [of root va pa sz fl x4 i s])
    note one = map_page_translation [OF st mp]
    obtain own1 F1 where m1: "pt_mapped dynamic x4 root s own F s1 own1 F1"
      using map_page_mapped [OF st mp] by blast
    then have st1: "pt_state dynamic x4 root s1 own1 F1" by (simp add: pt_mapped_def)
    have "rv = 0 \<and> (\<exists>own' F'. pt_mapped dynamic x4 root s1 own1 F1 s' own' F') \<and>
      range_mapped x4 root va fl (page_offsets (i + PAGE_SIZE) sz) (\<lambda>j. pa + j)
        (load64 (mem s1)) (load64 (mem s'))"
      by (rule "1.IH" [OF True _ refl mp refl _ st1]) (use "1.prems"(2) next1 one(1) in simp_all)
    then obtain own' F' where "rv = 0" and m2: "pt_mapped dynamic x4 root s1 own1 F1 s' own' F'"
      and r: "range_mapped x4 root va fl (page_offsets (i + PAGE_SIZE) sz) (\<lambda>j. pa + j)
        (load64 (mem s1)) (load64 (mem s'))" by blast
    with pt_mapped_trans [OF m1 m2] range_mapped_step [OF one(2,3) r]
    show ?thesis by (auto simp: page_offsets_step [OF True])
  qed
qed

text \<open>Mapping a range of fresh pages: every page of the range gets a page of its own.\<close>

definition fresh_backing ::
  "uint64 set \<Rightarrow> uint64 set \<Rightarrow> uint64 set \<Rightarrow> (uint64 \<rightharpoonup> uint64 list) \<Rightarrow> (uint64 \<Rightarrow> uint64) \<Rightarrow> bool" where
  "fresh_backing J F F' own' g \<longleftrightarrow>
     inj_on g J \<and> (\<forall>j \<in> J. g j \<in> F \<and> g j \<notin> F' \<and> own' (g j) = None)"

lemma fresh_backing_step:
  assumes "fresh_backing J F1 F' own' g" "F1 \<subseteq> F - {q}" "q \<in> F" "i \<notin> J" "F' \<subseteq> F1" "own' q = None"
  shows "fresh_backing (insert i J) F F' own' (g(i := q))"
proof -
  have "g j \<noteq> q" if "j \<in> J" for j using assms(1,2) that by (auto simp: fresh_backing_def)
  then have "inj_on (g(i := q)) (insert i J)"
    using assms(1,4) by (auto simp: fresh_backing_def inj_on_def)
  with assms show ?thesis by (auto simp: fresh_backing_def)
qed

lemma page_offsets_fresh: "i < PGROUNDUP sz \<Longrightarrow> i \<notin> page_offsets (i + PAGE_SIZE) sz"
  using PGROUNDUP_step [of i sz] by (simp add: page_offsets_def word_le_nat_alt)

lemma map_pages_loop_fresh:
  assumes "pt_state dynamic x4 root s own F" "pa = 0"
    "map_pages_loop root va pa sz fl x4 i s = Inr (rv, s')"
  shows "rv = 0 \<and> (\<exists>own' F' g. pt_mapped dynamic x4 root s own F s' own' F' \<and>
    range_mapped x4 root va fl (page_offsets i sz) (\<lambda>j. KPA2PA (g j)) (load64 (mem s)) (load64 (mem s')) \<and>
    fresh_backing (page_offsets i sz) F F' own' g)"
  using assms
proof (induction root va pa sz fl x4 i s arbitrary: own F rule: map_pages_loop.induct)
  case (1 root va pa sz fl x4 i s)
  note st = "1.prems"(1)
  show ?case
  proof (cases "i < PGROUNDUP sz")
    case False
    then have "rv = 0" "s' = s"
      using "1.prems"(2,3) by (auto simp: map_pages_loop.simps [of root va 0 sz fl x4 i s])
    moreover have "fresh_backing {} F F own id" by (simp add: fresh_backing_def)
    ultimately show ?thesis
      using pt_mapped_refl [OF st] False by (auto simp: page_offsets_empty range_mapped_empty)
  next
    case True
    with "1.prems"(2,3) obtain q s0 rv1 s1 where q: "kmalloc s = Inr (q, s0)"
      and mp: "map_page root (va + i) (KPA2PA q) fl x4 s0 = Inr (rv1, s1)"
      and next1: "(if rv1 < 0 then Inr (- 1, s1)
        else map_pages_loop root va pa sz fl x4 (i + PAGE_SIZE) s1) = Inr (rv, s')"
      by (auto simp: map_pages_loop.simps [of root va 0 sz fl x4 i s])
    note al = pt_state_alloc [OF st q]
    note one = map_page_translation [OF al(1) mp]
    obtain own1 F1 where m1: "pt_mapped dynamic x4 root s0 own (F - {q}) s1 own1 F1"
      using map_page_mapped [OF al(1) mp] by blast
    then have st1: "pt_state dynamic x4 root s1 own1 F1" and F1: "F1 \<subseteq> F - {q}"
      by (simp_all add: pt_mapped_def)
    have "rv = 0 \<and> (\<exists>own' F' g. pt_mapped dynamic x4 root s1 own1 F1 s' own' F' \<and>
      range_mapped x4 root va fl (page_offsets (i + PAGE_SIZE) sz) (\<lambda>j. KPA2PA (g j))
        (load64 (mem s1)) (load64 (mem s')) \<and>
      fresh_backing (page_offsets (i + PAGE_SIZE) sz) F1 F' own' g)"
      by (rule "1.IH" [OF True _ refl mp refl _ st1]) (use "1.prems"(2) q next1 one(1) in simp_all)
    then obtain own' F' g where rv: "rv = 0"
      and m2: "pt_mapped dynamic x4 root s1 own1 F1 s' own' F'"
      and r: "range_mapped x4 root va fl (page_offsets (i + PAGE_SIZE) sz) (\<lambda>j. KPA2PA (g j))
        (load64 (mem s1)) (load64 (mem s'))"
      and g: "fresh_backing (page_offsets (i + PAGE_SIZE) sz) F1 F' own' g" by blast
    have "own1 q = None" by (rule pt_mapped_unowned [OF m1]) (use free_unowned [OF st al(2)] in auto)
    then have q': "own' q = None" by (rule pt_mapped_unowned [OF m2, rotated]) (use F1 in auto)
    have "F' \<subseteq> F1" using m2 by (simp add: pt_mapped_def)
    note fb = fresh_backing_step [OF g F1 al(2) page_offsets_fresh [OF True] this q']
    have "range_mapped x4 root va fl (insert i (page_offsets (i + PAGE_SIZE) sz))
        (\<lambda>j. KPA2PA ((g(i := q)) j)) (load64 (mem s0)) (load64 (mem s'))"
      by (rule range_mapped_step [OF one(2,3)])
         (use r page_offsets_fresh [OF True] in \<open>auto simp: range_mapped_def\<close>)
    then have rm: "range_mapped x4 root va fl (insert i (page_offsets (i + PAGE_SIZE) sz))
        (\<lambda>j. KPA2PA ((g(i := q)) j)) (load64 (mem s)) (load64 (mem s'))"
      unfolding range_mapped_def al(3) .
    show ?thesis
      using rv pt_mapped_trans [OF al(4) pt_mapped_trans [OF m1 m2]] rm fb
      unfolding page_offsets_step [OF True] by blast
  qed
qed

lemma map_pages_mapped:
  assumes "pt_state dynamic x4 root s own F" "map_pages root va pa sz fl x4 s = Inr (rv, s')"
  shows "rv = 0" "\<exists>own' F'. pt_mapped dynamic x4 root s own F s' own' F'"
  using map_pages_loop_fresh [OF assms(1), of pa va sz fl 0 rv s']
    map_pages_loop_phys [OF assms(1), of pa va sz fl 0 rv s'] assms(2)
  by (cases "pa = 0"; auto simp: map_pages_def)+

section \<open>Other page tables\<close>

definition tables_disjoint ::
  "bool \<Rightarrow> (uint64 \<rightharpoonup> uint64 list) \<Rightarrow> bool \<Rightarrow> (uint64 \<rightharpoonup> uint64 list) \<Rightarrow> bool" where
  "tables_disjoint x4 own x4' own2 \<longleftrightarrow>
     (\<forall>p q path path' i j. own p = Some path \<longrightarrow> own2 q = Some path' \<longrightarrow>
        i < entries x4 path \<longrightarrow> j < entries x4' path' \<longrightarrow> entry_addr p i \<noteq> entry_addr q j)"

text \<open>Mapping in one table keeps every other table and its translation.\<close>

lemma pt_mapped_other:
  assumes m: "pt_mapped dynamic x4 root s own F s' own' F'"
    and st2: "pt_state dynamic x4' root2 s own2 F"
    and disj: "tables_disjoint x4 own x4' own2"
  shows "pt_state dynamic x4' root2 s' own2 F'"
    "translation (load64 (mem s')) x4' 2 root2 va = translation (load64 (mem s)) x4' 2 root2 va"
    "tables_disjoint x4 own' x4' own2"
proof -
  note t2 = pt_state_root(1) [OF st2]
  have F': "F' \<subseteq> F" "linker_ok dynamic" "free_set dynamic s' F'"
    using m by (simp_all add: pt_mapped_def pt_state_def)
  have eq: "load64 (mem s') (entry_addr q j) = load64 (mem s) (entry_addr q j)"
    if q: "own2 q = Some path" "j < entries x4' path" for q path j
    using m pt_tree_entry(1,2) [OF t2 q] disj q unfolding pt_mapped_def tables_disjoint_def by metis
  have "pt_tree (load64 (mem s')) x4' root2 own2 F" by (rule pt_tree_cong [OF t2 eq])
  then have "pt_tree (load64 (mem s')) x4' root2 own2 F'"
    using F'(1) unfolding pt_tree_def by blast
  with F' show "pt_state dynamic x4' root2 s' own2 F'" by (simp add: pt_state_def)
  have slots: "leaf_slot (load64 (mem s')) x4' 2 root2 va = leaf_slot (load64 (mem s)) x4' 2 root2 va"
    by (rule leaf_slot_cong [OF t2 pt_tree_root(2) [OF t2] _ eq]) simp_all
  have "leaf_slot (load64 (mem s)) x4' 2 root2 va = Some a \<Longrightarrow> load64 (mem s') a = load64 (mem s) a" for a
    using leaf_slot_addr(4) [OF t2] eq by blast
  with slots show "translation (load64 (mem s')) x4' 2 root2 va = translation (load64 (mem s)) x4' 2 root2 va"
    by (simp add: translation_def split: option.splits)
  show "tables_disjoint x4 own' x4' own2"
    unfolding tables_disjoint_def
  proof (intro allI impI)
    fix p q path path' i j
    assume p: "own' p = Some path" "i < entries x4 path" and q: "own2 q = Some path'" "j < entries x4' path'"
    from m p(1) have "own p = Some path \<or> p \<in> F \<and> take_bit 12 p = 0 \<and> path \<noteq> []"
      unfolding pt_mapped_def by blast
    then show "entry_addr p i \<noteq> entry_addr q j"
    proof
      assume "own p = Some path"
      then show ?thesis using disj p q unfolding tables_disjoint_def by blast
    next
      assume "p \<in> F \<and> take_bit 12 p = 0 \<and> path \<noteq> []"
      then have "PGROUNDDOWN (entry_addr p i) \<in> F" using entry_page(1) [of p i] p by (auto simp: entries_def)
      with pt_tree_entry(2) [OF t2 q] show ?thesis by auto
    qed
  qed
qed

text \<open>A cleared root is an empty table.\<close>

lemma root_entry:
  assumes "root \<noteq> 0" "take_bit (if x4 then 14 else 12) root = 0" "i < entries x4 []"
  shows "take_bit 3 (entry_addr root i) = 0" "entry_addr root i \<noteq> 0" "8 * i < 2 ^ (if x4 then 14 else 12)"
proof -
  let ?n = "if x4 then 14 else 12 :: nat"
  have "unat i < (if x4 then 2048 else 512)"
    using assms(3) by (cases x4) (simp_all add: entries_def word_less_nat_alt)
  then show b: "8 * i < 2 ^ ?n" by (cases x4) (simp_all add: word_less_nat_alt unat_word_ariths)
  have "take_bit 3 root = take_bit 3 (take_bit ?n root)" by simp
  then have "take_bit 3 root = 0" using assms(2) by simp
  moreover have "take_bit 3 (8 * i) = 0" by (simp add: take_bit_eq_0_iff)
  ultimately show "take_bit 3 (entry_addr root i) = 0"
    using take_bit_add_aligned by (simp add: entry_addr_def layout_defs)
  show "entry_addr root i \<noteq> 0"
    using aligned_add_cancel [OF assms(2) _ b, of 0 0] assms(1)
    by (cases x4) (auto simp: entry_addr_def layout_defs)
qed

lemma pt_tree_empty_root:
  assumes root: "root \<noteq> 0" "take_bit (if x4 then 14 else 12) root = 0"
    and "\<And>i. i < entries x4 [] \<Longrightarrow> ld (entry_addr root i) = 0"
    and "\<And>i. i < entries x4 [] \<Longrightarrow> PGROUNDDOWN (entry_addr root i) \<notin> F"
  shows "pt_tree ld x4 root [root \<mapsto> []] F"
proof -
  note e = root_entry [OF root]
  have inj: "i = j" if ij: "i < entries x4 []" "j < entries x4 []" "entry_addr root i = entry_addr root j" for i j
  proof -
    have "8 * i = 8 * j" using ij(3) by (simp add: entry_addr_def layout_defs)
    moreover have "unat i < 2048" "unat j < 2048"
      using ij by (auto simp: entries_def word_less_nat_alt split: if_splits)
    ultimately show ?thesis by (simp add: word_unat_eq_iff unat_word_ariths)
  qed
  show ?thesis
    unfolding pt_tree_def
    using root assms(3,4) e inj by (auto simp: valid_pte_def split: if_splits)
qed

lemma translation_empty_root:
  assumes "\<And>i. i < entries x4 [] \<Longrightarrow> ld (entry_addr root i) = 0"
  shows "translation ld x4 2 root va = None"
proof -
  have "va2idx va 2 x4 < entries x4 []" by (rule va2idx_bound) simp
  then have "ld (entry_addr root (va2idx va 2 x4)) = 0" by (rule assms)
  then show ?thesis by (simp add: translation_def numeral_2_eq_2 valid_pte_def)
qed

end
