(* ===== verification/Ranges.thy ===== *)
theory Ranges
  imports Vmem
begin

text \<open>
  Clients of the page tables of \<^verbatim>\<open>src/src/mem/vmem.c\<close>: what a table contains after several ranges
  have been mapped (\<open>regions_mapped\<close>), and how many free pages mapping them takes. The budget
  \<open>missing\<close> is the set of tables that addresses need and that do not exist yet; as long as it is
  covered by the free pages, \<open>map_page\<close> and \<open>map_pages\<close> succeed.
\<close>

section \<open>Address spaces as lists of regions\<close>

text \<open>
  A region of an address space: its base, the flags of its leaves, the offsets of its pages
  and the physical page behind each offset. A table maps a list of regions when its valid
  translations are exactly those of the regions.
\<close>

type_synonym region = "uint64 \<times> int \<times> uint64 set \<times> (uint64 \<Rightarrow> uint64)"

definition region_leaf :: "bool \<Rightarrow> region \<Rightarrow> uint64 \<Rightarrow> pte_t \<Rightarrow> bool" where
  "region_leaf x4 r w e \<longleftrightarrow>
     (case r of (va, fl, J, back) \<Rightarrow>
        \<exists>j \<in> J. same_page x4 (va + j) w \<and> e = PA2PTE (back j) OR u64_of_int fl OR PTE_V)"

definition regions_mapped :: "bool \<Rightarrow> uint64 \<Rightarrow> region list \<Rightarrow> words \<Rightarrow> bool" where
  "regions_mapped x4 root rs ld \<longleftrightarrow>
     (\<forall>w e. translation ld x4 2 root w = Some e \<longleftrightarrow> (\<exists>r \<in> set rs. region_leaf x4 r w e))"

lemma regions_mapped_step:
  assumes "regions_mapped x4 root rs ld" "range_mapped x4 root va fl J back ld ld'"
  shows "regions_mapped x4 root (rs @ [(va, fl, J, back)]) ld'"
  unfolding regions_mapped_def
proof (intro allI iffI)
  fix w e
  assume e: "translation ld' x4 2 root w = Some e"
  from assms(2) e consider "translation ld x4 2 root w = Some e" | j where "j \<in> J" "same_page x4 (va + j) w"
    unfolding range_mapped_def by blast
  then show "\<exists>r \<in> set (rs @ [(va, fl, J, back)]). region_leaf x4 r w e"
  proof cases
    case 1
    with assms(1) show ?thesis by (auto simp: regions_mapped_def)
  next
    case (2 j)
    with assms(2) e translation_same_page [OF 2(2), of ld' root]
    have "e = PA2PTE (back j) OR u64_of_int fl OR PTE_V" by (auto simp: range_mapped_def)
    with 2 show ?thesis by (auto simp: region_leaf_def)
  qed
next
  fix w e
  assume "\<exists>r \<in> set (rs @ [(va, fl, J, back)]). region_leaf x4 r w e"
  then have "(\<exists>r \<in> set rs. region_leaf x4 r w e) \<or> region_leaf x4 (va, fl, J, back) w e" by auto
  then consider "\<exists>r \<in> set rs. region_leaf x4 r w e"
    | j where "j \<in> J" "same_page x4 (va + j) w" "e = PA2PTE (back j) OR u64_of_int fl OR PTE_V"
    unfolding region_leaf_def [of x4 "(va, fl, J, back)"] by auto
  then show "translation ld' x4 2 root w = Some e"
  proof cases
    case 1
    with assms show ?thesis by (auto simp: regions_mapped_def range_mapped_def)
  next
    case (2 j)
    with assms(2) translation_same_page [OF 2(2), of ld' root] show ?thesis
      by (auto simp: range_mapped_def)
  qed
qed

section \<open>The page budget\<close>

text \<open>The tables below the root that an address needs, named by their path of indices.\<close>

definition paths :: "bool \<Rightarrow> uint64 \<Rightarrow> uint64 list set" where
  "paths x4 va = {[va2idx va 2 x4], [va2idx va 2 x4, va2idx va 1 x4]}"

definition root_valid :: "words \<Rightarrow> bool \<Rightarrow> uint64 \<Rightarrow> uint64 \<Rightarrow> bool" where
  "root_valid ld x4 root va \<longleftrightarrow> valid_pte (ld (entry_addr root (va2idx va 2 x4)))"

definition missing :: "words \<Rightarrow> bool \<Rightarrow> uint64 \<Rightarrow> uint64 set \<Rightarrow> uint64 list set" where
  "missing ld x4 root W =
     {[va2idx va 2 x4] | va. va \<in> W \<and> \<not> root_valid ld x4 root va} \<union>
     {[va2idx va 2 x4, va2idx va 1 x4] | va. va \<in> W \<and> leaf_slot ld x4 2 root va = None}"

lemma missing_paths: "missing ld x4 root W \<subseteq> (\<Union>va \<in> W. paths x4 va)"
  by (auto simp: missing_def paths_def)

lemma finite_missing: "finite (missing ld x4 root W)"
proof -
  have "missing ld x4 root W \<subseteq> {xs. set xs \<subseteq> UNIV \<and> length xs \<le> 2}" by (auto simp: missing_def)
  then show ?thesis by (rule finite_subset) (rule finite_lists_length_le, simp)
qed

lemma leaf_slot_root_valid: "leaf_slot ld x4 2 root va = Some a \<Longrightarrow> root_valid ld x4 root va"
  by (simp add: root_valid_def numeral_2_eq_2 Let_def split: if_splits)

text \<open>The number of tables one descent has to allocate.\<close>

fun need :: "words \<Rightarrow> bool \<Rightarrow> nat \<Rightarrow> uint64 \<Rightarrow> uint64 \<Rightarrow> nat" where
  "need ld x4 0 p va = 0"
| "need ld x4 (Suc l) p va =
     (let e = ld (entry_addr p (va2idx va (Suc l) x4)) in
      if valid_pte e then need ld x4 l (next_table e) va else Suc l)"

lemma need_le: "need ld x4 l p va \<le> l"
  by (induction l arbitrary: p) (auto simp: Let_def intro: le_SucI)

lemma need_missing: "need ld x4 2 root va = card (missing ld x4 root {va})"
proof -
  have "missing ld x4 root {va} =
      (if \<not> root_valid ld x4 root va then {[va2idx va 2 x4], [va2idx va 2 x4, va2idx va 1 x4]}
       else if leaf_slot ld x4 2 root va = None then {[va2idx va 2 x4, va2idx va 1 x4]} else {})"
    by (auto simp: missing_def dest: leaf_slot_root_valid)
  then show ?thesis by (auto simp: root_valid_def numeral_2_eq_2 Let_def)
qed

text \<open>With that many free pages the descent succeeds, and takes no more.\<close>

lemma walk_loop_budget:
  assumes "pt_state dynamic x4 root s own F" "own p = Some path" "length path + l = 2"
    "need (load64 (mem s)) x4 l p va \<le> card F"
  shows "\<exists>a s' own' F'. walk_loop l p va True x4 s = Inr (a, s') \<and> pt_state dynamic x4 root s' own' F' \<and>
    pt_grow x4 (load64 (mem s)) own F (load64 (mem s')) own' F' \<and>
    leaf_slot (load64 (mem s')) x4 l p va = Some a \<and>
    card F \<le> card F' + need (load64 (mem s)) x4 l p va"
  using assms
proof (induction l arbitrary: p path s own F)
  case 0
  then show ?case using pt_grow_refl by fastforce
next
  case (Suc l)
  define i where "i = va2idx va (Suc l) x4"
  let ?a = "entry_addr p i"
  have len: "length path < 2" "length (path @ [i]) + l = 2" and b: "i < entries x4 path"
    using Suc.prems(3) by (auto simp: i_def intro!: va2idx_bound)
  have F: "free_set dynamic s F" and t: "pt_tree (load64 (mem s)) x4 root own F"
    using Suc.prems(1) by (auto simp: pt_state_def)
  have finish: ?case
    if st1: "pt_state dynamic x4 root s1 own1 F1"
      and g: "pt_grow x4 (load64 (mem s)) own F (load64 (mem s1)) own1 F1"
      and v: "valid_pte (load64 (mem s1) ?a)" and own1: "own1 (next_table (load64 (mem s1) ?a)) = Some (path @ [i])"
      and w: "walk_loop (Suc l) p va True x4 s = walk_loop l (next_table (load64 (mem s1) ?a)) va True x4 s1"
      and enough: "need (load64 (mem s1)) x4 l (next_table (load64 (mem s1) ?a)) va \<le> card F1"
      and used: "card F + need (load64 (mem s1)) x4 l (next_table (load64 (mem s1) ?a)) va
        \<le> card F1 + need (load64 (mem s)) x4 (Suc l) p va"
    for s1 own1 F1
  proof -
    obtain a s' own' F' where IH: "walk_loop l (next_table (load64 (mem s1) ?a)) va True x4 s1 = Inr (a, s')"
      "pt_state dynamic x4 root s' own' F'"
      "pt_grow x4 (load64 (mem s1)) own1 F1 (load64 (mem s')) own' F'"
      "leaf_slot (load64 (mem s')) x4 l (next_table (load64 (mem s1) ?a)) va = Some a"
      "card F1 \<le> card F' + need (load64 (mem s1)) x4 l (next_table (load64 (mem s1) ?a)) va"
      using Suc.IH [OF st1 own1 len(2) enough] by blast
    have "load64 (mem s') ?a = load64 (mem s1) ?a"
      by (rule pt_grow_valid [OF IH(3) pt_grow_own [OF g Suc.prems(2)] b v])
    then have "leaf_slot (load64 (mem s')) x4 (Suc l) p va = Some a"
      using IH(4) v by (simp add: i_def Let_def)
    moreover have "card F \<le> card F' + need (load64 (mem s)) x4 (Suc l) p va" using IH(5) used by linarith
    ultimately show ?thesis using IH(1,2) w pt_grow_trans [OF g IH(3)] by metis
  qed
  show ?case
  proof (cases "load64 (mem s) ?a AND PTE_V = 0")
    case False
    then have v: "valid_pte (load64 (mem s) ?a)" by (simp add: valid_pte_def)
    have n: "need (load64 (mem s)) x4 (Suc l) p va = need (load64 (mem s)) x4 l (next_table (load64 (mem s) ?a)) va"
      using v by (simp add: i_def Let_def)
    show ?thesis
      by (rule finish [OF Suc.prems(1) pt_grow_refl v pt_tree_next [OF t Suc.prems(2) len(1) b v]])
         (use Suc.prems(4) False n in \<open>auto simp: i_def Let_def next_table_def\<close>)
  next
    case True
    then have n: "need (load64 (mem s)) x4 (Suc l) p va = Suc l" by (simp add: i_def Let_def valid_pte_def)
    with Suc.prems(4) have "F \<noteq> {}" by auto
    then obtain q s1 where q: "kmalloc s = Inr (q, s1)" using ka.alloc_total [OF F] by blast
    note alloc = ka.alloc_free [OF F q]
    then obtain m where m: "memset (mem s1) q 0 (uint PAGE_SIZE) = Inr m"
      using memset_page [of q] by (simp add: layout_defs)
    note new = walk_new_table [OF Suc.prems(1,2) len(1) b True q m]
    define s2 where "s2 = store_word (s1\<lparr>mem := m\<rparr>) ?a (PA2PTE (KPA2PA q) OR PTE_V)"
    note new' = new [folded s2_def]
    have c: "card F = Suc (card (F - {q}))" using alloc card_Suc_Diff1 [OF ka.ok_finite [OF F]] by metis
    have le: "need (load64 (mem s2)) x4 l q va \<le> l" by (rule need_le)
    have w: "walk_loop (Suc l) p va True x4 s = walk_loop l q va True x4 s2"
      using q m True alloc by (simp add: i_def Let_def s2_def)
    show ?thesis
      by (rule finish [OF new'(1,2,4)]) (use new'(3) w le c n Suc.prems(4) in auto)
  qed
qed

text \<open>What exists stays: tables of other addresses and of the address itself.\<close>

lemma grow_keeps_slot:
  assumes t: "pt_tree ld x4 root own F" and g: "pt_grow x4 ld own F ld' own' F'"
    and p: "own p = Some path" "length path + l = 2" and slot: "leaf_slot ld x4 l p va = Some a"
  shows "leaf_slot ld' x4 l p va = Some a"
  using p slot
proof (induction l arbitrary: p path)
  case (Suc l)
  let ?a = "entry_addr p (va2idx va (Suc l) x4)"
  have b: "va2idx va (Suc l) x4 < entries x4 path" "length path < 2" using Suc.prems by (auto intro!: va2idx_bound)
  have v: "valid_pte (ld ?a)" "leaf_slot ld x4 l (next_table (ld ?a)) va = Some a"
    using Suc.prems(3) by (auto simp: Let_def split: if_splits)
  have "own (next_table (ld ?a)) = Some (path @ [va2idx va (Suc l) x4])"
    by (rule pt_tree_next [OF t Suc.prems(1) b(2,1) v(1)])
  from Suc.IH [OF this _ v(2)] Suc.prems(2) pt_grow_valid [OF g Suc.prems(1) b(1) v(1)] v(1)
  show ?case by (simp add: Let_def)
qed simp

lemma free_set_unique: "free_set dynamic s F \<Longrightarrow> free_set dynamic s F' \<Longrightarrow> F = F'"
  using kmem_ok_functional by (auto simp: free_set_def)

lemma leaf_slot_none_cong:
  "va2idx w 2 x4 = va2idx va 2 x4 \<Longrightarrow> va2idx w 1 x4 = va2idx va 1 x4 \<Longrightarrow>
     leaf_slot ld x4 2 root w = None \<longleftrightarrow> leaf_slot ld x4 2 root va = None"
  by (simp add: numeral_2_eq_2 Let_def)

lemma missing_after:
  assumes slots: "\<And>w a. leaf_slot ld x4 2 root w = Some a \<Longrightarrow> leaf_slot ld' x4 2 root w \<noteq> None"
    and roots: "\<And>w. root_valid ld x4 root w \<Longrightarrow> root_valid ld' x4 root w"
    and new: "leaf_slot ld' x4 2 root va = Some a"
  shows "missing ld' x4 root W \<subseteq> missing ld x4 root W - missing ld x4 root {va}"
proof
  fix path assume "path \<in> missing ld' x4 root W"
  then consider (one) w where "w \<in> W" "path = [va2idx w 2 x4]" "\<not> root_valid ld' x4 root w"
    | (two) w where "w \<in> W" "path = [va2idx w 2 x4, va2idx w 1 x4]" "leaf_slot ld' x4 2 root w = None"
    by (auto simp: missing_def)
  then show "path \<in> missing ld x4 root W - missing ld x4 root {va}"
  proof cases
    case one
    have "va2idx w 2 x4 \<noteq> va2idx va 2 x4"
      using one(3) leaf_slot_root_valid [OF new] by (auto simp: root_valid_def)
    with one roots show ?thesis by (auto simp: missing_def)
  next
    case two
    have "path \<noteq> [va2idx va 2 x4, va2idx va 1 x4]"
      using two(2,3) new leaf_slot_none_cong [of w x4 va ld' root] by auto
    moreover have "leaf_slot ld x4 2 root w = None" using two(3) slots [of w] by (cases "leaf_slot ld x4 2 root w") auto
    ultimately show ?thesis using two(1,2) by (auto simp: missing_def)
  qed
qed

text \<open>One page: with the budget of a set of addresses there is a page for every table it needs.\<close>

lemma map_page_budget:
  assumes st: "pt_state dynamic x4 root s own F" and none: "translation (load64 (mem s)) x4 2 root va = None"
    and va: "va \<in> W" and budget: "card (missing (load64 (mem s)) x4 root W) + k \<le> card F"
  shows "\<exists>s' own' F'. map_page root va pa fl x4 s = Inr (0, s') \<and>
    pt_mapped dynamic x4 root s own F s' own' F' \<and>
    card (missing (load64 (mem s')) x4 root W) + k \<le> card F'"
proof -
  let ?ld = "load64 (mem s)"
  note t = pt_state_root [OF st]
  have sub: "missing ?ld x4 root {va} \<subseteq> missing ?ld x4 root W" using va by (auto simp: missing_def)
  have le: "card (missing ?ld x4 root {va}) \<le> card (missing ?ld x4 root W)"
    by (rule card_mono [OF finite_missing sub])
  obtain a s1 own1 F1 where w: "walk_loop 2 root va True x4 s = Inr (a, s1)"
    and st1: "pt_state dynamic x4 root s1 own1 F1"
    and g: "pt_grow x4 ?ld own F (load64 (mem s1)) own1 F1"
    and slot: "leaf_slot (load64 (mem s1)) x4 2 root va = Some a"
    and used: "card F \<le> card F1 + card (missing ?ld x4 root {va})"
    using walk_loop_budget [OF st t(3), of 2 va] le budget by (auto simp: need_missing)
  note a = leaf_slot_addr [OF pt_state_root(1) [OF st1] slot]
  let ?v = "PA2PTE pa OR u64_of_int fl OR PTE_V"
  define s' where "s' = store_word s1 a ?v"
  have "translation (load64 (mem s1)) x4 2 root va = None" using pt_grow_translation [OF g t(3)] none by simp
  then have "\<not> valid_pte (load64 (mem s1) a)" using slot by (simp add: translation_def split: if_splits)
  then have mp: "map_page root va pa fl x4 s = Inr (0, s')"
    using w t(2) a(1) by (simp add: map_page_def walk_def layout_defs valid_pte_def s'_def)
  obtain own' F' where pm: "pt_mapped dynamic x4 root s own F s' own' F'"
    using map_page_mapped [OF st mp] by blast
  have "free_set dynamic s' F1" using st1 ka.upd_ok [OF _ a(2,3)] by (simp add: pt_state_def s'_def)
  moreover have "free_set dynamic s' F'" using pm by (simp add: pt_mapped_def pt_state_def)
  ultimately have F': "F' = F1" using free_set_unique by blast
  have ld': "load64 (mem s') b = (if b = a then ?v else load64 (mem s1) b)" if "take_bit 3 b = 0" for b
    using ka.upd_word [OF a(2) that] by (simp add: s'_def)
  have slots: "leaf_slot (load64 (mem s')) x4 2 root w = leaf_slot (load64 (mem s1)) x4 2 root w" for w
    by (rule leaf_store_slot [OF pt_state_root(1) [OF st1] slot ld'])
  have rv: "root_valid (load64 (mem s')) x4 root w" if "root_valid ?ld x4 root w" for w
  proof -
    have b: "va2idx w 2 x4 < entries x4 []" by (rule va2idx_bound) simp
    have "load64 (mem s1) (entry_addr root (va2idx w 2 x4)) = ?ld (entry_addr root (va2idx w 2 x4))"
      using pt_grow_valid [OF g t(3) b] that by (simp add: root_valid_def)
    then show ?thesis
      using that ld' [OF pt_tree_entry(1) [OF t(1,3) b]] valid_pte_leaf by (simp add: root_valid_def)
  qed
  have sl: "leaf_slot (load64 (mem s')) x4 2 root w \<noteq> None" if "leaf_slot ?ld x4 2 root w = Some b" for w b
    using grow_keeps_slot [OF t(1) g t(3) _ that] by (simp add: slots)
  have "missing (load64 (mem s')) x4 root W \<subseteq> missing ?ld x4 root W - missing ?ld x4 root {va}"
    by (rule missing_after [OF sl rv]) (use slot slots in auto)
  then have "card (missing (load64 (mem s')) x4 root W) \<le>
      card (missing ?ld x4 root W - missing ?ld x4 root {va})"
    by (rule card_mono [rotated]) (simp add: finite_missing)
  also have "\<dots> = card (missing ?ld x4 root W) - card (missing ?ld x4 root {va})"
    by (rule card_Diff_subset [OF finite_missing sub])
  finally have "card (missing (load64 (mem s')) x4 root W) + k \<le> card F1" using budget used le by linarith
  with mp pm F' show ?thesis by blast
qed

text \<open>Allocating a page for other purposes leaves the tables alone.\<close>

lemma missing_alloc:
  assumes st: "pt_state dynamic x4 root s own F" and q: "kmalloc s = Inr (q, s1)"
  shows "missing (load64 (mem s1)) x4 root W = missing (load64 (mem s)) x4 root W"
proof -
  note t = pt_state_root [OF st]
  have F: "free_set dynamic s F" using st by (simp add: pt_state_def)
  have eq: "load64 (mem s1) (entry_addr p i) = load64 (mem s) (entry_addr p i)"
    if p: "own p = Some path" "i < entries x4 path" for p path i
    using ka.alloc_word [OF F q pt_tree_entry(1) [OF t(1) p]] pt_tree_entry(2) [OF t(1) p]
      ka.alloc_free [OF F q] by auto
  have "leaf_slot (load64 (mem s1)) x4 2 root w = leaf_slot (load64 (mem s)) x4 2 root w" for w
    by (rule leaf_slot_cong [OF t(1,3) _ eq]) simp_all
  moreover have "root_valid (load64 (mem s1)) x4 root w = root_valid (load64 (mem s)) x4 root w" for w
    unfolding root_valid_def using eq [OF t(3) va2idx_bound [of "[]" 2 w x4]] by simp
  ultimately show ?thesis by (simp add: missing_def)
qed

text \<open>The page behind one address of a range, given or allocated.\<close>

lemma backing_budget:
  assumes st: "pt_state dynamic x4 root s own F"
    and budget: "card (missing (load64 (mem s)) x4 root W) + (k + (if pa = 0 then 1 else 0)) \<le> card F"
  shows "\<exists>tmp s1 F1. (if pa = 0 then bindE (kmalloc s) (\<lambda>(kpa, s'). Inr (KPA2PA kpa, s')) else Inr (pa + i, s))
      = Inr (tmp, s1) \<and> pt_mapped dynamic x4 root s own F s1 own F1 \<and>
    (\<forall>w. translation (load64 (mem s1)) x4 2 root w = translation (load64 (mem s)) x4 2 root w) \<and>
    card (missing (load64 (mem s1)) x4 root W) + k \<le> card F1"
proof (cases "pa = 0")
  case False
  then show ?thesis using pt_mapped_refl [OF st] budget by auto
next
  case True
  have F: "free_set dynamic s F" using st by (simp add: pt_state_def)
  have "F \<noteq> {}" using True budget by auto
  then obtain q s1 where q: "kmalloc s = Inr (q, s1)" using ka.alloc_total [OF F] by blast
  note al = pt_state_alloc [OF st q]
  have c: "card F = Suc (card (F - {q}))" using al(2) card_Suc_Diff1 [OF ka.ok_finite [OF F]] by metis
  have "card (missing (load64 (mem s1)) x4 root W) + k \<le> card (F - {q})"
    using budget True c missing_alloc [OF st q, of W] by simp
  moreover have "(if pa = 0 then bindE (kmalloc s) (\<lambda>(kpa, s'). Inr (KPA2PA kpa, s')) else Inr (pa + i, s))
      = Inr (KPA2PA q, s1)" using True q by simp
  ultimately show ?thesis using al(3,4) by blast
qed

definition separate :: "bool \<Rightarrow> uint64 \<Rightarrow> uint64 set \<Rightarrow> bool" where
  "separate x4 va J \<longleftrightarrow> (\<forall>j \<in> J. \<forall>j' \<in> J. same_page x4 (va + j) (va + j') \<longrightarrow> j = j')"

lemma finite_page_offsets: "finite (page_offsets i sz)"
  by (rule finite_subset [OF subset_UNIV]) simp

lemma map_pages_loop_budget:
  assumes "pt_state dynamic x4 root s own F" "\<forall>j \<in> page_offsets i sz. va + j \<in> W"
    "\<forall>j \<in> page_offsets i sz. translation (load64 (mem s)) x4 2 root (va + j) = None"
    "separate x4 va (page_offsets i sz)"
    "card (missing (load64 (mem s)) x4 root W) + (k + (if pa = 0 then card (page_offsets i sz) else 0)) \<le> card F"
  shows "\<exists>s' own' F'. map_pages_loop root va pa sz fl x4 i s = Inr (0, s') \<and>
    pt_mapped dynamic x4 root s own F s' own' F' \<and>
    card (missing (load64 (mem s')) x4 root W) + k \<le> card F'"
  using assms
proof (induction root va pa sz fl x4 i s arbitrary: own F rule: map_pages_loop.induct)
  case (1 root va pa sz fl x4 i s)
  note st = "1.prems"(1)
  show ?case
  proof (cases "i < PGROUNDUP sz")
    case False
    then have "map_pages_loop root va pa sz fl x4 i s = Inr (0, s)"
      by (simp add: map_pages_loop.simps [of root va pa sz fl x4 i s])
    moreover have "card (missing (load64 (mem s)) x4 root W) + k \<le> card F" using "1.prems"(5) by linarith
    ultimately show ?thesis using pt_mapped_refl [OF st] by blast
  next
    case True
    let ?J = "page_offsets (i + PAGE_SIZE) sz"
    let ?k = "k + (if pa = 0 then card ?J else 0)"
    note J = page_offsets_step [OF True] page_offsets_fresh [OF True]
    have "card (page_offsets i sz) = Suc (card ?J)" using J finite_page_offsets by simp
    with "1.prems"(5) have b: "card (missing (load64 (mem s)) x4 root W) + (?k + (if pa = 0 then 1 else 0)) \<le> card F"
      by auto
    obtain tmp s1 F1 where bk:
      "(if pa = 0 then bindE (kmalloc s) (\<lambda>(kpa, s'). Inr (KPA2PA kpa, s')) else Inr (pa + i, s)) = Inr (tmp, s1)"
      "pt_mapped dynamic x4 root s own F s1 own F1"
      "\<forall>w. translation (load64 (mem s1)) x4 2 root w = translation (load64 (mem s)) x4 2 root w"
      "card (missing (load64 (mem s1)) x4 root W) + ?k \<le> card F1"
      using backing_budget [OF st b] by blast
    have st1: "pt_state dynamic x4 root s1 own F1" using bk(2) by (simp add: pt_mapped_def)
    have none: "translation (load64 (mem s1)) x4 2 root (va + i) = None" "va + i \<in> W"
      using "1.prems"(2,3) bk(3) J(1) by simp_all
    obtain s2 own2 F2 where mp: "map_page root (va + i) tmp fl x4 s1 = Inr (0, s2)"
      "pt_mapped dynamic x4 root s1 own F1 s2 own2 F2"
      "card (missing (load64 (mem s2)) x4 root W) + ?k \<le> card F2"
      using map_page_budget [OF st1 none bk(4)] by blast
    have st2: "pt_state dynamic x4 root s2 own2 F2" using mp(2) by (simp add: pt_mapped_def)
    have "\<not> same_page x4 (va + i) (va + j)" if "j \<in> ?J" for j
      using "1.prems"(4) J that unfolding separate_def by blast
    then have none2: "\<forall>j \<in> ?J. translation (load64 (mem s2)) x4 2 root (va + j) = None"
      using map_page_translation(3) [OF st1 mp(1)] "1.prems"(3) bk(3) J(1) by simp
    have "\<exists>s' own' F'. map_pages_loop root va pa sz fl x4 (i + PAGE_SIZE) s2 = Inr (0, s') \<and>
        pt_mapped dynamic x4 root s2 own2 F2 s' own' F' \<and>
        card (missing (load64 (mem s')) x4 root W) + k \<le> card F'"
      by (rule "1.IH" [OF True bk(1) refl mp(1) refl _ st2 _ none2])
         (use "1.prems"(2,4) J mp(3) in \<open>auto simp: separate_def\<close>)
    then obtain s' own' F' where r: "map_pages_loop root va pa sz fl x4 (i + PAGE_SIZE) s2 = Inr (0, s')"
      "pt_mapped dynamic x4 root s2 own2 F2 s' own' F'"
      "card (missing (load64 (mem s')) x4 root W) + k \<le> card F'" by blast
    have "map_pages_loop root va pa sz fl x4 i s = Inr (0, s')"
      using True bk(1) mp(1) r(1) by (simp only: map_pages_loop.simps [of root va pa sz fl x4 i s]) simp
    with r pt_mapped_trans [OF pt_mapped_trans [OF bk(2) mp(2)] r(2)] show ?thesis by blast
  qed
qed

section \<open>Page numbers\<close>

text \<open>
  Two addresses are in the same page when their page numbers agree, and a range that does not wrap
  around occupies an interval of page numbers.
\<close>

definition vpn_count :: "bool \<Rightarrow> nat" where
  "vpn_count x4 = 2 ^ (if x4 then 29 else 27)"

definition vpn :: "bool \<Rightarrow> uint64 \<Rightarrow> nat" where
  "vpn x4 va = unat va div 4096 mod vpn_count x4"

lemma unat_va2idx:
  assumes "level \<le> 2"
  shows "unat (va2idx va level x4) = unat va div 2 ^ (level * 9 + 12) mod 2 ^ (if level = 2 \<and> x4 then 11 else 9)"
  unfolding va2idx_eq [OF assms] unsigned_take_bit_eq unat_drop_bit_eq
  by (simp only: take_bit_eq_mod drop_bit_eq_div)

lemma va2idx_vpn:
  "unat (va2idx va 2 x4) = vpn x4 va div 2 ^ 18"
  "unat (va2idx va 1 x4) = vpn x4 va div 2 ^ 9 mod 2 ^ 9"
  "unat (va2idx va 0 x4) = vpn x4 va mod 2 ^ 9"
proof -
  define n where "n = unat va div 4096"
  have d: "unat va div 2 ^ (9 + 12) = n div 2 ^ 9" "unat va div 2 ^ (2 * 9 + 12) = n div 2 ^ 18" "unat va div 2 ^ 12 = n"
    by (simp_all add: n_def flip: div_mult2_eq)
  have m: "n mod 2 ^ (b + a) div 2 ^ b = n div 2 ^ b mod 2 ^ a" "n mod 2 ^ (b + a) mod 2 ^ b = n mod 2 ^ b" for a b :: nat
    by (simp_all add: power_add mod_mult2_eq)
  have v: "vpn x4 va = n mod 2 ^ (if x4 then 29 else 27)" by (simp add: vpn_def n_def vpn_count_def)
  show "unat (va2idx va 2 x4) = vpn x4 va div 2 ^ 18"
    using m(1) [of 18 11] m(1) [of 18 9] by (simp add: unat_va2idx v d(2) [simplified])
  show "unat (va2idx va 0 x4) = vpn x4 va mod 2 ^ 9"
    using m(2) [of 9 20] m(2) [of 9 18] by (simp add: unat_va2idx v d(3) [simplified])
  have "vpn x4 va div 2 ^ 9 = n div 2 ^ 9 mod 2 ^ (9 + (if x4 then 11 else 9))"
    using m(1) [of 9 20] m(1) [of 9 18] by (simp add: v)
  then have "vpn x4 va div 2 ^ 9 mod 2 ^ 9 = n div 2 ^ 9 mod 2 ^ 9"
    by (simp add: power_add mod_mult2_eq)
  then show "unat (va2idx va 1 x4) = vpn x4 va div 2 ^ 9 mod 2 ^ 9"
    using d(1) by (simp add: unat_va2idx)
qed

lemma div_mod_eqI: "a div c = b div c \<Longrightarrow> a mod c = b mod c \<Longrightarrow> a = b" for a b c :: nat
  by (metis div_mult_mod_eq)

lemma same_page_vpn: "same_page x4 a b \<longleftrightarrow> vpn x4 a = vpn x4 b"
proof
  assume "same_page x4 a b"
  then have v: "va2idx a 2 x4 = va2idx b 2 x4" "va2idx a 1 x4 = va2idx b 1 x4" "va2idx a 0 x4 = va2idx b 0 x4"
    by (simp_all add: same_page_def)
  have i: "vpn x4 a div 2 ^ 18 = vpn x4 b div 2 ^ 18" "vpn x4 a div 2 ^ 9 mod 2 ^ 9 = vpn x4 b div 2 ^ 9 mod 2 ^ 9"
    "vpn x4 a mod 2 ^ 9 = vpn x4 b mod 2 ^ 9"
    unfolding va2idx_vpn [symmetric] v by (rule refl)+
  have up: "n div 2 ^ 9 div 2 ^ 9 = n div 2 ^ 18" for n :: nat by (simp flip: div_mult2_eq)
  have "vpn x4 a div 2 ^ 9 = vpn x4 b div 2 ^ 9" by (rule div_mod_eqI [where c = "2 ^ 9"]) (simp_all only: up i)
  then show "vpn x4 a = vpn x4 b" by (rule div_mod_eqI) (rule i(3))
next
  assume "vpn x4 a = vpn x4 b"
  then have "unat (va2idx a l x4) = unat (va2idx b l x4)" if "l \<in> {0, 1, 2}" for l
    using that by (elim insertE emptyE) (simp_all only: va2idx_vpn)
  then show "same_page x4 a b" by (simp add: same_page_def word_unat_eq_iff)
qed

lemma vpn_add:
  assumes "take_bit 12 j = 0" "vpn x4 va + unat j div 4096 < vpn_count x4"
  shows "vpn x4 (va + j) = vpn x4 va + unat j div 4096"
proof -
  obtain m where m: "unat j = 4096 * m" using assms(1) by (auto simp: aligned_unat_mod)
  have "unat (va + j) div 4096 = (unat va + 4096 * m) mod 2 ^ 64 div 4096" by (simp add: unat_word_ariths m)
  also have "\<dots> = (unat va div 4096 + m) mod 2 ^ 52"
  proof -
    have "(2 :: nat) ^ 64 = 4096 * 2 ^ 52" by simp
    then have "(unat va + 4096 * m) mod 2 ^ 64 div 4096 = (unat va + 4096 * m) div 4096 mod 2 ^ 52"
      by (simp only: mod_mult2_eq)
    then show ?thesis by (simp add: add.commute)
  qed
  finally have "vpn x4 (va + j) = (unat va div 4096 + m) mod 2 ^ 52 mod vpn_count x4" by (simp add: vpn_def)
  also have "\<dots> = (unat va div 4096 + m) mod vpn_count x4"
    by (rule mod_mod_cancel) (auto simp: vpn_count_def intro: le_imp_power_dvd)
  also have "\<dots> = (vpn x4 va + m) mod vpn_count x4" by (simp add: vpn_def mod_add_left_eq)
  also have "\<dots> = vpn x4 va + m" using assms(2) m by simp
  finally show ?thesis using m by simp
qed

definition pages :: "uint64 \<Rightarrow> nat" where
  "pages sz = unat (PGROUNDUP sz) div 4096"

lemma pages_eq: "unat x < 2 ^ 63 \<Longrightarrow> pages x = (unat x + 4095) div 4096"
proof -
  assume "unat x < 2 ^ 63"
  then have "unat (x + 4095) = unat x + 4095" by (simp add: unat_word_ariths)
  moreover have "unat (PGROUNDDOWN y) = unat y div 4096 * 4096" for y
  proof -
    have "unat (PGROUNDDOWN y) = unat y div 4096 * 4096 mod 2 ^ 64"
      unfolding PGROUNDDOWN_eq unsigned_push_bit_eq unat_drop_bit_eq
      by (simp only: take_bit_eq_mod push_bit_eq_mult drop_bit_eq_div) simp
    moreover have "unat y div 4096 * 4096 < 2 ^ 64"
      using unat_less_length [of y] div_times_less_eq_dividend [of "unat y" 4096] by simp
    ultimately show ?thesis by simp
  qed
  ultimately show ?thesis by (simp add: pages_def PGROUNDUP_eq)
qed

text \<open>The page numbers of a range.\<close>

abbreviation span :: "bool \<Rightarrow> uint64 \<Rightarrow> uint64 \<Rightarrow> nat set" where
  "span x4 va sz \<equiv> {vpn x4 va ..< vpn x4 va + pages sz}"

definition fits :: "bool \<Rightarrow> uint64 \<Rightarrow> uint64 \<Rightarrow> bool" where
  "fits x4 va sz \<longleftrightarrow> vpn x4 va + pages sz \<le> vpn_count x4"

lemma page_offset_pages:
  assumes "j \<in> page_offsets 0 sz"
  shows "unat j div 4096 < pages sz" "take_bit 12 j = 0"
proof -
  have al: "take_bit 12 j = 0" and less: "unat j < unat (PGROUNDUP sz)"
    using assms by (simp_all add: page_offsets_def word_less_nat_alt)
  show "take_bit 12 j = 0" by (rule al)
  have "4096 dvd unat j" using al unfolding aligned_unat_mod by (rule mod_0_imp_dvd)
  moreover have "4096 dvd unat (PGROUNDUP sz)"
    using PGROUNDUP_aligned [of sz] unfolding aligned_unat_mod by (rule mod_0_imp_dvd)
  ultimately show "unat j div 4096 < pages sz" using less by (auto simp: pages_def elim!: dvdE)
qed

lemma page_offset_inj:
  assumes "j \<in> page_offsets 0 sz" "j' \<in> page_offsets 0 sz" "unat j div 4096 = unat j' div 4096"
  shows "j = j'"
proof -
  have "unat j mod 4096 = 0" "unat j' mod 4096 = 0"
    using assms(1,2) page_offset_pages(2) unfolding aligned_unat_mod [symmetric] by blast+
  then have "unat j mod 4096 = unat j' mod 4096" by (simp only:)
  with assms(3) have "unat j = unat j'" by (rule div_mod_eqI)
  then show ?thesis by (simp only: word_unat_eq_iff)
qed

lemma fits_vpn:
  assumes "fits x4 va sz" "j \<in> page_offsets 0 sz"
  shows "vpn x4 (va + j) = vpn x4 va + unat j div 4096"
  by (rule vpn_add) (use page_offset_pages [OF assms(2)] assms(1) in \<open>auto simp: fits_def\<close>)

lemma fits_span: "fits x4 va sz \<Longrightarrow> j \<in> page_offsets 0 sz \<Longrightarrow> vpn x4 (va + j) \<in> span x4 va sz"
  using page_offset_pages [of j sz] by (simp add: fits_vpn)

lemma fits_separate:
  assumes "fits x4 va sz"
  shows "separate x4 va (page_offsets 0 sz)"
  unfolding separate_def same_page_vpn
proof (intro ballI impI)
  fix j j' assume j: "j \<in> page_offsets 0 sz" "j' \<in> page_offsets 0 sz" and "vpn x4 (va + j) = vpn x4 (va + j')"
  then have "unat j div 4096 = unat j' div 4096" by (simp add: fits_vpn [OF assms])
  with j show "j = j'" by (rule page_offset_inj)
qed

lemma card_page_offsets: "card (page_offsets 0 sz) \<le> pages sz"
proof -
  have "inj_on (\<lambda>j. unat j div 4096) (page_offsets 0 sz)"
    by (rule inj_onI) (rule page_offset_inj)
  moreover have "(\<lambda>j. unat j div 4096) ` page_offsets 0 sz \<subseteq> {..<pages sz}"
    using page_offset_pages(1) by auto
  ultimately show ?thesis using card_inj_on_le [of _ _ "{..<pages sz}"] by fastforce
qed

text \<open>A budget for all addresses below given root entries.\<close>

definition below_roots :: "bool \<Rightarrow> nat set \<Rightarrow> uint64 set" where
  "below_roots x4 A = {va. vpn x4 va div 2 ^ 18 \<in> A}"

lemma card_missing:
  assumes "finite A"
  shows "card (missing ld x4 root (below_roots x4 A)) \<le> 513 * card A"
proof -
  let ?f = "\<lambda>(a, b). if b = 512 then [of_nat a] else [of_nat a, of_nat b :: uint64]"
  have "missing ld x4 root (below_roots x4 A) \<subseteq> ?f ` (A \<times> {..512})"
  proof
    fix path assume "path \<in> missing ld x4 root (below_roots x4 A)"
    then obtain va where va: "vpn x4 va div 2 ^ 18 \<in> A" "path \<in> paths x4 va"
      using missing_paths by (fastforce simp: below_roots_def)
    let ?a = "vpn x4 va div 2 ^ 18" and ?b = "vpn x4 va div 2 ^ 9 mod 2 ^ 9"
    have "va2idx va 2 x4 = of_nat ?a" "va2idx va 1 x4 = of_nat ?b"
      unfolding va2idx_vpn [symmetric] by simp_all
    with va(2) have "path = ?f (?a, 512) \<or> path = ?f (?a, ?b)"
      using mod_less_divisor [of "2 ^ 9" "vpn x4 va div 2 ^ 9"] by (auto simp: paths_def)
    moreover have "?b \<in> {..512}" using mod_less_divisor [of "2 ^ 9" "vpn x4 va div 2 ^ 9"] by simp
    ultimately show "path \<in> ?f ` (A \<times> {..512})" using va(1) by blast
  qed
  then have "card (missing ld x4 root (below_roots x4 A)) \<le> card (?f ` (A \<times> {..512}))"
    by (rule card_mono [rotated]) (simp add: assms)
  also have "\<dots> \<le> card (A \<times> {..512 :: nat})" by (rule card_image_le) (simp add: assms)
  finally show ?thesis by (simp add: card_cartesian_product mult.commute)
qed

section \<open>Mapping regions\<close>

text \<open>The page numbers that a list of regions occupies.\<close>

definition occupied :: "bool \<Rightarrow> region list \<Rightarrow> nat set" where
  "occupied x4 rs = {vpn x4 w | w. \<exists>r \<in> set rs. \<exists>e. region_leaf x4 r w e}"

lemma occupied_append: "occupied x4 (rs @ rs') = occupied x4 rs \<union> occupied x4 rs'"
  by (auto simp: occupied_def)

lemma occupied_range: "fits x4 va sz \<Longrightarrow> occupied x4 [(va, fl, page_offsets 0 sz, back)] \<subseteq> span x4 va sz"
  using fits_span by (fastforce simp: occupied_def region_leaf_def same_page_vpn)

definition room ::
  "bool \<Rightarrow> uint64 \<Rightarrow> nat set \<Rightarrow> nat \<Rightarrow> kmem_state \<Rightarrow> uint64 set \<Rightarrow> bool" where
  "room x4 root A k s F \<longleftrightarrow> card (missing (load64 (mem s)) x4 root (below_roots x4 A)) + k \<le> card F"

lemma unoccupied:
  assumes "regions_mapped x4 root rs ld" "fits x4 va sz" "span x4 va sz \<inter> occupied x4 rs = {}"
    "j \<in> page_offsets 0 sz"
  shows "translation ld x4 2 root (va + j) = None"
proof (rule ccontr)
  assume "translation ld x4 2 root (va + j) \<noteq> None"
  then have "vpn x4 (va + j) \<in> occupied x4 rs" using assms(1) by (auto simp: regions_mapped_def occupied_def)
  with fits_span [OF assms(2,4)] assms(3) show False by blast
qed

text \<open>A range that is free, within the budget, is mapped, and joins the regions.\<close>

lemma map_range_total:
  assumes st: "pt_state dynamic x4 root s own F" and rm: "regions_mapped x4 root rs (load64 (mem s))"
    and fit: "fits x4 va sz" and disj: "span x4 va sz \<inter> occupied x4 rs = {}"
    and below: "\<forall>n \<in> span x4 va sz. n div 2 ^ 18 \<in> A"
    and b: "room x4 root A (k + (if pa = 0 then pages sz else 0)) s F"
  shows "\<exists>s' own' F'. map_pages root va pa sz fl x4 s = Inr (0, s') \<and>
    pt_mapped dynamic x4 root s own F s' own' F' \<and> room x4 root A k s' F'"
proof -
  have "va + j \<in> below_roots x4 A" if "j \<in> page_offsets 0 sz" for j
    using fits_span [OF fit that] below by (auto simp: below_roots_def)
  moreover have "card (missing (load64 (mem s)) x4 root (below_roots x4 A)) +
      (k + (if pa = 0 then card (page_offsets 0 sz) else 0)) \<le> card F"
    using b card_page_offsets [of sz] by (auto simp: room_def split: if_splits)
  ultimately show ?thesis
    using map_pages_loop_budget [OF st, of 0 sz va "below_roots x4 A" k pa fl] unoccupied [OF rm fit disj]
      fits_separate [OF fit] by (auto simp: map_pages_def room_def)
qed

lemma map_range_phys:
  assumes st: "pt_state dynamic x4 root s own F" and rm: "regions_mapped x4 root rs (load64 (mem s))"
    and fit: "fits x4 va sz" and disj: "span x4 va sz \<inter> occupied x4 rs = {}"
    and below: "\<forall>n \<in> span x4 va sz. n div 2 ^ 18 \<in> A" and b: "room x4 root A k s F" and pa: "pa \<noteq> 0"
  shows "\<exists>s' own' F'. map_pages root va pa sz fl x4 s = Inr (0, s') \<and>
    pt_mapped dynamic x4 root s own F s' own' F' \<and> room x4 root A k s' F' \<and>
    regions_mapped x4 root (rs @ [(va, fl, page_offsets 0 sz, \<lambda>j. pa + j)]) (load64 (mem s'))"
proof -
  obtain s' own' F' where r: "map_pages root va pa sz fl x4 s = Inr (0, s')"
    "pt_mapped dynamic x4 root s own F s' own' F'" "room x4 root A k s' F'"
    using map_range_total [OF st rm fit disj below, of k pa fl] b pa by auto
  have "range_mapped x4 root va fl (page_offsets 0 sz) (\<lambda>j. pa + j) (load64 (mem s)) (load64 (mem s'))"
    using map_pages_loop_phys [OF st pa] r(1) by (simp add: map_pages_def)
  with r regions_mapped_step [OF rm] show ?thesis by blast
qed

lemma map_range_fresh:
  assumes st: "pt_state dynamic x4 root s own F" and rm: "regions_mapped x4 root rs (load64 (mem s))"
    and fit: "fits x4 va sz" and disj: "span x4 va sz \<inter> occupied x4 rs = {}"
    and below: "\<forall>n \<in> span x4 va sz. n div 2 ^ 18 \<in> A" and b: "room x4 root A (k + pages sz) s F"
  shows "\<exists>s' own' F' g. map_pages root va 0 sz fl x4 s = Inr (0, s') \<and>
    pt_mapped dynamic x4 root s own F s' own' F' \<and> room x4 root A k s' F' \<and>
    fresh_backing (page_offsets 0 sz) F F' own' g \<and>
    regions_mapped x4 root (rs @ [(va, fl, page_offsets 0 sz, \<lambda>j. KPA2PA (g j))]) (load64 (mem s'))"
proof -
  obtain s' own1 F1 where r: "map_pages root va 0 sz fl x4 s = Inr (0, s')"
    "pt_mapped dynamic x4 root s own F s' own1 F1" "room x4 root A k s' F1"
    using map_range_total [OF st rm fit disj below, of k 0 fl] b by auto
  obtain own' F' g where m: "pt_mapped dynamic x4 root s own F s' own' F'"
    and g: "range_mapped x4 root va fl (page_offsets 0 sz) (\<lambda>j. KPA2PA (g j)) (load64 (mem s)) (load64 (mem s'))"
    and fb: "fresh_backing (page_offsets 0 sz) F F' own' g"
    using map_pages_loop_fresh [OF st refl r(1) [unfolded map_pages_def]] by blast
  have "F' = F1" using m r(2) free_set_unique by (auto simp: pt_mapped_def pt_state_def)
  with r m fb regions_mapped_step [OF rm g] show ?thesis by blast
qed

text \<open>One page, by \<open>map_page\<close>.\<close>

lemma map_page_as_range:
  assumes "pt_state dynamic x4 root s own F" "pa \<noteq> 0" "map_pages root va pa PAGE_SIZE fl x4 s = Inr (rv, s')"
  shows "map_page root va pa fl x4 s = Inr (0, s')"
proof -
  have p: "0 < PGROUNDUP PAGE_SIZE" "\<not> 0 + PAGE_SIZE < PGROUNDUP PAGE_SIZE"
    by (simp_all add: PGROUNDUP_def layout_defs)
  have last: "map_pages_loop root va pa PAGE_SIZE fl x4 (0 + PAGE_SIZE) s1 = Inr (0, s1)" for s1
    by (subst map_pages_loop.simps) (simp only: p if_False)
  have "map_pages root va pa PAGE_SIZE fl x4 s =
      bindE (map_page root (va + 0) (pa + 0) fl x4 s) (\<lambda>(r, s1). if r < 0 then Inr (- 1, s1) else Inr (0, s1))"
    unfolding map_pages_def
    by (subst map_pages_loop.simps) (simp only: p assms(2) last if_True if_False bindE_Inr prod.case)
  with assms(3) obtain r where "map_page root va pa fl x4 s = Inr (r, s')"
    by (auto simp: bindE_eq_Inr_iff split: if_splits)
  with map_page_translation(1) [OF assms(1)] show ?thesis by blast
qed

section \<open>Placing regions\<close>

text \<open>
  A range is placed in a list of occupied intervals of page numbers when it overlaps none of them
  and lies below one of the root entries \<open>A\<close>.
\<close>

definition place :: "bool \<Rightarrow> nat set \<Rightarrow> (nat \<times> nat) list \<Rightarrow> uint64 \<Rightarrow> uint64 \<Rightarrow> bool" where
  "place x4 A occ va sz \<longleftrightarrow>
     fits x4 va sz \<and> (\<forall>(c, d) \<in> set occ. vpn x4 va + pages sz \<le> c \<or> d \<le> vpn x4 va) \<and>
     (\<exists>r \<in> A. r * 2 ^ 18 \<le> vpn x4 va \<and> vpn x4 va + pages sz \<le> (r + 1) * 2 ^ 18)"

definition space ::
  "uint64 \<Rightarrow> bool \<Rightarrow> uint64 \<Rightarrow> nat set \<Rightarrow> nat \<Rightarrow> region list \<Rightarrow> (nat \<times> nat) list \<Rightarrow>
     kmem_state \<Rightarrow> (uint64 \<rightharpoonup> uint64 list) \<Rightarrow> uint64 set \<Rightarrow> bool" where
  "space dynamic x4 root A k rs occ s own F \<longleftrightarrow>
     pt_state dynamic x4 root s own F \<and> regions_mapped x4 root rs (load64 (mem s)) \<and>
     occupied x4 rs \<subseteq> (\<Union>(c, d) \<in> set occ. {c ..< d}) \<and> room x4 root A k s F"

lemma placeD:
  assumes "place x4 A occ va sz" "occupied x4 rs \<subseteq> (\<Union>(c, d) \<in> set occ. {c ..< d})"
  shows "fits x4 va sz" "span x4 va sz \<inter> occupied x4 rs = {}" "\<forall>n \<in> span x4 va sz. n div 2 ^ 18 \<in> A"
    "occupied x4 (rs @ [(va, fl, page_offsets 0 sz, back)]) \<subseteq>
      (\<Union>(c, d) \<in> set ((vpn x4 va, vpn x4 va + pages sz) # occ). {c ..< d})"
proof -
  show fit: "fits x4 va sz" using assms(1) by (simp add: place_def)
  show "span x4 va sz \<inter> occupied x4 rs = {}"
  proof (rule ccontr)
    assume "span x4 va sz \<inter> occupied x4 rs \<noteq> {}"
    then obtain n c d where "n \<in> span x4 va sz" "(c, d) \<in> set occ" "n \<in> {c ..< d}" using assms(2) by fastforce
    moreover from this(2) assms(1) have "vpn x4 va + pages sz \<le> c \<or> d \<le> vpn x4 va" by (auto simp: place_def)
    ultimately show False by simp
  qed
  obtain r where r: "r \<in> A" "r * 2 ^ 18 \<le> vpn x4 va" "vpn x4 va + pages sz \<le> (r + 1) * 2 ^ 18"
    using assms(1) by (auto simp: place_def)
  have "n div 2 ^ 18 = r" if "n \<in> span x4 va sz" for n
    by (rule div_nat_eqI) (use that r in \<open>auto simp: algebra_simps\<close>)
  with r(1) show "\<forall>n \<in> span x4 va sz. n div 2 ^ 18 \<in> A" by blast
  show "occupied x4 (rs @ [(va, fl, page_offsets 0 sz, back)]) \<subseteq>
      (\<Union>(c, d) \<in> set ((vpn x4 va, vpn x4 va + pages sz) # occ). {c ..< d})"
    unfolding occupied_append using assms(2) occupied_range [OF fit, of fl "back"] by fastforce
qed

lemma map_pages_space:
  assumes sp: "space dynamic x4 root A k rs occ s own F" and pl: "place x4 A occ va sz" and pa: "pa \<noteq> 0"
  shows "\<exists>s' own' F'. map_pages root va pa sz fl x4 s = Inr (0, s') \<and>
    pt_mapped dynamic x4 root s own F s' own' F' \<and>
    space dynamic x4 root A k (rs @ [(va, fl, page_offsets 0 sz, \<lambda>j. pa + j)])
      ((vpn x4 va, vpn x4 va + pages sz) # occ) s' own' F'"
proof -
  have st: "pt_state dynamic x4 root s own F" and rm: "regions_mapped x4 root rs (load64 (mem s))"
    and oc: "occupied x4 rs \<subseteq> (\<Union>(c, d) \<in> set occ. {c ..< d})" and b: "room x4 root A k s F"
    using sp by (simp_all add: space_def)
  note P = placeD [OF pl oc]
  obtain s' own' F' where r: "map_pages root va pa sz fl x4 s = Inr (0, s')"
    "pt_mapped dynamic x4 root s own F s' own' F'" "room x4 root A k s' F'"
    "regions_mapped x4 root (rs @ [(va, fl, page_offsets 0 sz, \<lambda>j. pa + j)]) (load64 (mem s'))"
    using map_range_phys [OF st rm P(1-3) b pa] by blast
  moreover have "pt_state dynamic x4 root s' own' F'" using r(2) by (simp add: pt_mapped_def)
  ultimately show ?thesis using P(4) unfolding space_def by blast
qed

lemma map_pages_fresh_space:
  assumes sp: "space dynamic x4 root A (k + pages sz) rs occ s own F" and pl: "place x4 A occ va sz"
  shows "\<exists>s' own' F' g. map_pages root va 0 sz fl x4 s = Inr (0, s') \<and>
    pt_mapped dynamic x4 root s own F s' own' F' \<and> fresh_backing (page_offsets 0 sz) F F' own' g \<and>
    space dynamic x4 root A k (rs @ [(va, fl, page_offsets 0 sz, \<lambda>j. KPA2PA (g j))])
      ((vpn x4 va, vpn x4 va + pages sz) # occ) s' own' F'"
proof -
  have st: "pt_state dynamic x4 root s own F" and rm: "regions_mapped x4 root rs (load64 (mem s))"
    and oc: "occupied x4 rs \<subseteq> (\<Union>(c, d) \<in> set occ. {c ..< d})" and b: "room x4 root A (k + pages sz) s F"
    using sp by (simp_all add: space_def)
  note P = placeD [OF pl oc]
  obtain s' own' F' g where r: "map_pages root va 0 sz fl x4 s = Inr (0, s')"
    "pt_mapped dynamic x4 root s own F s' own' F'" "room x4 root A k s' F'"
    "fresh_backing (page_offsets 0 sz) F F' own' g"
    "regions_mapped x4 root (rs @ [(va, fl, page_offsets 0 sz, \<lambda>j. KPA2PA (g j))]) (load64 (mem s'))"
    using map_range_fresh [OF st rm P(1-3) b] by blast
  moreover have "pt_state dynamic x4 root s' own' F'" using r(2) by (simp add: pt_mapped_def)
  ultimately show ?thesis using P(4) unfolding space_def by blast
qed

lemma map_page_space:
  assumes sp: "space dynamic x4 root A k rs occ s own F" and pl: "place x4 A occ va PAGE_SIZE" and pa: "pa \<noteq> 0"
  shows "\<exists>s' own' F'. map_page root va pa fl x4 s = Inr (0, s') \<and>
    pt_mapped dynamic x4 root s own F s' own' F' \<and>
    space dynamic x4 root A k (rs @ [(va, fl, page_offsets 0 PAGE_SIZE, \<lambda>j. pa + j)])
      ((vpn x4 va, vpn x4 va + pages PAGE_SIZE) # occ) s' own' F'"
proof -
  have "pt_state dynamic x4 root s own F" using sp by (simp add: space_def)
  with map_pages_space [OF sp pl pa, of fl] map_page_as_range [OF _ pa] show ?thesis by blast
qed

text \<open>An empty table has room for \<open>513\<close> tables per root entry.\<close>

lemma empty_space:
  assumes "pt_state dynamic x4 root s own F" "\<And>va. translation (load64 (mem s)) x4 2 root va = None"
    "finite A" "513 * card A + k \<le> card F"
  shows "space dynamic x4 root A k [] [] s own F"
  using assms card_missing [OF assms(3), of "load64 (mem s)" x4 root]
  by (auto simp: space_def regions_mapped_def occupied_def room_def)

text \<open>Ranges placed one after the other.\<close>

fun placed :: "bool \<Rightarrow> nat set \<Rightarrow> (nat \<times> nat) list \<Rightarrow> (uint64 \<times> uint64) list \<Rightarrow> bool" where
  "placed x4 A occ [] \<longleftrightarrow> True"
| "placed x4 A occ ((va, sz) # rest) \<longleftrightarrow>
     place x4 A occ va sz \<and> placed x4 A ((vpn x4 va, vpn x4 va + pages sz) # occ) rest"

definition intervals :: "bool \<Rightarrow> (uint64 \<times> uint64) list \<Rightarrow> (nat \<times> nat) list" where
  "intervals x4 rows = rev (map (\<lambda>(va, sz). (vpn x4 va, vpn x4 va + pages sz)) rows)"

section \<open>Translating through a region\<close>

lemma same_page_drop_bit: "drop_bit 12 a = drop_bit 12 b \<Longrightarrow> same_page x4 a b"
proof -
  assume "drop_bit 12 a = drop_bit 12 b"
  then have "drop_bit (n + 12) a = drop_bit (n + 12) b" for n by (simp only: drop_bit_drop_bit [symmetric])
  then have "va2idx a l x4 = va2idx b l x4" if "l \<le> 2" for l by (simp only: va2idx_eq [OF that])
  then show ?thesis by (simp add: same_page_def)
qed

text \<open>An address of a mapped region is translated to the same offset of the memory behind it.\<close>

lemma region_convert:
  assumes st: "pt_state dynamic x4 root s own F" and rm: "regions_mapped x4 root rs (load64 (mem s))"
    and r: "(va, fl, page_offsets 0 sz, \<lambda>j. pa + j) \<in> set rs"
    and al: "take_bit 12 va = 0" "take_bit 12 pa = 0" and fl: "u64_of_int fl < 1024" and x: "x < PGROUNDUP sz"
  shows "convert_va_to_pa root (va + x) x4 s = Inr (pa + x)"
proof -
  define j where "j = PGROUNDDOWN x"
  define t where "t = take_bit 12 x"
  have t: "t < 4096" using take_bit_less_two_power [of 12 x] by (simp add: t_def)
  have jal: "take_bit 12 j = 0" by (simp add: j_def)
  have "j OR t = x" using bits_split [of 12 x] by (simp add: j_def t_def PGROUNDDOWN_eq)
  then have xj: "x = j + t" using aligned_add_eq_or [OF jal, of t] t by simp
  have av: "take_bit 12 (va + j) = 0" "take_bit 12 (pa + j) = 0"
    by (rule take_bit_add_aligned [OF al(1) jal], rule take_bit_add_aligned [OF al(2) jal])
  have "j \<le> x" unfolding j_def PGROUNDDOWN_def by (rule word_and_le2)
  then have J: "j \<in> page_offsets 0 sz" using x jal by (auto simp: page_offsets_def)
  have "drop_bit 12 (va + j + t) = drop_bit 12 (va + j)" by (rule aligned_add_drop_bit [OF av(1)]) (use t in simp)
  then have "same_page x4 (va + j) (va + x)" by (intro same_page_drop_bit) (simp add: xj add.assoc)
  then have "region_leaf x4 (va, fl, page_offsets 0 sz, \<lambda>j. pa + j) (va + x) (PA2PTE (pa + j) OR u64_of_int fl OR PTE_V)"
    using J by (auto simp: region_leaf_def)
  then have "translation (load64 (mem s)) x4 2 root (va + x) = Some (PA2PTE (pa + j) OR u64_of_int fl OR PTE_V)"
    using rm r unfolding regions_mapped_def by blast
  from convert_va_to_pa_mapped [OF st this]
  have "convert_va_to_pa root (va + x) x4 s = Inr (PGROUNDDOWN (pa + j) OR take_bit 12 (va + x))"
    by (simp only: PTE2PA_leaf [OF fl])
  moreover have "take_bit 12 (va + x) = t"
  proof -
    have "va + x = va + j OR t" using aligned_add_eq_or [OF av(1), of t] t by (simp add: xj add.assoc)
    then have "take_bit 12 (va + x) = take_bit 12 (va + j) OR take_bit 12 t" by (simp only: take_bit_or)
    then show ?thesis by (simp only: av or.left_neutral) (simp add: t_def)
  qed
  moreover have "PGROUNDDOWN (pa + j) OR t = pa + x"
    using aligned_add_eq_or [OF av(2), of t] t by (simp add: PGROUNDDOWN_id [OF av(2)] xj add.assoc)
  ultimately show ?thesis by simp
qed

end
