(* ===== verification/Riscv.thy ===== *)
theory Riscv
  imports Prelude
begin

text \<open>
  The control and status registers the code touches and the constants of
  \<^verbatim>\<open>src/src/include/riscv.h\<close>. A register file holds, per register, the value the code wrote last;
  the macros \<^verbatim>\<open>CSRW\<close>, \<^verbatim>\<open>CSRS\<close> and \<^verbatim>\<open>CSRC\<close> write it, set bits and clear bits.
\<close>

section \<open>Constants\<close>

definition XLEN_64 :: uint64 where [csr_defs]: "XLEN_64 = 2"
definition STATUS_SPP :: uint64 where [csr_defs]: "STATUS_SPP = push_bit 8 1"
definition TVEC_MODE :: uint64 where [csr_defs]: "TVEC_MODE = 3"
definition TVEC_MODE_DIRECT :: uint64 where [csr_defs]: "TVEC_MODE_DIRECT = 0"

definition INT_SUPERVISOR_SW :: nat where [csr_defs]: "INT_SUPERVISOR_SW = 1"
definition INT_VIRTUAL_SUPERVISOR_SW :: nat where [csr_defs]: "INT_VIRTUAL_SUPERVISOR_SW = 2"
definition INT_MACHINE_SW :: nat where [csr_defs]: "INT_MACHINE_SW = 3"
definition INT_SUPERVISOR_TIM :: nat where [csr_defs]: "INT_SUPERVISOR_TIM = 5"
definition INT_VIRTUAL_SUPERVISOR_TIM :: nat where [csr_defs]: "INT_VIRTUAL_SUPERVISOR_TIM = 6"
definition INT_MACHINE_TIM :: nat where [csr_defs]: "INT_MACHINE_TIM = 7"
definition INT_SUPERVISOR_EXT :: nat where [csr_defs]: "INT_SUPERVISOR_EXT = 9"
definition INT_VIRTUAL_SUPERVISOR_EXT :: nat where [csr_defs]: "INT_VIRTUAL_SUPERVISOR_EXT = 10"
definition INT_MACHINE_EXT :: nat where [csr_defs]: "INT_MACHINE_EXT = 11"
definition INT_SUPERVISOR_GUEST_EXT :: nat where [csr_defs]: "INT_SUPERVISOR_GUEST_EXT = 12"

definition INT_SSI :: uint64 where [csr_defs]: "INT_SSI = push_bit INT_SUPERVISOR_SW 1"
definition INT_VSSI :: uint64 where [csr_defs]: "INT_VSSI = push_bit INT_VIRTUAL_SUPERVISOR_SW 1"
definition INT_MSI :: uint64 where [csr_defs]: "INT_MSI = push_bit INT_MACHINE_SW 1"
definition INT_STI :: uint64 where [csr_defs]: "INT_STI = push_bit INT_SUPERVISOR_TIM 1"
definition INT_VSTI :: uint64 where [csr_defs]: "INT_VSTI = push_bit INT_VIRTUAL_SUPERVISOR_TIM 1"
definition INT_MTI :: uint64 where [csr_defs]: "INT_MTI = push_bit INT_MACHINE_TIM 1"
definition INT_SEI :: uint64 where [csr_defs]: "INT_SEI = push_bit INT_SUPERVISOR_EXT 1"
definition INT_VSEI :: uint64 where [csr_defs]: "INT_VSEI = push_bit INT_VIRTUAL_SUPERVISOR_EXT 1"
definition INT_MEI :: uint64 where [csr_defs]: "INT_MEI = push_bit INT_MACHINE_EXT 1"
definition INT_SGEI :: uint64 where [csr_defs]: "INT_SGEI = push_bit INT_SUPERVISOR_GUEST_EXT 1"

definition COUNT_TM :: uint64 where [csr_defs]: "COUNT_TM = push_bit 1 1"

definition EXC_INSTRUCTION_ADDR_MISALIGNED :: nat where [csr_defs]: "EXC_INSTRUCTION_ADDR_MISALIGNED = 0"
definition EXC_INSTRUCTION_ACCESS_FAULT :: nat where [csr_defs]: "EXC_INSTRUCTION_ACCESS_FAULT = 1"
definition EXC_ILLEGAL_INSTRUCTION :: nat where [csr_defs]: "EXC_ILLEGAL_INSTRUCTION = 2"
definition EXC_BREAKPOINT :: nat where [csr_defs]: "EXC_BREAKPOINT = 3"
definition EXC_LOAD_ADDR_MISALIGNED :: nat where [csr_defs]: "EXC_LOAD_ADDR_MISALIGNED = 4"
definition EXC_LOAD_ACCESS_FAULT :: nat where [csr_defs]: "EXC_LOAD_ACCESS_FAULT = 5"
definition EXC_STORE_OR_AMO_ADDRESS_MISALIGNED :: nat where [csr_defs]: "EXC_STORE_OR_AMO_ADDRESS_MISALIGNED = 6"
definition EXC_STORE_OR_AMO_ACCESS_FAULT :: nat where [csr_defs]: "EXC_STORE_OR_AMO_ACCESS_FAULT = 7"
definition EXC_ECALL_FROM_U :: nat where [csr_defs]: "EXC_ECALL_FROM_U = 8"
definition EXC_ECALL_FROM_HS :: nat where [csr_defs]: "EXC_ECALL_FROM_HS = 9"
definition EXC_ECALL_FROM_VS :: nat where [csr_defs]: "EXC_ECALL_FROM_VS = 10"
definition EXC_ECALL_FROM_M :: nat where [csr_defs]: "EXC_ECALL_FROM_M = 11"
definition EXC_INSTRUCTION_PAGE_FAULT :: nat where [csr_defs]: "EXC_INSTRUCTION_PAGE_FAULT = 12"
definition EXC_LOAD_PAGE_FAULT :: nat where [csr_defs]: "EXC_LOAD_PAGE_FAULT = 13"
definition EXC_STORE_OR_AMO_PAGE_FAULT :: nat where [csr_defs]: "EXC_STORE_OR_AMO_PAGE_FAULT = 15"
definition EXC_INSTRUCTION_GUEST_PAGE_FAULT :: nat where [csr_defs]: "EXC_INSTRUCTION_GUEST_PAGE_FAULT = 20"
definition EXC_LOAD_GUEST_PAGE_FAULT :: nat where [csr_defs]: "EXC_LOAD_GUEST_PAGE_FAULT = 21"
definition EXC_VIRTUAL_INSTRUCTION :: nat where [csr_defs]: "EXC_VIRTUAL_INSTRUCTION = 22"
definition EXC_STORE_OR_AMO_GUEST_PAGE_FAULT :: nat where [csr_defs]: "EXC_STORE_OR_AMO_GUEST_PAGE_FAULT = 23"

definition CAUSE_INT :: uint64 where [csr_defs]: "CAUSE_INT = push_bit 63 1"
definition ATP_MODE_SV39 :: uint64 where [csr_defs]: "ATP_MODE_SV39 = push_bit 60 8"
definition SSTATUS_SPP :: uint64 where [csr_defs]: "SSTATUS_SPP = STATUS_SPP"
definition SIE_STIE :: uint64 where [csr_defs]: "SIE_STIE = INT_STI"
definition SIE_SEIE :: uint64 where [csr_defs]: "SIE_SEIE = INT_SEI"
definition HSTATUS_SPV :: uint64 where [csr_defs]: "HSTATUS_SPV = push_bit 7 1"
definition HSTATUS_VSXL_64 :: uint64 where [csr_defs]: "HSTATUS_VSXL_64 = push_bit 32 XLEN_64"
definition HEDELEG_INSTRUCTION_ADDR_MISALIGNED :: uint64 where [csr_defs]: "HEDELEG_INSTRUCTION_ADDR_MISALIGNED = push_bit EXC_INSTRUCTION_ADDR_MISALIGNED 1"
definition HEDELEG_INSTRUCTION_ACCESS_FAULT :: uint64 where [csr_defs]: "HEDELEG_INSTRUCTION_ACCESS_FAULT = push_bit EXC_INSTRUCTION_ACCESS_FAULT 1"
definition HEDELEG_ILLEGAL_INSTRUCTION :: uint64 where [csr_defs]: "HEDELEG_ILLEGAL_INSTRUCTION = push_bit EXC_ILLEGAL_INSTRUCTION 1"
definition HEDELEG_BREAKPOINT :: uint64 where [csr_defs]: "HEDELEG_BREAKPOINT = push_bit EXC_BREAKPOINT 1"
definition HEDELEG_LOAD_ADDR_MISALIGNED :: uint64 where [csr_defs]: "HEDELEG_LOAD_ADDR_MISALIGNED = push_bit EXC_LOAD_ADDR_MISALIGNED 1"
definition HEDELEG_LOAD_ACCESS_FAULT :: uint64 where [csr_defs]: "HEDELEG_LOAD_ACCESS_FAULT = push_bit EXC_LOAD_ACCESS_FAULT 1"
definition HEDELEG_STORE_OR_AMO_ADDRESS_MISALIGNED :: uint64 where [csr_defs]: "HEDELEG_STORE_OR_AMO_ADDRESS_MISALIGNED = push_bit EXC_STORE_OR_AMO_ADDRESS_MISALIGNED 1"
definition HEDELEG_STORE_OR_AMO_ACCESS_FAULT :: uint64 where [csr_defs]: "HEDELEG_STORE_OR_AMO_ACCESS_FAULT = push_bit EXC_STORE_OR_AMO_ACCESS_FAULT 1"
definition HEDELEG_ECALL_FROM_U :: uint64 where [csr_defs]: "HEDELEG_ECALL_FROM_U = push_bit EXC_ECALL_FROM_U 1"
definition HEDELEG_INSTRUCTION_PAGE_FAULT :: uint64 where [csr_defs]: "HEDELEG_INSTRUCTION_PAGE_FAULT = push_bit EXC_INSTRUCTION_PAGE_FAULT 1"
definition HEDELEG_LOAD_PAGE_FAULT :: uint64 where [csr_defs]: "HEDELEG_LOAD_PAGE_FAULT = push_bit EXC_LOAD_PAGE_FAULT 1"
definition HEDELEG_STORE_OR_AMO_PAGE_FAULT :: uint64 where [csr_defs]: "HEDELEG_STORE_OR_AMO_PAGE_FAULT = push_bit EXC_STORE_OR_AMO_PAGE_FAULT 1"

definition HIDELEG_VSSI :: uint64 where [csr_defs]: "HIDELEG_VSSI = INT_VSSI"
definition HIDELEG_VSTI :: uint64 where [csr_defs]: "HIDELEG_VSTI = INT_VSTI"
definition HIDELEG_VSEI :: uint64 where [csr_defs]: "HIDELEG_VSEI = INT_VSEI"
definition HVIP_VSSIP :: uint64 where [csr_defs]: "HVIP_VSSIP = INT_VSSI"
definition HVIP_VSTIP :: uint64 where [csr_defs]: "HVIP_VSTIP = INT_VSTI"
definition HVIP_VSEIP :: uint64 where [csr_defs]: "HVIP_VSEIP = INT_VSEI"
definition HENVCFG_SSTC :: uint64 where [csr_defs]: "HENVCFG_SSTC = push_bit 63 1"
definition HENVCFG_ADUE :: uint64 where [csr_defs]: "HENVCFG_ADUE = push_bit 61 1"
definition HCOUNTEREN_TM :: uint64 where [csr_defs]: "HCOUNTEREN_TM = COUNT_TM"

section \<open>The register file\<close>

text \<open>The register \<^verbatim>\<open>time\<close> is a free-running counter: its value at the moment it is read.\<close>

record csr_file =
  sstatus :: uint64
  sie :: uint64
  stvec :: uint64
  sscratch :: uint64
  sepc :: uint64
  satp :: uint64
  stimecmp :: uint64
  hgatp :: uint64
  hstatus :: uint64
  hedeleg :: uint64
  hideleg :: uint64
  hvip :: uint64
  hip :: uint64
  hie :: uint64
  hgeie :: uint64
  hcounteren :: uint64
  htimedelta :: uint64
  htval :: uint64
  htinst :: uint64
  henvcfg :: uint64
  vsstatus :: uint64
  vsip :: uint64
  vsie :: uint64
  vstvec :: uint64
  vsscratch :: uint64
  vsepc :: uint64
  vscause :: uint64
  vstval :: uint64
  vsatp :: uint64
  vstimecmp :: uint64
  time :: uint64

text \<open>
  Setting and clearing the bits of a mask, as the instructions \<^verbatim>\<open>csrs\<close> and \<^verbatim>\<open>csrc\<close> do. A register
  read is its record field and \<^verbatim>\<open>CSRW\<close> is a record update.
\<close>

definition CSRS :: "uint64 \<Rightarrow> uint64 \<Rightarrow> uint64" where
  "CSRS old msk = old OR msk"

definition CSRC :: "uint64 \<Rightarrow> uint64 \<Rightarrow> uint64" where
  "CSRC old msk = old AND NOT msk"

lemma CSRC_CSRS_bit: "bit (CSRS old msk) n \<longleftrightarrow> bit old n \<or> bit msk n"
  "bit (CSRC old msk) n \<longleftrightarrow> bit old n \<and> \<not> bit msk n" if "n < 64"
  using that by (simp_all add: CSRS_def CSRC_def bit_simps)

end
