(* ===== verification/World_Switch.thy ===== *)
theory World_Switch
  imports Memory
begin

text \<open>
  The world switch of \<^verbatim>\<open>src/src/core/trap.S\<close>: the macros \<^verbatim>\<open>VM_EXIT\<close> and \<^verbatim>\<open>VM_ENTER\<close> as instruction
  lists of a small machine with 32 registers, the register \<^verbatim>\<open>sscratch\<close> and kernel memory. The
  lemmas show that leaving a guest stores all of its registers in the save area and that entering
  it again restores them, whatever the hypervisor did with the registers in between.
\<close>

section \<open>The machine\<close>

datatype asm =
    Csrr nat
  | Csrrw nat
  | Ld nat nat nat
  | Sd nat nat nat
  | Mv nat nat
  | Li nat uint64
  | Sret

record machine =
  xregs :: "uint64 list"
  scratch :: uint64
  mmem :: memory

text \<open>Register 0 is hard-wired to zero.\<close>

definition get_x :: "machine \<Rightarrow> nat \<Rightarrow> uint64" where
  "get_x m r = (if r = 0 then 0 else xregs m ! r)"

definition set_x :: "nat \<Rightarrow> uint64 \<Rightarrow> machine \<Rightarrow> machine" where
  "set_x r v m = (if r = 0 then m else m\<lparr>xregs := (xregs m)[r := v]\<rparr>)"

fun step :: "asm \<Rightarrow> machine \<Rightarrow> machine" where
  "step (Csrr r) m = set_x r (scratch m) m"
| "step (Csrrw r) m = set_x r (scratch m) (m\<lparr>scratch := get_x m r\<rparr>)"
| "step (Ld r imm b) m = set_x r (load64 (mmem m) (get_x m b + of_nat imm)) m"
| "step (Sd r imm b) m = m\<lparr>mmem := store64 (mmem m) (get_x m b + of_nat imm) (get_x m r)\<rparr>"
| "step (Mv r q) m = set_x r (get_x m q) m"
| "step (Li r v) m = set_x r v m"
| "step Sret m = m"

definition exec :: "asm list \<Rightarrow> machine \<Rightarrow> machine" where
  "exec is m = fold step is m"

section \<open>The macros\<close>

text \<open>\<^verbatim>\<open>VAS_CPU_STRUCT + CPU_STACK_OFF + CPU_STACK_SIZE\<close>, the top of the hart's stack.\<close>

definition CPU_STACK_OFF :: uint64 where "CPU_STACK_OFF = PAGE_SIZE"
definition CPU_STACK_SIZE :: uint64 where "CPU_STACK_SIZE = 2 * PAGE_SIZE"

definition VM_ENTER :: "asm list" where
  "VM_ENTER = [Csrr 31] @ map (\<lambda>i. Ld i (i * 8) 31) [1..<31] @ [Ld 31 (31 * 8) 31, Sret]"

definition VM_EXIT :: "asm list" where
  "VM_EXIT = [Csrrw 31] @ map (\<lambda>i. Sd i (i * 8) 31) [1..<31] @
     [Mv 2 31, Csrrw 31, Sd 31 (31 * 8) 2, Li 2 (VAS_CPU_STRUCT + CPU_STACK_OFF + CPU_STACK_SIZE)]"

section \<open>Save and restore\<close>

definition slot :: "uint64 \<Rightarrow> nat \<Rightarrow> uint64" where
  "slot p i = p + of_nat (i * 8)"

lemma slot_aligned: "take_bit 3 p = 0 \<Longrightarrow> take_bit 3 (slot p i) = 0"
proof -
  assume "take_bit 3 p = 0"
  moreover have "take_bit 3 (of_nat (i * 8) :: uint64) = 0"
    by (simp add: take_bit_eq_0_iff)
  ultimately show ?thesis unfolding slot_def by (rule take_bit_add_aligned)
qed

lemma slot_inj: "i < 32 \<Longrightarrow> j < 32 \<Longrightarrow> slot p i = slot p j \<longleftrightarrow> i = j"
proof -
  assume b: "i < 32" "j < 32"
  have "slot p i = slot p j \<longleftrightarrow> (of_nat (i * 8) :: uint64) = of_nat (j * 8)"
    unfolding slot_def by (rule add_left_cancel)
  also have "\<dots> \<longleftrightarrow> unat (of_nat (i * 8) :: uint64) = unat (of_nat (j * 8) :: uint64)"
    by (rule word_unat_eq_iff)
  also have "\<dots> \<longleftrightarrow> i = j" using b by (simp only: unat_of_nat) (simp add: take_bit_eq_mod)
  finally show ?thesis .
qed

lemma exec_append: "exec (is @ js) m = exec js (exec is m)"
  by (simp add: exec_def)

lemma exec_simps [simp]: "exec [] m = m" "exec (i # is) m = exec is (step i m)"
  by (simp_all add: exec_def)

lemma exec_saves:
  assumes "set is \<subseteq> {1..<31}" "take_bit 3 p = 0" "get_x m 31 = p"
  shows "xregs (exec (map (\<lambda>i. Sd i (i * 8) 31) is) m) = xregs m \<and>
    scratch (exec (map (\<lambda>i. Sd i (i * 8) 31) is) m) = scratch m \<and>
    (\<forall>k < 32. load64 (mmem (exec (map (\<lambda>i. Sd i (i * 8) 31) is) m)) (slot p k) =
       (if k \<in> set is then get_x m k else load64 (mmem m) (slot p k)))"
  using assms
proof (induction "is" arbitrary: m)
  case (Cons i js)
  let ?m1 = "m\<lparr>mmem := store64 (mmem m) (slot p i) (get_x m i)\<rparr>"
  have g: "get_x ?m1 k = get_x m k" for k by (simp add: get_x_def)
  have st: "step (Sd i (i * 8) 31) m = ?m1" using Cons.prems by (simp add: slot_def)
  have ih: "xregs (exec (map (\<lambda>i. Sd i (i * 8) 31) js) ?m1) = xregs ?m1 \<and>
    scratch (exec (map (\<lambda>i. Sd i (i * 8) 31) js) ?m1) = scratch ?m1 \<and>
    (\<forall>k < 32. load64 (mmem (exec (map (\<lambda>i. Sd i (i * 8) 31) js) ?m1)) (slot p k) =
       (if k \<in> set js then get_x ?m1 k else load64 (mmem ?m1) (slot p k)))"
    by (rule Cons.IH) (use Cons.prems g in auto)
  have "load64 (mmem ?m1) (slot p k) = (if k = i then get_x m i else load64 (mmem m) (slot p k))" if "k < 32" for k
    using slot_inj [of k i p] slot_aligned [OF Cons.prems(2)] that Cons.prems(1)
    by (auto simp: bm.ld_st_same bm.ld_st_other)
  with ih st g show ?case by simp
qed simp

lemma exec_restores:
  assumes "set is \<subseteq> {1..<31}" "get_x m 31 = p" "length (xregs m) = 32"
  shows "mmem (exec (map (\<lambda>i. Ld i (i * 8) 31) is) m) = mmem m \<and>
    length (xregs (exec (map (\<lambda>i. Ld i (i * 8) 31) is) m)) = 32 \<and>
    (\<forall>k < 32. get_x (exec (map (\<lambda>i. Ld i (i * 8) 31) is) m) k =
       (if k \<in> set is then load64 (mmem m) (slot p k) else get_x m k))"
  using assms
proof (induction "is" arbitrary: m)
  case (Cons i js)
  let ?m1 = "set_x i (load64 (mmem m) (slot p i)) m"
  have i: "0 < i" "i < 31" using Cons.prems(1) by auto
  have g: "get_x ?m1 k = (if k = i then load64 (mmem m) (slot p i) else get_x m k)" if "k < 32" for k
    using i that Cons.prems(3) by (auto simp: get_x_def set_x_def)
  have st: "step (Ld i (i * 8) 31) m = ?m1" using Cons.prems by (simp add: slot_def)
  have m1: "mmem ?m1 = mmem m" "length (xregs ?m1) = 32" using Cons.prems(3) by (auto simp: set_x_def)
  have ih: "mmem (exec (map (\<lambda>i. Ld i (i * 8) 31) js) ?m1) = mmem ?m1 \<and>
    length (xregs (exec (map (\<lambda>i. Ld i (i * 8) 31) js) ?m1)) = 32 \<and>
    (\<forall>k < 32. get_x (exec (map (\<lambda>i. Ld i (i * 8) 31) js) ?m1) k =
       (if k \<in> set js then load64 (mmem ?m1) (slot p k) else get_x ?m1 k))"
    by (rule Cons.IH) (use Cons.prems g m1 i in auto)
  show ?case using ih st g m1 by simp
qed simp

lemma VM_EXIT_saves:
  assumes "length (xregs m) = 32" "take_bit 3 p = 0" "scratch m = p"
  shows "scratch (exec VM_EXIT m) = p"
    "0 < k \<Longrightarrow> k < 32 \<Longrightarrow> load64 (mmem (exec VM_EXIT m)) (slot p k) = xregs m ! k"
    "length (xregs (exec VM_EXIT m)) = 32"
proof -
  define m1 where "m1 = step (Csrrw 31) m"
  have m1: "xregs m1 = (xregs m)[31 := p]" "scratch m1 = xregs m ! 31" "mmem m1 = mmem m"
    using assms by (simp_all add: m1_def set_x_def get_x_def)
  define m2 where "m2 = exec (map (\<lambda>i. Sd i (i * 8) 31) [1..<31]) m1"
  have p: "get_x m1 31 = p" using m1 assms by (simp add: get_x_def)
  have m2: "xregs m2 = xregs m1" "scratch m2 = scratch m1"
    "\<And>k. k < 32 \<Longrightarrow> load64 (mmem m2) (slot p k) =
       (if k \<in> set [1..<31] then get_x m1 k else load64 (mmem m1) (slot p k))"
    using exec_saves [OF _ assms(2) p, of "[1..<31]"] by (simp_all add: m2_def)
  have split: "exec VM_EXIT m = exec [Mv 2 31, Csrrw 31, Sd 31 (31 * 8) 2,
      Li 2 (VAS_CPU_STRUCT + CPU_STACK_OFF + CPU_STACK_SIZE)] m2"
    unfolding VM_EXIT_def exec_append m2_def m1_def by simp
  have fin: "scratch (exec VM_EXIT m) = p" "length (xregs (exec VM_EXIT m)) = 32"
    "mmem (exec VM_EXIT m) = store64 (mmem m2) (slot p 31) (xregs m ! 31)"
    using assms m1 m2 by (simp_all add: split set_x_def get_x_def slot_def)
  show "scratch (exec VM_EXIT m) = p" "length (xregs (exec VM_EXIT m)) = 32" by (fact fin)+
  assume k: "0 < k" "k < 32"
  have "load64 (mmem (exec VM_EXIT m)) (slot p k) = (if k = 31 then xregs m ! 31 else load64 (mmem m2) (slot p k))"
    using slot_inj [of k 31 p] slot_aligned [OF assms(2)] k
    by (auto simp: fin bm.ld_st_same bm.ld_st_other)
  also have "\<dots> = xregs m ! k"
    using k m2(3) [OF k(2)] m1 assms by (auto simp: get_x_def)
  finally show "load64 (mmem (exec VM_EXIT m)) (slot p k) = xregs m ! k" .
qed

lemma VM_ENTER_restores:
  assumes "length (xregs m) = 32" "scratch m = p"
  shows "mmem (exec VM_ENTER m) = mmem m" "scratch (exec VM_ENTER m) = p"
    "0 < k \<Longrightarrow> k < 32 \<Longrightarrow> xregs (exec VM_ENTER m) ! k = load64 (mmem m) (slot p k)"
proof -
  define m1 where "m1 = step (Csrr 31) m"
  have m1: "get_x m1 31 = p" "length (xregs m1) = 32" "mmem m1 = mmem m" "scratch m1 = p"
    using assms by (simp_all add: m1_def set_x_def get_x_def)
  define m2 where "m2 = exec (map (\<lambda>i. Ld i (i * 8) 31) [1..<31]) m1"
  have m2: "mmem m2 = mmem m1" "length (xregs m2) = 32"
    "\<And>k. k < 32 \<Longrightarrow> get_x m2 k = (if k \<in> set [1..<31] then load64 (mmem m1) (slot p k) else get_x m1 k)"
    using exec_restores [OF _ m1(1,2), of "[1..<31]"] by (simp_all add: m2_def)
  have sc: "scratch (exec (map (\<lambda>i. Ld i (i * 8) 31) is) n) = scratch n" for "is" n
    by (induction "is" arbitrary: n) (auto simp: set_x_def)
  have split: "exec VM_ENTER m = exec [Ld 31 (31 * 8) 31, Sret] m2"
    unfolding VM_ENTER_def exec_append m2_def m1_def by simp
  have p: "get_x m2 31 = p" using m2(3) [of 31] m1 by simp
  have fin: "exec VM_ENTER m = set_x 31 (load64 (mmem m2) (slot p 31)) m2"
    using p by (simp add: split slot_def)
  show "mmem (exec VM_ENTER m) = mmem m" "scratch (exec VM_ENTER m) = p"
    using m2(1) m1 sc [of "[1..<31]" m1] by (simp_all add: fin set_x_def m2_def)
  assume k: "0 < k" "k < 32"
  have "get_x m2 k = xregs m2 ! k" using k by (simp add: get_x_def)
  then show "xregs (exec VM_ENTER m) ! k = load64 (mmem m) (slot p k)"
    using k m2 m1 by (auto simp: fin set_x_def nth_list_update)
qed

end
