(* ===== verification/Boot.thy ===== *)
theory Boot
  imports Ranges Riscv World_Switch
begin

text \<open>
  Bringing up the kernel on a hart: \<^verbatim>\<open>init_vmem\<close> of \<^verbatim>\<open>src/src/mem/vmem.c\<close>, which builds the kernel's
  page table, and \<^verbatim>\<open>src/src/driver/cpu.c\<close>, the per-hart structure and the registers of a hart. The
  symbols of the linker script are a parameter.

  The lemmas show that with 2053 free pages \<open>init_vmem\<close> returns, and that the table it returns maps
  exactly the regions the code lists; that no page is both writable and executable; and that the
  address of the per-hart structure, the same for all harts, leads each hart to its own structure.
\<close>

section \<open>The per-hart structure\<close>

record linker =
  text_start :: uint64
  etext :: uint64
  rodata :: uint64
  erodata :: uint64
  data_start :: uint64
  edata :: uint64
  cpu_structs :: uint64
  dynamic_start :: uint64

definition CPU_SIZE :: uint64 where
  "CPU_SIZE = CPU_STACK_OFF + CPU_STACK_SIZE"

text \<open>The section of \<^verbatim>\<open>cpu_structs\<close> holds the array \<^verbatim>\<open>cpus\<close> and nothing else.\<close>

definition cpus :: "linker \<Rightarrow> uint64 \<Rightarrow> uint64" where
  "cpus L i = cpu_structs L + i * CPU_SIZE"

definition mycpu :: "linker \<Rightarrow> int \<Rightarrow> uint64 \<Rightarrow> uint64" where
  "mycpu L cpu_mapped tp = (if cpu_mapped \<noteq> 0 then VAS_CPU_STRUCT else cpus L tp)"

section \<open>The kernel's page table\<close>

definition mmio_flags :: int where
  "mmio_flags = int_of_u64 (PTE_R OR PTE_W OR PTE_G)"

text \<open>The device windows, in the order of the calls: one page, or a range of a given size.\<close>

definition mmio_windows :: "(uint64 \<times> uint64 option) list" where
  "mmio_windows =
     [(DTB_FLASH, None), (DTB_PLATFORM_BUS, None), (DTB_RTC, None), (DTB_SERIAL, None),
      (DTB_PCI, Some DTB_PCI_SIZE), (DTB_VIRTIO0, Some DTB_VIRTIO_SIZE), (DTB_PLIC, Some DTB_PLIC_SIZE),
      (DTB_CLINT, Some DTB_CLINT_SIZE)]"

fun map_mmio ::
  "uint64 \<Rightarrow> (uint64 \<times> uint64 option) list \<Rightarrow> int \<Rightarrow> kmem_state \<Rightarrow> (int \<times> kmem_state) outcome" where
  "map_mmio root [] rv s = Inr (rv, s)"
| "map_mmio root ((base, None) # ws) rv s =
     bindE (map_page root base base mmio_flags False s) (\<lambda>(r, s). map_mmio root ws (rv + r) s)"
| "map_mmio root ((base, Some sz) # ws) rv s =
     bindE (map_pages root base base sz mmio_flags False s) (\<lambda>(r, s). map_mmio root ws (rv + r) s)"

text \<open>
  The kernel's sections: virtual and physical address, size, flags and name. The size is an \<^verbatim>\<open>int\<close>;
  for the sections of the image it is converted from \<^verbatim>\<open>unsigned int\<close>.
\<close>

definition kernel_sections :: "linker \<Rightarrow> int \<Rightarrow> uint64 \<Rightarrow> (uint64 \<times> uint64 \<times> int \<times> uint64 \<times> string) list" where
  "kernel_sections L cpu_mapped tp =
     [(text_start L, KVA2PA (text_start L), int_of_u64 (etext L - text_start L), PTE_R OR PTE_X OR PTE_G, ''.text''),
      (rodata L, KVA2PA (rodata L), int_of_u64 (erodata L - rodata L), PTE_R OR PTE_G, ''.rodata''),
      (data_start L, KVA2PA (data_start L), int_of_u64 (edata L - data_start L), PTE_R OR PTE_W OR PTE_G, ''.data''),
      (VAS_CPU_STRUCT, KVA2PA (mycpu L cpu_mapped tp), int_of_u64 CPU_SIZE, PTE_R OR PTE_W, ''cpu struct''),
      (KVA2KPA (dynamic_start L), KVA2PA (dynamic_start L),
       int_of_u64 (DTB_MEMORY_SIZE - (KVA2PA (dynamic_start L) - DTB_MEMORY)), PTE_R OR PTE_W OR PTE_G, ''RAM'')]"

fun map_sections ::
  "uint64 \<Rightarrow> (uint64 \<times> uint64 \<times> int \<times> uint64 \<times> string) list \<Rightarrow> kmem_state \<Rightarrow> kmem_state outcome" where
  "map_sections root [] s = Inr s"
| "map_sections root ((va, pa, sz, fl, name) # rest) s =
     bindE (map_pages root va pa (u64_of_int sz) (int_of_u64 fl) False s) (\<lambda>(rv, s).
       if rv \<noteq> 0 then Inl (Panic (''failed to map '' @ name)) else map_sections root rest s)"

definition init_vmem :: "linker \<Rightarrow> int \<Rightarrow> uint64 \<Rightarrow> kmem_state \<Rightarrow> (uint64 \<times> kmem_state) outcome" where
  "init_vmem L cpu_mapped tp s =
     bindE (kmalloc s) (\<lambda>(root, s).
       if root = 0 then Inl (Panic ''couldn't allocate root page table'')
       else bindE (memset (mem s) root 0 (uint PAGE_SIZE)) (\<lambda>m.
            bindE (map_mmio root mmio_windows 0 (s\<lparr>mem := m\<rparr>)) (\<lambda>(rv, s).
              if rv < 0 then Inl (Panic ''failed to map MMIO'')
              else bindE (map_sections root (kernel_sections L cpu_mapped tp) s) (\<lambda>s. Inr (root, s)))))"

section \<open>The registers of a hart\<close>

text \<open>
  What \<^verbatim>\<open>init_hart\<close> changes: control registers, stack and frame pointer, and kernel memory. The
  address of the trap vector is a parameter.
\<close>

record hart =
  hcsr :: csr_file
  hsp :: uint64
  hfp :: uint64
  hmem :: memory

text \<open>
  The memory behind an address while a hart's table is active: its structure is visible at
  \<^verbatim>\<open>VAS_CPU_STRUCT\<close>, as \<open>cpu_struct_translation\<close> below shows.
\<close>

definition behind :: "linker \<Rightarrow> uint64 \<Rightarrow> uint64 \<Rightarrow> uint64" where
  "behind L tp a =
     (if VAS_CPU_STRUCT \<le> a \<and> a < VAS_CPU_STRUCT + CPU_SIZE then cpus L tp + (a - VAS_CPU_STRUCT) else a)"

text \<open>
  \<^verbatim>\<open>relocate_stack\<close> of \<^verbatim>\<open>src/src/core/sboot.S\<close>. The stored frame pointer is reached through the new
  mapping of the stack.
\<close>

definition relocate_stack :: "linker \<Rightarrow> uint64 \<Rightarrow> uint64 \<Rightarrow> hart \<Rightarrow> hart" where
  "relocate_stack L tp offset h =
     (let slot = behind L tp (hfp h + offset - 16) in
      h\<lparr>hsp := hsp h + offset, hfp := hfp h + offset,
        hmem := store64 (hmem h) slot (load64 (hmem h) slot + offset)\<rparr>)"

definition init_hart :: "linker \<Rightarrow> int \<Rightarrow> uint64 \<Rightarrow> uint64 \<Rightarrow> uint64 \<Rightarrow> hart \<Rightarrow> hart" where
  "init_hart L cpu_mapped tp vec pgtable h =
     (let h = h\<lparr>hmem := store64 (hmem h) (mycpu L cpu_mapped tp) tp\<rparr>;
          c = hcsr h;
          c = c\<lparr>sie := CSRS (sie c) SIE_SEIE\<rparr>;
          c = c\<lparr>sie := CSRC (sie c) SIE_STIE\<rparr>;
          c = c\<lparr>stvec := vec AND NOT TVEC_MODE OR TVEC_MODE_DIRECT\<rparr>;
          c = c\<lparr>satp := drop_bit 12 (KPA2PA pgtable) OR ATP_MODE_SV39\<rparr>;
          a0 = VAS_CPU_STRUCT;
          a0 = a0 - tp * CPU_SIZE;
          a0 = a0 - cpu_structs L
      in relocate_stack L tp a0 (h\<lparr>hcsr := c\<rparr>))"

definition get_hartid :: "linker \<Rightarrow> int \<Rightarrow> uint64 \<Rightarrow> memory \<Rightarrow> uint64" where
  "get_hartid L cpu_mapped tp m = load64 m (behind L tp (mycpu L cpu_mapped tp))"

section \<open>Layout of the image\<close>

text \<open>What the linker script guarantees: sections start at page boundaries, in this order.\<close>

definition linker_layout :: "linker \<Rightarrow> bool" where
  "linker_layout L \<longleftrightarrow>
     linker_ok (dynamic_start L) \<and> VAS_KERNEL \<le> text_start L \<and>
     take_bit 12 (text_start L) = 0 \<and> take_bit 12 (rodata L) = 0 \<and> take_bit 12 (data_start L) = 0 \<and>
     take_bit 12 (cpu_structs L) = 0 \<and>
     text_start L \<le> etext L \<and> etext L \<le> rodata L \<and> rodata L \<le> erodata L \<and> erodata L \<le> data_start L \<and>
     data_start L \<le> edata L \<and> edata L \<le> cpu_structs L \<and>
     unat (cpu_structs L) + DTB_NR_CPUS * unat CPU_SIZE \<le> unat (dynamic_start L)"

text \<open>Page numbers in the kernel's window.\<close>

lemma vpn_at:
  assumes "unat a = 4096 * q + x" "q mod 2 ^ 27 = r" "r + x div 4096 < 2 ^ 27"
  shows "vpn False a = r + x div 4096"
proof -
  have "unat a div 4096 = q + x div 4096" unfolding assms(1) by simp
  then have "vpn False a = (q + x div 4096) mod 2 ^ 27" by (simp add: vpn_def vpn_count_def)
  also have "\<dots> = (r + x div 4096) mod 2 ^ 27" unfolding assms(2) [symmetric] by (rule mod_add_left_eq [symmetric])
  also have "\<dots> = r + x div 4096" using assms(3) by (rule mod_less)
  finally show ?thesis .
qed

lemma vpn_kernel:
  assumes "VAS_KERNEL \<le> a" "a \<le> VAS_KERNEL + DTB_MEMORY_SIZE"
  shows "vpn False a = 67108864 + (unat a - 0xffffffc000000000) div 4096"
proof (rule vpn_at)
  show "unat a = 4096 * 0xffffffc000000 + (unat a - 0xffffffc000000000)"
    using assms(1) by (simp add: layout_defs word_le_nat_alt)
  show "67108864 + (unat a - 0xffffffc000000000) div 4096 < 2 ^ 27"
    using assms by (simp add: layout_defs word_le_nat_alt div_less_iff_less_mult less_diff_conv2)
qed simp

section \<open>The kernel's address space\<close>

definition window_size :: "uint64 option \<Rightarrow> uint64" where
  "window_size w = (case w of None \<Rightarrow> PAGE_SIZE | Some sz \<Rightarrow> sz)"

definition mmio_region :: "uint64 \<times> uint64 option \<Rightarrow> region" where
  "mmio_region = (\<lambda>(base, w). (base, mmio_flags, page_offsets 0 (window_size w), \<lambda>j. base + j))"

definition section_region :: "uint64 \<times> uint64 \<times> int \<times> uint64 \<times> string \<Rightarrow> region" where
  "section_region = (\<lambda>(va, pa, sz, fl, name).
     (va, int_of_u64 fl, page_offsets 0 (u64_of_int sz), \<lambda>j. pa + j))"

definition kernel_regions :: "linker \<Rightarrow> int \<Rightarrow> uint64 \<Rightarrow> region list" where
  "kernel_regions L cpu_mapped tp =
     map mmio_region mmio_windows @ map section_region (kernel_sections L cpu_mapped tp)"

text \<open>The ranges of the calls.\<close>

definition mmio_row :: "uint64 \<times> uint64 option \<Rightarrow> uint64 \<times> uint64" where
  "mmio_row w = (fst w, window_size (snd w))"

definition section_row :: "uint64 \<times> uint64 \<times> int \<times> uint64 \<times> string \<Rightarrow> uint64 \<times> uint64" where
  "section_row r = (fst r, u64_of_int (fst (snd (snd r))))"

lemma rows [simp]:
  "mmio_row (base, None) = (base, PAGE_SIZE)" "mmio_row (base, Some sz) = (base, sz)"
  "section_row (va, pa, n, fl, name) = (va, u64_of_int n)"
  by (simp_all add: mmio_row_def section_row_def window_size_def)

lemma map_mmio_ok:
  assumes "space dynamic False root A k rs occ s own F" "\<forall>(base, w) \<in> set ws. base \<noteq> 0"
    "placed False A occ (map mmio_row ws)"
  shows "\<exists>s' own' F'. map_mmio root ws rv s = Inr (rv, s') \<and> pt_mapped dynamic False root s own F s' own' F' \<and>
    space dynamic False root A k (rs @ map mmio_region ws)
      (intervals False (map mmio_row ws) @ occ) s' own' F'"
  using assms
proof (induction root ws rv s arbitrary: rs occ own F rule: map_mmio.induct)
  case (1 root rv s)
  then show ?case using pt_mapped_refl by (fastforce simp: intervals_def space_def)
next
  case (2 root base ws rv s)
  let ?p = "(vpn False base, vpn False base + pages PAGE_SIZE)"
  have pl: "place False A occ base PAGE_SIZE" "base \<noteq> 0" and rest: "placed False A (?p # occ) (map mmio_row ws)"
    using "2.prems" by simp_all
  from map_page_space [OF "2.prems"(1) pl, of mmio_flags] obtain s1 own1 F1 where
    m1: "map_page root base base mmio_flags False s = Inr (0, s1)" "pt_mapped dynamic False root s own F s1 own1 F1"
    and sp1: "space dynamic False root A k (rs @ [mmio_region (base, None)]) (?p # occ) s1 own1 F1"
    by (auto simp: mmio_region_def window_size_def)
  obtain s' own' F' where r: "map_mmio root ws rv s1 = Inr (rv, s')"
    "pt_mapped dynamic False root s1 own1 F1 s' own' F'"
    "space dynamic False root A k ((rs @ [mmio_region (base, None)]) @ map mmio_region ws)
      (intervals False (map mmio_row ws) @ ?p # occ) s' own' F'"
    using "2.IH" [OF m1(1) refl, of "rs @ [mmio_region (base, None)]" "?p # occ" own1 F1] sp1 rest "2.prems"
    by auto
  with m1 pt_mapped_trans [OF m1(2) r(2)] show ?case by (auto simp: intervals_def)
next
  case (3 root base sz ws rv s)
  let ?p = "(vpn False base, vpn False base + pages sz)"
  have pl: "place False A occ base sz" "base \<noteq> 0" and rest: "placed False A (?p # occ) (map mmio_row ws)"
    using "3.prems" by simp_all
  from map_pages_space [OF "3.prems"(1) pl, of mmio_flags] obtain s1 own1 F1 where
    m1: "map_pages root base base sz mmio_flags False s = Inr (0, s1)" "pt_mapped dynamic False root s own F s1 own1 F1"
    and sp1: "space dynamic False root A k (rs @ [mmio_region (base, Some sz)]) (?p # occ) s1 own1 F1"
    by (auto simp: mmio_region_def window_size_def)
  obtain s' own' F' where r: "map_mmio root ws rv s1 = Inr (rv, s')"
    "pt_mapped dynamic False root s1 own1 F1 s' own' F'"
    "space dynamic False root A k ((rs @ [mmio_region (base, Some sz)]) @ map mmio_region ws)
      (intervals False (map mmio_row ws) @ ?p # occ) s' own' F'"
    using "3.IH" [OF m1(1) refl, of "rs @ [mmio_region (base, Some sz)]" "?p # occ" own1 F1] sp1 rest "3.prems"
    by auto
  with m1 pt_mapped_trans [OF m1(2) r(2)] show ?case by (auto simp: intervals_def)
qed

lemma map_sections_ok:
  assumes "space dynamic False root A k rs occ s own F" "\<forall>(va, pa, sz, fl, name) \<in> set secs. pa \<noteq> 0"
    "placed False A occ (map section_row secs)"
  shows "\<exists>s' own' F'. map_sections root secs s = Inr s' \<and> pt_mapped dynamic False root s own F s' own' F' \<and>
    pt_state dynamic False root s' own' F' \<and> k \<le> card F' \<and>
    regions_mapped False root (rs @ map section_region secs) (load64 (mem s'))"
  using assms
proof (induction root secs s arbitrary: rs occ own F rule: map_sections.induct)
  case (1 root s)
  then show ?case using pt_mapped_refl by (fastforce simp: space_def room_def)
next
  case (2 root va pa sz fl name rest s)
  let ?p = "(vpn False va, vpn False va + pages (u64_of_int sz))"
  have pl: "place False A occ va (u64_of_int sz)" "pa \<noteq> 0" and rest: "placed False A (?p # occ) (map section_row rest)"
    using "2.prems" by simp_all
  from map_pages_space [OF "2.prems"(1) pl, of "int_of_u64 fl"] obtain s1 own1 F1 where
    m1: "map_pages root va pa (u64_of_int sz) (int_of_u64 fl) False s = Inr (0, s1)"
      "pt_mapped dynamic False root s own F s1 own1 F1"
    and sp1: "space dynamic False root A k (rs @ [section_region (va, pa, sz, fl, name)]) (?p # occ) s1 own1 F1"
    by (auto simp: section_region_def)
  obtain s' own' F' where r: "map_sections root rest s1 = Inr s'" "pt_mapped dynamic False root s1 own1 F1 s' own' F'"
    "pt_state dynamic False root s' own' F'" "k \<le> card F'"
    "regions_mapped False root ((rs @ [section_region (va, pa, sz, fl, name)]) @ map section_region rest) (load64 (mem s'))"
    using "2.IH" [OF m1(1) refl _ sp1 _ rest] "2.prems"(2) by auto
  with m1 pt_mapped_trans [OF m1(2) r(2)] show ?case by auto
qed

text \<open>The root entries the kernel uses: devices, the image, the per-hart structure and RAM.\<close>

definition kernel_roots :: "nat set" where
  "kernel_roots = {0, 256, 257, 384}"

lemma mmio_rows: "map mmio_row mmio_windows =
    [(0x20000000, 0x1000), (0x4000000, 0x1000), (0x101000, 0x1000), (0x10000000, 0x1000),
     (0x30000000, 0x10000000), (0x10001000, 0x1000), (0xc000000, 0x600000), (0x2000000, 0x10000)]"
  by (simp add: mmio_windows_def layout_defs)

lemma mmio_numbers:
  "pages 0x1000 = 1" "pages 0x10000000 = 0x10000" "pages 0x600000 = 0x600" "pages 0x10000 = 0x10"
  "vpn False 0x20000000 = 0x20000" "vpn False 0x4000000 = 0x4000" "vpn False 0x101000 = 0x101"
  "vpn False 0x10000000 = 0x10000" "vpn False 0x30000000 = 0x30000" "vpn False 0x10001000 = 0x10001"
  "vpn False 0xc000000 = 0xc000" "vpn False 0x2000000 = 0x2000"
  by (simp_all add: pages_eq vpn_def vpn_count_def)

lemma mmio_placed: "placed False kernel_roots [] (map mmio_row mmio_windows)"
  by (simp add: mmio_rows place_def fits_def mmio_numbers vpn_count_def kernel_roots_def)

lemma mmio_below: "(c, d) \<in> set (intervals False (map mmio_row mmio_windows)) \<Longrightarrow> d \<le> 0x40000"
  by (auto simp: mmio_rows intervals_def mmio_numbers)

text \<open>A section above the devices, after the sections placed before it.\<close>

lemma place_kernel:
  assumes "vpn False va = n" "0x40000 \<le> n" "\<And>c d. (c, d) \<in> set occ \<Longrightarrow> n + pages sz \<le> c \<or> d \<le> n"
    "r \<in> {256, 257, 384}" "r * 0x40000 \<le> n" "n + pages sz \<le> (r + 1) * 0x40000"
  shows "place False kernel_roots (occ @ intervals False (map mmio_row mmio_windows)) va sz"
proof -
  have "fits False va sz" using assms(1,4,6) by (auto simp: fits_def vpn_count_def)
  moreover have "n + pages sz \<le> c \<or> d \<le> n" if "(c, d) \<in> set (occ @ intervals False (map mmio_row mmio_windows))" for c d
    using that assms(2,3) mmio_below [of c d] by fastforce
  moreover have "\<exists>r \<in> kernel_roots. r * 2 ^ 18 \<le> n \<and> n + pages sz \<le> (r + 1) * 2 ^ 18"
    using assms(4-6) by (auto simp: kernel_roots_def)
  ultimately show ?thesis unfolding place_def assms(1) by blast
qed

lemma u64_int_small: "unat x < 2 ^ 31 \<Longrightarrow> u64_of_int (int_of_u64 x) = x"
  by (simp add: int_of_u64_small u64_of_int_def word_less_nat_alt)

text \<open>The layout in numbers: offsets from the start of the kernel's window.\<close>

definition koff :: "uint64 \<Rightarrow> nat" where
  "koff a = unat a - 0xffffffc000000000"

lemma koff_add: "VAS_KERNEL \<le> a \<Longrightarrow> unat a = 0xffffffc000000000 + koff a"
  by (simp add: koff_def layout_defs word_le_nat_alt)

lemma koff_aligned: "VAS_KERNEL \<le> a \<Longrightarrow> take_bit 12 a = 0 \<Longrightarrow> koff a mod 4096 = 0"
proof -
  assume "VAS_KERNEL \<le> a" "take_bit 12 a = 0"
  then have "unat a mod 4096 = 0" "unat a = 4096 * 0xffffffc000000 + koff a"
    by (simp_all only: aligned_unat_mod koff_add)
  then show ?thesis by (simp only: mod_mult_self4)
qed

lemma koff_diff: "VAS_KERNEL \<le> a \<Longrightarrow> a \<le> b \<Longrightarrow> unat (b - a) = koff b - koff a"
  by (simp add: unat_sub koff_def layout_defs word_le_nat_alt)

lemma KVA2PA_koff:
  assumes "VAS_KERNEL \<le> a" "koff a \<le> 0x10000000"
  shows "unat (KVA2PA a) = koff a + 0x80000000" "unat (KVA2KPA a) = koff a + 0xffffffe000000000"
proof -
  define x where "x = a - VAS_KERNEL"
  have x: "unat x = koff a"
    using assms(1) unat_sub [of VAS_KERNEL a] by (simp add: x_def koff_def layout_defs)
  show "unat (KVA2PA a) = koff a + 0x80000000" "unat (KVA2KPA a) = koff a + 0xffffffe000000000"
    unfolding KVA2PA_def KVA2KPA_def x_def [symmetric]
    using assms(2) by (simp_all add: unat_word_ariths layout_defs x)
qed

lemma linker_numbers:
  assumes "linker_layout L"
  shows "VAS_KERNEL \<le> text_start L" "VAS_KERNEL \<le> rodata L" "VAS_KERNEL \<le> data_start L"
    "VAS_KERNEL \<le> cpu_structs L" "VAS_KERNEL \<le> dynamic_start L"
    "koff (text_start L) \<le> koff (etext L)" "koff (etext L) \<le> koff (rodata L)" "koff (rodata L) \<le> koff (erodata L)"
    "koff (erodata L) \<le> koff (data_start L)" "koff (data_start L) \<le> koff (edata L)"
    "koff (edata L) \<le> koff (cpu_structs L)" "koff (cpu_structs L) + 0x6000 \<le> koff (dynamic_start L)"
    "koff (dynamic_start L) \<le> 0x10000000"
    "koff (text_start L) mod 4096 = 0" "koff (rodata L) mod 4096 = 0" "koff (data_start L) mod 4096 = 0"
    "koff (cpu_structs L) mod 4096 = 0" "koff (dynamic_start L) mod 4096 = 0"
proof -
  have l: "VAS_KERNEL \<le> text_start L" "text_start L \<le> etext L" "etext L \<le> rodata L" "rodata L \<le> erodata L"
    "erodata L \<le> data_start L" "data_start L \<le> edata L" "edata L \<le> cpu_structs L"
    "VAS_KERNEL \<le> dynamic_start L" "dynamic_start L \<le> VAS_KERNEL + DTB_MEMORY_SIZE"
    "unat (cpu_structs L) + 0x6000 \<le> unat (dynamic_start L)"
    using assms by (simp_all add: linker_layout_def linker_ok_def CPU_SIZE_def CPU_STACK_OFF_def
        CPU_STACK_SIZE_def layout_defs)
  have al: "take_bit 12 (text_start L) = 0" "take_bit 12 (rodata L) = 0" "take_bit 12 (data_start L) = 0"
    "take_bit 12 (cpu_structs L) = 0" "take_bit 12 (dynamic_start L) = 0"
    using assms by (simp_all add: linker_layout_def linker_ok_def)
  show b: "VAS_KERNEL \<le> text_start L" "VAS_KERNEL \<le> rodata L" "VAS_KERNEL \<le> data_start L"
    "VAS_KERNEL \<le> cpu_structs L" "VAS_KERNEL \<le> dynamic_start L"
    using l unfolding word_le_nat_alt by linarith+
  show "koff (text_start L) \<le> koff (etext L)" "koff (etext L) \<le> koff (rodata L)" "koff (rodata L) \<le> koff (erodata L)"
    "koff (erodata L) \<le> koff (data_start L)" "koff (data_start L) \<le> koff (edata L)"
    "koff (edata L) \<le> koff (cpu_structs L)"
    using l by (simp_all add: koff_def word_le_nat_alt)
  show "koff (cpu_structs L) + 0x6000 \<le> koff (dynamic_start L)" "koff (dynamic_start L) \<le> 0x10000000"
    using l b(4) by (simp_all add: koff_def layout_defs word_le_nat_alt)
  show "koff (text_start L) mod 4096 = 0" "koff (rodata L) mod 4096 = 0" "koff (data_start L) mod 4096 = 0"
    "koff (cpu_structs L) mod 4096 = 0" "koff (dynamic_start L) mod 4096 = 0"
    by (rule koff_aligned [OF b(1) al(1)], rule koff_aligned [OF b(2) al(2)], rule koff_aligned [OF b(3) al(3)],
        rule koff_aligned [OF b(4) al(4)], rule koff_aligned [OF b(5) al(5)])
qed

lemma section_span:
  fixes a e n :: nat
  assumes "a mod 4096 = 0" "n mod 4096 = 0" "a \<le> e" "e \<le> n"
  shows "a div 4096 + (e - a + 4095) div 4096 \<le> n div 4096"
proof -
  obtain p q where "a = 4096 * p" "n = 4096 * q" using assms(1,2) by (auto simp: mod_eq_0_iff_dvd elim!: dvdE)
  moreover from this have "(e - a + 4095) div 4096 \<le> (4096 * (q - p) + 4095) div 4096"
    using assms(4) by (intro div_le_mono) simp
  ultimately show ?thesis using assms(3,4) by simp
qed

lemma vpn_koff:
  assumes "VAS_KERNEL \<le> a" "koff a \<le> 0x10000000"
  shows "vpn False a = 0x4000000 + koff a div 4096"
    "vpn False (KVA2KPA a) = 0x6000000 + koff a div 4096"
proof -
  have b: "koff a div 4096 \<le> 0x10000" using div_le_mono [OF assms(2), of 4096] by simp
  show "vpn False a = 0x4000000 + koff a div 4096"
    by (rule vpn_at [of _ "0xffffffc000000"]) (use b koff_add [OF assms(1)] in simp_all)
  show "vpn False (KVA2KPA a) = 0x6000000 + koff a div 4096"
    by (rule vpn_at [of _ "0xffffffe000000"]) (use b KVA2PA_koff(2) [OF assms] in simp_all)
qed

text \<open>The page numbers of one section of the image.\<close>

lemma image_section:
  assumes "VAS_KERNEL \<le> a" "koff a \<le> koff e" "koff e \<le> n" "n \<le> 0x10000000" "koff a mod 4096 = 0" "n mod 4096 = 0"
    and "a \<le> e"
  shows "vpn False a = 0x4000000 + koff a div 4096"
    "u64_of_int (int_of_u64 (e - a)) = e - a"
    "vpn False a + pages (e - a) \<le> 0x4000000 + n div 4096"
proof -
  show v: "vpn False a = 0x4000000 + koff a div 4096" by (rule vpn_koff(1)) (use assms in simp_all)
  have d: "unat (e - a) = koff e - koff a" by (rule koff_diff [OF assms(1,7)])
  then show "u64_of_int (int_of_u64 (e - a)) = e - a" using assms(3,4) by (intro u64_int_small) simp
  have "pages (e - a) = (koff e - koff a + 4095) div 4096" using d assms(3,4) by (subst pages_eq) simp_all
  then show "vpn False a + pages (e - a) \<le> 0x4000000 + n div 4096"
    using section_span [OF assms(5,6,2,3)] by (simp add: v)
qed

text \<open>The rest of the RAM.\<close>

definition ram_size :: "linker \<Rightarrow> uint64" where
  "ram_size L = DTB_MEMORY_SIZE - (KVA2PA (dynamic_start L) - DTB_MEMORY)"

lemma ram_size:
  assumes "linker_layout L"
  shows "unat (ram_size L) = 0x10000000 - koff (dynamic_start L)"
proof -
  note n = linker_numbers [OF assms]
  have "unat (KVA2PA (dynamic_start L) - DTB_MEMORY) = koff (dynamic_start L)"
    using unat_sub [of DTB_MEMORY "KVA2PA (dynamic_start L)"] KVA2PA_koff(1) [OF n(5,13)]
    by (simp add: word_le_nat_alt layout_defs)
  then show ?thesis
    using unat_sub [of "KVA2PA (dynamic_start L) - DTB_MEMORY" DTB_MEMORY_SIZE] n(13)
    by (simp add: ram_size_def word_le_nat_alt layout_defs)
qed

lemma section_rows:
  assumes "linker_layout L"
  shows "map section_row (kernel_sections L m tp) =
    [(text_start L, etext L - text_start L), (rodata L, erodata L - rodata L),
     (data_start L, edata L - data_start L), (VAS_CPU_STRUCT, 0x3000), (KVA2KPA (dynamic_start L), ram_size L)]"
proof -
  note n = linker_numbers [OF assms]
  have le: "text_start L \<le> etext L" "rodata L \<le> erodata L" "data_start L \<le> edata L"
    using assms by (simp_all add: linker_layout_def)
  have "u64_of_int (int_of_u64 (etext L - text_start L)) = etext L - text_start L"
    "u64_of_int (int_of_u64 (erodata L - rodata L)) = erodata L - rodata L"
    "u64_of_int (int_of_u64 (edata L - data_start L)) = edata L - data_start L"
    by (rule u64_int_small, use koff_diff [OF n(1) le(1)] n(6-13) in simp,
        rule u64_int_small, use koff_diff [OF n(2) le(2)] n(6-13) in simp,
        rule u64_int_small, use koff_diff [OF n(3) le(3)] n(6-13) in simp)
  moreover have "u64_of_int (int_of_u64 (ram_size L)) = ram_size L"
    by (rule u64_int_small) (simp add: ram_size [OF assms])
  moreover have "u64_of_int (int_of_u64 CPU_SIZE) = 0x3000"
    by (subst u64_int_small) (simp_all add: CPU_SIZE_def CPU_STACK_OFF_def CPU_STACK_SIZE_def layout_defs)
  ultimately show ?thesis by (simp add: kernel_sections_def ram_size_def)
qed

lemma sections_placed:
  assumes L: "linker_layout L"
  shows "placed False kernel_roots (intervals False (map mmio_row mmio_windows)) (map section_row (kernel_sections L m tp))"
proof -
  note n = linker_numbers [OF L]
  have le: "text_start L \<le> etext L" "rodata L \<le> erodata L" "data_start L \<le> edata L"
    using L by (simp_all add: linker_layout_def)
  let ?D = "koff (dynamic_start L)"
  have lim: "koff (rodata L) \<le> 0x10000000" "koff (data_start L) \<le> 0x10000000" "koff (cpu_structs L) \<le> 0x10000000"
    using n(6-13) by linarith+
  note sec = image_section [OF n(1,6,7) lim(1) n(14,15) le(1)] image_section [OF n(2,8,9) lim(2) n(15,16) le(2)]
    image_section [OF n(3,10,11) lim(3) n(16,17) le(3)]
  note vs = vpn_koff(1) [OF n(2) lim(1)] vpn_koff(1) [OF n(3) lim(2)]
  have c: "koff (cpu_structs L) div 4096 \<le> 0x10000" using div_le_mono [OF lim(3), of 4096] by simp
  have cpu: "vpn False VAS_CPU_STRUCT = 0x4040000" "pages 0x3000 = 3"
    by (simp_all add: vpn_def vpn_count_def layout_defs pages_eq)
  have ram: "vpn False (KVA2KPA (dynamic_start L)) = 0x6000000 + ?D div 4096" by (rule vpn_koff(2) [OF n(5,13)])
  have "pages (ram_size L) = (0x10000000 - ?D + 4095) div 4096"
    using ram_size [OF L] by (subst pages_eq) simp_all
  then have ram': "vpn False (KVA2KPA (dynamic_start L)) + pages (ram_size L) \<le> 0x6010000"
    using section_span [OF n(18), of "0x10000000" "0x10000000"] n(13) ram by simp
  let ?M = "intervals False (map mmio_row mmio_windows)"
  let ?i = "\<lambda>va sz. (vpn False va, vpn False va + pages sz)"
  let ?t = "?i (text_start L) (etext L - text_start L)" and ?r = "?i (rodata L) (erodata L - rodata L)"
    and ?d = "?i (data_start L) (edata L - data_start L)" and ?c = "?i VAS_CPU_STRUCT 0x3000"
  have dd: "koff (rodata L) div 4096 \<le> koff (data_start L) div 4096"
      "koff (data_start L) div 4096 \<le> koff (cpu_structs L) div 4096"
    using n(8-11) by (intro div_le_mono; linarith)+
  have "place False kernel_roots ([] @ ?M) (text_start L) (etext L - text_start L)"
    by (rule place_kernel [OF refl, where r = 256]) (use sec c dd in auto)
  moreover have "place False kernel_roots ([?t] @ ?M) (rodata L) (erodata L - rodata L)"
    by (rule place_kernel [OF refl, where r = 256]) (use sec c dd vs in auto)
  moreover have "place False kernel_roots ([?r, ?t] @ ?M) (data_start L) (edata L - data_start L)"
    by (rule place_kernel [OF refl, where r = 256]) (use sec c dd vs in auto)
  moreover have "place False kernel_roots ([?d, ?r, ?t] @ ?M) VAS_CPU_STRUCT 0x3000"
    by (rule place_kernel [OF refl, where r = 257]) (use sec c dd cpu in auto)
  moreover have "place False kernel_roots ([?c, ?d, ?r, ?t] @ ?M) (KVA2KPA (dynamic_start L)) (ram_size L)"
    by (rule place_kernel [OF refl, where r = 384]) (use sec c dd cpu ram ram' in auto)
  ultimately show ?thesis by (simp add: section_rows [OF L])
qed

section \<open>init_vmem\<close>

text \<open>A page fresh from the allocator is an empty root table.\<close>

lemma fresh_root:
  assumes lk: "linker_ok dynamic" and fs: "free_set dynamic s F" and q: "kmalloc s = Inr (root, s1)"
  shows "root \<noteq> 0" "root \<in> F" "memset (mem s1) root 0 (uint PAGE_SIZE) = Inr (mem s1)"
    "pt_state dynamic False root s1 [root \<mapsto> []] (F - {root})"
    "translation (load64 (mem s1)) False 2 root va = None"
proof -
  note al = ka.alloc_free [OF fs q]
  then show nz: "root \<noteq> 0" and "root \<in> F" by simp_all
  obtain m where m: "memset (mem s1) root 0 (uint PAGE_SIZE) = Inr m"
    using memset_page [of root] nz by (simp add: layout_defs)
  with memset_fresh_page [OF fs q m] show "memset (mem s1) root 0 (uint PAGE_SIZE) = Inr (mem s1)" by simp
  have e: "PGROUNDDOWN (entry_addr root i) = root" "load64 (mem s1) (entry_addr root i) = 0"
    if "i < entries False []" for i
  proof -
    have "i < 512" using that by (simp add: entries_def)
    note p = entry_page [OF _ this, of root]
    show "PGROUNDDOWN (entry_addr root i) = root" using p al by simp
    with ka.alloc_word [OF fs q] p al show "load64 (mem s1) (entry_addr root i) = 0" by simp
  qed
  have "pt_tree (load64 (mem s1)) False root [root \<mapsto> []] (F - {root})"
    by (rule pt_tree_empty_root) (use nz al e in auto)
  with lk al show "pt_state dynamic False root s1 [root \<mapsto> []] (F - {root})" by (simp add: pt_state_def)
  show "translation (load64 (mem s1)) False 2 root va = None" by (rule translation_empty_root) (rule e)
qed

lemma CPU_SIZE_eq: "CPU_SIZE = 0x3000"
  by (simp add: CPU_SIZE_def CPU_STACK_OFF_def CPU_STACK_SIZE_def layout_defs)

lemma cpus_unat:
  assumes L: "linker_layout L" and tp: "unat tp < DTB_NR_CPUS"
  shows "unat (cpus L tp) = unat (cpu_structs L) + unat tp * 0x3000"
proof -
  note n = linker_numbers [OF L]
  have b: "unat tp * 0x3000 \<le> 0x3000" using tp by (simp add: layout_defs)
  then have m: "unat (tp * 0x3000) = unat tp * 0x3000" by (simp add: unat_word_ariths)
  have "unat (cpu_structs L) + unat tp * 0x3000 < 2 ^ 64"
    using b koff_add [OF n(4)] n(12,13) by simp
  then show ?thesis unfolding cpus_def CPU_SIZE_eq unat_word_ariths(1) m by simp
qed

lemma cpus_window:
  assumes L: "linker_layout L" and tp: "unat tp < DTB_NR_CPUS"
  shows "VAS_KERNEL \<le> cpus L tp" "koff (cpus L tp) + 0x3000 \<le> 0x10000000"
proof -
  note n = linker_numbers [OF L]
  have "unat tp * 0x3000 \<le> 0x3000" using tp by (simp add: layout_defs)
  then show "VAS_KERNEL \<le> cpus L tp" "koff (cpus L tp) + 0x3000 \<le> 0x10000000"
    using cpus_unat [OF L tp] koff_add [OF n(4)] n(12,13)
    by (simp_all add: koff_def [of "cpus L tp"] word_le_nat_alt layout_defs)
qed

lemma KVA2PA_nonnull: "VAS_KERNEL \<le> a \<Longrightarrow> koff a \<le> 0x10000000 \<Longrightarrow> KVA2PA a \<noteq> 0"
  using KVA2PA_koff(1) [of a] by auto

lemma sections_nonnull:
  assumes L: "linker_layout L" and tp: "unat tp < DTB_NR_CPUS"
  shows "\<forall>(va, pa, sz, fl, name) \<in> set (kernel_sections L 0 tp). pa \<noteq> 0"
proof -
  note n = linker_numbers [OF L]
  have "KVA2PA (text_start L) \<noteq> 0" "KVA2PA (rodata L) \<noteq> 0" "KVA2PA (data_start L) \<noteq> 0"
    "KVA2PA (dynamic_start L) \<noteq> 0"
    by (rule KVA2PA_nonnull, use n in linarith, use n in linarith)+
  moreover have "KVA2PA (cpus L tp) \<noteq> 0"
    by (rule KVA2PA_nonnull) (use cpus_window [OF L tp] in linarith)+
  ultimately show ?thesis by (simp add: kernel_sections_def mycpu_def)
qed

text \<open>
  With 2053 free pages (the root, and 513 tables for each of four root entries) \<open>init_vmem\<close> returns
  a table that maps exactly the kernel's regions.
\<close>

lemma init_vmem_ok:
  assumes L: "linker_layout L" and tp: "unat tp < DTB_NR_CPUS" and fs: "free_set (dynamic_start L) s F"
    and enough: "2053 + k \<le> card F"
  shows "\<exists>root s1 s' own' F'. init_vmem L 0 tp s = Inr (root, s') \<and> kmalloc s = Inr (root, s1) \<and>
    pt_mapped (dynamic_start L) False root s1 [root \<mapsto> []] (F - {root}) s' own' F' \<and>
    regions_mapped False root (kernel_regions L 0 tp) (load64 (mem s')) \<and> k \<le> card F'"
proof -
  let ?dyn = "dynamic_start L"
  have lk: "linker_ok ?dyn" using L by (simp add: linker_layout_def)
  have "F \<noteq> {}" using enough by auto
  then obtain root s1 where q: "kmalloc s = Inr (root, s1)" using ka.alloc_total [OF fs] by blast
  note r = fresh_root [OF lk fs q]
  have "card F = Suc (card (F - {root}))" using r(2) card_Suc_Diff1 [OF ka.ok_finite [OF fs]] by metis
  then have "513 * card kernel_roots + k \<le> card (F - {root})" using enough by (simp add: kernel_roots_def)
  then have sp: "space ?dyn False root kernel_roots k [] [] s1 [root \<mapsto> []] (F - {root})"
    by (intro empty_space r) (simp_all add: kernel_roots_def)
  have nz: "\<forall>(base, w) \<in> set mmio_windows. base \<noteq> 0" by (simp add: mmio_windows_def layout_defs)
  obtain s2 own2 F2 where m2: "map_mmio root mmio_windows 0 s1 = Inr (0, s2)"
    "pt_mapped ?dyn False root s1 [root \<mapsto> []] (F - {root}) s2 own2 F2"
    "space ?dyn False root kernel_roots k (map mmio_region mmio_windows) (intervals False (map mmio_row mmio_windows)) s2 own2 F2"
    using map_mmio_ok [OF sp nz mmio_placed, of 0] by auto
  obtain s' own' F' where m3: "map_sections root (kernel_sections L 0 tp) s2 = Inr s'"
    "pt_mapped ?dyn False root s2 own2 F2 s' own' F'" "k \<le> card F'"
    "regions_mapped False root (kernel_regions L 0 tp) (load64 (mem s'))"
    using map_sections_ok [OF m2(3) sections_nonnull [OF L tp] sections_placed [OF L]]
    unfolding kernel_regions_def by blast
  have "init_vmem L 0 tp s = Inr (root, s')" using q r(1,3) m2(1) m3(1) by (simp add: init_vmem_def)
  with q m3 pt_mapped_trans [OF m2(2) m3(2)] show ?thesis by blast
qed

section \<open>What the kernel's table allows\<close>

lemma small_flags: "w < 1024 \<Longrightarrow> u64_of_int (int_of_u64 w) = w"
  by (intro u64_int_small) (simp add: word_less_nat_alt)

lemma PA2PTE_low: "n < 10 \<Longrightarrow> \<not> bit (PA2PTE pa) n"
  by (simp add: PA2PTE_def bit_simps)

text \<open>The flags of each region of the kernel.\<close>

lemma kernel_region_flags:
  assumes "(va, fl, J, bk) \<in> set (kernel_regions L m tp)"
  shows "u64_of_int fl \<in> {PTE_R OR PTE_W OR PTE_G, PTE_R OR PTE_X OR PTE_G, PTE_R OR PTE_G, PTE_R OR PTE_W}"
    "bit (u64_of_int fl) 3 \<Longrightarrow> va = text_start L"
proof -
  have c: "u64_of_int mmio_flags = PTE_R OR PTE_W OR PTE_G"
    "u64_of_int (int_of_u64 (PTE_R OR PTE_X OR PTE_G)) = PTE_R OR PTE_X OR PTE_G"
    "u64_of_int (int_of_u64 (PTE_R OR PTE_G)) = PTE_R OR PTE_G"
    "u64_of_int (int_of_u64 (PTE_R OR PTE_W OR PTE_G)) = PTE_R OR PTE_W OR PTE_G"
    "u64_of_int (int_of_u64 (PTE_R OR PTE_W)) = PTE_R OR PTE_W"
    unfolding mmio_flags_def by (rule small_flags, simp add: layout_defs)+
  have x: "\<not> bit (PTE_R OR PTE_W OR PTE_G) 3" "\<not> bit (PTE_R OR PTE_G) 3" "\<not> bit (PTE_R OR PTE_W) 3"
    by (simp_all add: layout_defs bit_iff_odd)
  have "u64_of_int fl = PTE_R OR PTE_W OR PTE_G \<or> (\<exists>r \<in> set (kernel_sections L m tp). (va, fl, J, bk) = section_region r)"
    using assms c(1) by (auto simp: kernel_regions_def mmio_region_def)
  then have "u64_of_int fl = PTE_R OR PTE_W OR PTE_G \<or> va = text_start L \<and> u64_of_int fl = PTE_R OR PTE_X OR PTE_G \<or>
      u64_of_int fl = PTE_R OR PTE_G \<or> u64_of_int fl = PTE_R OR PTE_W"
    by (auto simp: kernel_sections_def section_region_def c(2-))
  with x show "u64_of_int fl \<in> {PTE_R OR PTE_W OR PTE_G, PTE_R OR PTE_X OR PTE_G, PTE_R OR PTE_G, PTE_R OR PTE_W}"
    "bit (u64_of_int fl) 3 \<Longrightarrow> va = text_start L" by auto
qed

text \<open>No page of the kernel is both writable and executable, and none is accessible to user mode.\<close>

lemma kernel_wx:
  assumes rm: "regions_mapped False root (kernel_regions L m tp) ld"
    and e: "translation ld False 2 root w = Some e"
  shows "\<not> (bit e 2 \<and> bit e 3)" "\<not> bit e 4" "bit e 1"
proof -
  from rm e obtain r where r: "r \<in> set (kernel_regions L m tp)" "region_leaf False r w e"
    by (auto simp: regions_mapped_def)
  obtain va fl J bk where rr: "r = (va, fl, J, bk)" by (cases r)
  with r(2) obtain j where ej: "e = PA2PTE (bk j) OR u64_of_int fl OR PTE_V" by (auto simp: region_leaf_def)
  have "bit e n \<longleftrightarrow> bit (u64_of_int fl) n" if "n \<in> {1, 2, 3, 4}" for n
    using that PA2PTE_low [of n "bk j"] by (auto simp: ej bit_or_iff PTE_V_def bit_1_iff)
  moreover have "\<not> (bit (u64_of_int fl) 2 \<and> bit (u64_of_int fl) 3)" "\<not> bit (u64_of_int fl) 4" "bit (u64_of_int fl) 1"
    using kernel_region_flags(1) [OF r(1) [unfolded rr]] by (auto simp: layout_defs bit_iff_odd)
  ultimately show "\<not> (bit e 2 \<and> bit e 3)" "\<not> bit e 4" "bit e 1" by auto
qed

lemma cpus_aligned: "linker_layout L \<Longrightarrow> take_bit 12 (cpus L tp) = 0"
proof -
  assume "linker_layout L"
  then have "take_bit 12 (cpu_structs L) = 0" by (simp add: linker_layout_def)
  moreover have "tp * 0x3000 = push_bit 12 (tp * 3)" by (simp add: push_bit_eq_mult)
  then have "take_bit 12 (tp * 0x3000) = 0" by (simp add: take_bit_push_bit)
  ultimately show ?thesis unfolding cpus_def CPU_SIZE_eq by (rule take_bit_add_aligned)
qed

text \<open>The common address of the per-hart structure leads each hart to its own.\<close>

lemma cpu_struct_translation:
  assumes L: "linker_layout L" and tp: "unat tp < DTB_NR_CPUS" and st: "pt_state dynamic False root s own F"
    and rm: "regions_mapped False root (kernel_regions L 0 tp) (load64 (mem s))" and x: "x < CPU_SIZE"
  shows "convert_va_to_pa root (VAS_CPU_STRUCT + x) False s = Inr (KVA2PA (cpus L tp) + x)"
proof (rule region_convert [OF st rm])
  have sz: "u64_of_int (int_of_u64 CPU_SIZE) = 0x3000"
    by (subst u64_int_small) (simp_all add: CPU_SIZE_eq)
  show "(VAS_CPU_STRUCT, int_of_u64 (PTE_R OR PTE_W), page_offsets 0 0x3000, \<lambda>j. KVA2PA (cpus L tp) + j)
      \<in> set (kernel_regions L 0 tp)"
    by (simp add: kernel_regions_def kernel_sections_def section_region_def sz mycpu_def)
  show "take_bit 12 VAS_CPU_STRUCT = 0" by (simp add: layout_defs)
  have "take_bit 12 (cpus L tp + (DTB_MEMORY - VAS_KERNEL)) = 0"
    by (rule take_bit_add_aligned [OF cpus_aligned [OF L]]) (simp add: layout_defs)
  then show "take_bit 12 (KVA2PA (cpus L tp)) = 0" by (simp add: KVA2PA_def algebra_simps)
  show "u64_of_int (int_of_u64 (PTE_R OR PTE_W)) < 1024"
    by (subst small_flags) (simp_all add: layout_defs)
  show "x < PGROUNDUP 0x3000" using x by (simp add: CPU_SIZE_eq PGROUNDUP_def layout_defs)
qed

section \<open>Harts\<close>

lemma init_hart_registers:
  assumes h: "h' = init_hart L m tp vec root h"
  shows "satp (hcsr h') = drop_bit 12 (KPA2PA root) OR ATP_MODE_SV39"
    "n < 64 \<Longrightarrow> bit (sie (hcsr h')) n \<longleftrightarrow> n \<noteq> 5 \<and> (n = 9 \<or> bit (sie (hcsr h)) n)"
    "take_bit 2 vec = 0 \<Longrightarrow> stvec (hcsr h') = vec"
    "hsp h' - VAS_CPU_STRUCT = hsp h - cpus L tp" "hfp h' - VAS_CPU_STRUCT = hfp h - cpus L tp"
proof -
  note d = init_hart_def relocate_stack_def Let_def
  show "satp (hcsr h') = drop_bit 12 (KPA2PA root) OR ATP_MODE_SV39" by (simp add: h d)
  have one: "bit (push_bit k 1 :: uint64) n \<longleftrightarrow> n = k" if "k < 64" for k n
    using that by (auto simp: bit_push_bit_iff bit_1_iff simp del: push_bit_of_1)
  have "sie (hcsr h') = CSRC (CSRS (sie (hcsr h)) SIE_SEIE) SIE_STIE" by (simp add: h d)
  then show "bit (sie (hcsr h')) n \<longleftrightarrow> n \<noteq> 5 \<and> (n = 9 \<or> bit (sie (hcsr h)) n)" if "n < 64"
    using that CSRC_CSRS_bit [OF that] one [of 5 n] one [of 9 n] by (auto simp: csr_defs simp del: push_bit_of_1)
  have "vec AND NOT (mask 2) = vec" if "take_bit 2 vec = 0"
    using that bits_split [of 2 vec] by (simp only: and_not_mask_eq) simp
  then show "stvec (hcsr h') = vec" if "take_bit 2 vec = 0"
    using that by (simp add: h d csr_defs mask_eq_exp_minus_1)
  show "hsp h' - VAS_CPU_STRUCT = hsp h - cpus L tp" "hfp h' - VAS_CPU_STRUCT = hfp h - cpus L tp"
    by (simp_all add: h d cpus_def)
qed

text \<open>
  After \<open>init_hart\<close> a hart whose frame lies in its own stack finds its number in its structure, by
  either address of the structure.
\<close>

lemma behind_struct:
  "behind L tp (VAS_CPU_STRUCT + x) = cpus L tp + x" if "x < CPU_SIZE"
proof -
  have "unat (VAS_CPU_STRUCT + x) = unat VAS_CPU_STRUCT + unat x"
    using that by (simp add: CPU_SIZE_eq layout_defs unat_word_ariths word_less_nat_alt)
  then have "VAS_CPU_STRUCT \<le> VAS_CPU_STRUCT + x" "VAS_CPU_STRUCT + x < VAS_CPU_STRUCT + CPU_SIZE"
    using that by (simp_all add: word_le_nat_alt word_less_nat_alt CPU_SIZE_eq layout_defs)
  then show ?thesis by (simp add: behind_def)
qed

lemma get_hartid_init:
  assumes L: "linker_layout L" and tp: "unat tp < DTB_NR_CPUS"
    and fp: "hfp h = cpus L tp + y + 16" "8 \<le> y" "y < CPU_SIZE" "take_bit 3 y = 0"
    and h': "h' = init_hart L 0 tp vec root h"
  shows "get_hartid L 0 tp (hmem h') = tp" "get_hartid L 1 tp (hmem h') = tp"
proof -
  let ?c = "cpus L tp"
  have al: "take_bit 3 ?c = 0" by (rule take_bit_3_of_12 [OF cpus_aligned [OF L]])
  have "hfp h + (VAS_CPU_STRUCT - tp * CPU_SIZE - cpu_structs L) - 16 = VAS_CPU_STRUCT + y"
    by (simp add: fp(1) cpus_def)
  then have slot: "behind L tp (hfp h + (VAS_CPU_STRUCT - tp * CPU_SIZE - cpu_structs L) - 16) = ?c + y"
    by (simp only: behind_struct [OF fp(3)])
  have m: "hmem h' = store64 (store64 (hmem h) ?c tp) (?c + y)
      (load64 (store64 (hmem h) ?c tp) (?c + y) + (VAS_CPU_STRUCT - tp * CPU_SIZE - cpu_structs L))"
    by (simp add: h' init_hart_def relocate_stack_def Let_def mycpu_def slot)
  have ne: "?c + y \<noteq> ?c" using fp(2) by auto
  have aly: "take_bit 3 (?c + y) = 0" by (rule take_bit_add_aligned [OF al fp(4)])
  have ld: "load64 (hmem h') ?c = tp"
    unfolding m using al aly ne by (simp add: bm.ld_st_other bm.ld_st_same)
  have out: "behind L tp ?c = ?c"
    using cpus_window [OF L tp] koff_add [of ?c] by (auto simp: behind_def layout_defs word_le_nat_alt)
  show "get_hartid L 0 tp (hmem h') = tp" using ld out by (simp add: get_hartid_def mycpu_def)
  show "get_hartid L 1 tp (hmem h') = tp"
    using ld behind_struct [of 0 L tp] by (simp add: get_hartid_def mycpu_def CPU_SIZE_eq)
qed

end
