(* ===== verification/Vm_Config.thy ===== *)
theory Vm_Config
  imports Layout Lock
begin

text \<open>
  The static configuration of the virtual machines: the structures of
  \<^verbatim>\<open>src/src/include/vm_config.h\<close> and the table of \<^verbatim>\<open>src/src/guest/vm_config.c\<close>. The addresses of the
  embedded guest images and of the root page tables are placed by the linker; they are
  parameters of \<open>config_table\<close>. An array of pointers is a list of options, \<open>None\<close> being the null
  pointer.
\<close>

section \<open>Structures\<close>

definition MAX_DEVS :: nat where [layout_defs]: "MAX_DEVS = 10"

record mmio_dev =
  phys_base :: uint64
  virt_base :: uint64
  dev_size :: uint64
  perm :: uint64
  phys_irq :: int
  virt_irq :: int

record vm_config =
  cpu_affinity :: uint64
  image_base :: uint64
  image_end :: uint64
  memory_base :: uint64
  memory_size :: uint64
  vm_entry :: uint64
  devices :: "mmio_dev option list"
  bar :: barrier
  vm_pgtable :: uint64

section \<open>Devices\<close>

definition emulated_plic :: mmio_dev where
  "emulated_plic = \<lparr>phys_base = DTB_PLIC, virt_base = DTB_PLIC, dev_size = DTB_PLIC_SIZE,
     perm = 0, phys_irq = 0, virt_irq = 0\<rparr>"

definition serial :: mmio_dev where
  "serial = \<lparr>phys_base = DTB_SERIAL, virt_base = DTB_SERIAL, dev_size = PAGE_SIZE,
     perm = PTE_R OR PTE_W, phys_irq = 10, virt_irq = 10\<rparr>"

definition virtio_disk_1 :: mmio_dev where
  "virtio_disk_1 = \<lparr>phys_base = 0x10001000, virt_base = 0x10001000, dev_size = 0x1000,
     perm = PTE_R OR PTE_W, phys_irq = 1, virt_irq = 1\<rparr>"

definition pci_serial :: mmio_dev where
  "pci_serial = \<lparr>phys_base = DTB_PCI_IO, virt_base = DTB_SERIAL, dev_size = PAGE_SIZE,
     perm = PTE_R OR PTE_W, phys_irq = 33, virt_irq = 10\<rparr>"

definition virtio_disk_2 :: mmio_dev where
  "virtio_disk_2 = \<lparr>phys_base = 0x10002000, virt_base = 0x10001000, dev_size = 0x1000,
     perm = PTE_R OR PTE_W, phys_irq = 2, virt_irq = 1\<rparr>"

text \<open>An initialised array of pointers: the slots that are not given are null.\<close>

definition device_array :: "mmio_dev list \<Rightarrow> mmio_dev option list" where
  "device_array ds = map Some ds @ replicate (MAX_DEVS - length ds) None"

definition config_table ::
  "uint64 \<Rightarrow> uint64 \<Rightarrow> uint64 \<Rightarrow> uint64 \<Rightarrow> uint64 \<Rightarrow> uint64 \<Rightarrow> vm_config list" where
  "config_table vm_xv6 vm_xv6_end vm_another_xv6 vm_another_xv6_end pgtable0 pgtable1 =
     [\<lparr>cpu_affinity = 0x1, image_base = KVA2PA vm_xv6, image_end = KVA2PA vm_xv6_end,
       memory_base = 0x80100000, memory_size = push_bit 20 16, vm_entry = 0x80100000,
       devices = device_array [serial, emulated_plic, virtio_disk_1],
       bar = BARRIER_INITIALIZER 0, vm_pgtable = pgtable0\<rparr>,
      \<lparr>cpu_affinity = 0x2, image_base = KVA2PA vm_another_xv6, image_end = KVA2PA vm_another_xv6_end,
       memory_base = 0x80100000, memory_size = push_bit 20 16, vm_entry = 0x80100000,
       devices = device_array [pci_serial, emulated_plic, virtio_disk_2],
       bar = BARRIER_INITIALIZER 0, vm_pgtable = pgtable1\<rparr>]"

text \<open>The devices of a null terminated array, up to the first null pointer.\<close>

definition device_list :: "mmio_dev option list \<Rightarrow> mmio_dev list" where
  "device_list devs = map the (takeWhile (\<lambda>d. d \<noteq> None) devs)"

lemma device_list_array: "device_list (device_array ds) = ds"
proof -
  have "takeWhile (\<lambda>d. d \<noteq> None) (map Some ds @ replicate n None) = map Some ds" for n
    by (induction ds) (cases n, auto)
  then show ?thesis by (simp add: device_list_def device_array_def comp_def)
qed

end
