(* ===== verification/Vcpu.thy ===== *)
theory Vcpu
  imports Kmem Bits Riscv Vm_Config
begin

text \<open>
  Virtual CPUs, \<^verbatim>\<open>src/src/virtual/vcpu.c\<close>: every physical hart runs one virtual CPU of the machine
  whose affinity mask names it. \<open>hv\<close> is the state the hypervisor's handlers work on: the
  allocator with kernel memory, the configuration table, the virtual CPUs, the control and status
  registers of the hart that executes, and the state of the interrupt controller. The hart number
  that \<^verbatim>\<open>get_hartid()\<close> returns is an argument.

  The lemmas show that the harts of a virtual machine get the virtual hart numbers
  \<open>0, 1, \<dots>, n - 1\<close>, each exactly once.
\<close>

section \<open>State\<close>

record vcpu =
  vhartid :: uint64
  last_claimed_irq_id :: uint32
  conf :: nat
  regs :: "uint64 list"

record 'd hv =
  kmem :: kmem_state
  config :: "vm_config list"
  vcpus :: "vcpu list"
  csr :: csr_file
  plic :: 'd

section \<open>Operations\<close>

text \<open>\<^verbatim>\<open>1 << hartid\<close> on \<^verbatim>\<open>int\<close>, then converted to 64 bits; undefined from 32 on.\<close>

definition shl_one :: "uint64 \<Rightarrow> uint64 outcome" where
  "shl_one hartid =
     (if hartid < 32 then Inr (scast (push_bit (unat hartid) 1 :: 32 word))
      else Inl (Undefined ''shift count''))"

fun config_loop :: "vm_config list \<Rightarrow> nat \<Rightarrow> uint64 \<Rightarrow> nat outcome" where
  "config_loop [] i hartid = Inl (Panic ''No way (CPU configuration was already checked)'')"
| "config_loop (c # cs) i hartid =
     bindE (shl_one hartid) (\<lambda>b.
       if cpu_affinity c AND b \<noteq> 0 then Inr i else config_loop cs (Suc i) hartid)"

definition get_config_for_cpu :: "vm_config list \<Rightarrow> uint64 \<Rightarrow> nat outcome" where
  "get_config_for_cpu cfg hartid = config_loop cfg 0 hartid"

definition get_vhartid :: "uint64 \<Rightarrow> uint64 \<Rightarrow> uint64" where
  "get_vhartid hartid affinity =
     fst (fold (\<lambda>_ (vhartid, affinity).
            (if affinity AND 1 \<noteq> 0 then vhartid + 1 else vhartid, drop_bit 1 affinity))
          [0..<unat hartid] (0, affinity))"

text \<open>\<^verbatim>\<open>&vcpus[get_hartid()]\<close>: the index of the virtual CPU, inside the array.\<close>

definition get_vcpu :: "uint64 \<Rightarrow> 'd hv \<Rightarrow> nat outcome" where
  "get_vcpu hartid s =
     (if unat hartid < length (vcpus s) then Inr (unat hartid)
      else Inl (Undefined ''vcpus out of bounds''))"

text \<open>\<^verbatim>\<open>&vcpu->regs\<close>, for the array of virtual CPUs at address \<open>vcpus_addr\<close>.\<close>

definition regs_addr :: "uint64 \<Rightarrow> nat \<Rightarrow> uint64" where
  "regs_addr vcpus_addr v = vcpus_addr + 280 * of_nat v + 24"

definition init_vcpu :: "uint64 \<Rightarrow> uint64 \<Rightarrow> nat \<Rightarrow> 'd hv \<Rightarrow> 'd hv outcome" where
  "init_vcpu vcpus_addr hartid v s =
     bindE (get_config_for_cpu (config s) hartid) (\<lambda>c.
       let vh = get_vhartid hartid (cpu_affinity (config s ! c));
           r = (replicate 32 0)[10 := vh, 11 := 0xff];
           vc = \<lparr>vhartid = vh, last_claimed_irq_id = 0, conf = c, regs = r\<rparr>
       in Inr (s\<lparr>vcpus := (vcpus s)[v := vc],
                 csr := (csr s)\<lparr>sscratch := regs_addr vcpus_addr v\<rparr>\<rparr>))"

section \<open>Virtual hart numbers\<close>

lemma get_vhartid_fold:
  "fold (\<lambda>_ (v, a). (if a AND 1 \<noteq> 0 then v + 1 else v, drop_bit 1 a)) [0..<n] (0, aff) =
     (of_nat (card {k. k < n \<and> bit aff k}), drop_bit n aff)" for aff :: uint64
proof (induction n)
  case 0
  show ?case by simp
next
  case (Suc n)
  have "drop_bit n aff AND 1 \<noteq> 0 \<longleftrightarrow> bit aff n"
    by (simp add: and_one_eq odd_iff_mod_2_eq_one [symmetric] bit_iff_odd_drop_bit)
  moreover have "{k. k < Suc n \<and> bit aff k} =
      (if bit aff n then insert n {k. k < n \<and> bit aff k} else {k. k < n \<and> bit aff k})"
    by (auto simp: less_Suc_eq)
  ultimately show ?case using Suc by (simp add: add.commute)
qed

lemma get_vhartid_eq: "get_vhartid h aff = of_nat (card {k. k < unat h \<and> bit aff k})"
  unfolding get_vhartid_def get_vhartid_fold by simp

lemma unat_get_vhartid: "unat (get_vhartid h aff) = card {k. k < unat h \<and> bit aff k}"
proof -
  have "{k. k < unat h \<and> bit aff k} \<subseteq> {..<64}" using bit_imp_le_length [of aff] by auto
  then have "card {k. k < unat h \<and> bit aff k} \<le> 64" using card_mono [of "{..<64 :: nat}"] by fastforce
  then show ?thesis by (simp add: get_vhartid_eq unat_of_nat)
qed

text \<open>
  The harts of a machine with affinity mask \<open>aff\<close>, below a bound on the number of harts.
\<close>

definition affinity_harts :: "uint64 \<Rightarrow> uint64 set" where
  "affinity_harts aff = {h. bit aff (unat h)}"

lemma card_below_strict:
  assumes "bit aff i" "i < j"
  shows "card {k. k < i \<and> bit aff k} < card {k. k < j \<and> bit aff k}"
  using assms by (intro psubset_card_mono) (auto simp: psubset_eq intro: order.strict_trans)

lemma get_vhartid_strict_mono:
  assumes "h \<in> affinity_harts aff" "h < h'"
  shows "get_vhartid h aff < get_vhartid h' aff"
  using assms card_below_strict [of aff "unat h" "unat h'"]
  by (simp add: word_less_nat_alt unat_get_vhartid affinity_harts_def)

lemma get_vhartid_inj: "inj_on (\<lambda>h. get_vhartid h aff) (affinity_harts aff)"
  by (rule linorder_inj_onI) (use get_vhartid_strict_mono in \<open>fastforce+\<close>)

lemma affinity_harts_image: "unat ` affinity_harts aff = {k. k < 64 \<and> bit aff k}"
proof
  show "unat ` affinity_harts aff \<subseteq> {k. k < 64 \<and> bit aff k}"
    using bit_imp_le_length [of aff] by (auto simp: affinity_harts_def)
  show "{k. k < 64 \<and> bit aff k} \<subseteq> unat ` affinity_harts aff"
  proof
    fix k assume "k \<in> {k. k < 64 \<and> bit aff k}"
    then have "k = unat (of_nat k :: uint64)" "of_nat k \<in> affinity_harts aff"
      by (auto simp: affinity_harts_def unat_of_nat)
    then show "k \<in> unat ` affinity_harts aff" by blast
  qed
qed

lemma card_affinity_harts: "card (affinity_harts aff) = popcount aff"
proof -
  have "card (unat ` affinity_harts aff) = card (affinity_harts aff)"
    by (rule card_image) (auto simp: inj_on_def word_unat_eq_iff)
  then show ?thesis by (simp add: affinity_harts_image popcount_def)
qed

lemma finite_affinity_harts: "finite (affinity_harts aff)"
  by simp

text \<open>The virtual hart numbers of a machine are exactly \<open>0, \<dots>, n - 1\<close>.\<close>

lemma get_vhartid_image:
  "unat ` (\<lambda>h. get_vhartid h aff) ` affinity_harts aff = {..<popcount aff}"
proof (rule card_subset_eq)
  show "unat ` (\<lambda>h. get_vhartid h aff) ` affinity_harts aff \<subseteq> {..<popcount aff}"
  proof
    fix n assume "n \<in> unat ` (\<lambda>h. get_vhartid h aff) ` affinity_harts aff"
    then obtain h where h: "h \<in> affinity_harts aff" "n = card {k. k < unat h \<and> bit aff k}"
      by (auto simp: unat_get_vhartid)
    then have "n < card {k. k < 64 \<and> bit aff k}"
      using card_below_strict [of aff "unat h" 64] bit_imp_le_length [of aff "unat h"]
      by (simp add: affinity_harts_def)
    then show "n \<in> {..<popcount aff}" by (simp add: popcount_def)
  qed
  have "inj_on (unat \<circ> (\<lambda>h. get_vhartid h aff)) (affinity_harts aff)"
    by (rule comp_inj_on [OF get_vhartid_inj]) (auto simp: inj_on_def word_unat_eq_iff)
  from card_image [OF this]
  show "card (unat ` (\<lambda>h. get_vhartid h aff) ` affinity_harts aff) = card {..<popcount aff}"
    by (simp add: image_comp card_affinity_harts)
qed simp

section \<open>Initialising a virtual CPU\<close>

text \<open>The configuration found for a hart is the first one whose mask has the hart's bit.\<close>

lemma shl_one_and: "h < 31 \<Longrightarrow> shl_one h = Inr b \<Longrightarrow> (aff AND b \<noteq> 0) = bit aff (unat h)"
proof -
  assume h: "h < 31" and b: "shl_one h = Inr b"
  from h have "unat h < 31" by (simp add: word_less_nat_alt)
  moreover from this have "b = 2 ^ unat h"
    using b scast_one_bit [of "unat h"] by (auto simp: shl_one_def push_bit_eq_mult split: if_splits)
  ultimately show ?thesis by (simp add: and_bit_nonzero)
qed

lemma shl_one_total: "h < 31 \<Longrightarrow> \<exists>b. shl_one h = Inr b"
  by (auto simp: shl_one_def word_less_nat_alt)

lemma config_loop_find:
  assumes h: "h < 31" and i: "i < length cs" "bit (cpu_affinity (cs ! i)) (unat h)"
    and first: "\<forall>j < i. \<not> bit (cpu_affinity (cs ! j)) (unat h)"
  shows "config_loop cs n h = Inr (n + i)"
  using i first
proof (induction cs arbitrary: i n)
  case (Cons c cs)
  obtain b where b: "shl_one h = Inr b" using shl_one_total [OF h] ..
  show ?case
  proof (cases i)
    case 0
    then show ?thesis using Cons.prems b shl_one_and [OF h b] by simp
  next
    case (Suc k)
    then have "\<not> bit (cpu_affinity c) (unat h)" using Cons.prems(3) by force
    moreover have "config_loop cs (Suc n) h = Inr (Suc n + k)"
      using Cons.prems Suc by (intro Cons.IH) auto
    ultimately show ?thesis using b shl_one_and [OF h b] Suc by simp
  qed
qed simp

lemma config_loop_none:
  assumes "h < 31" "\<forall>c \<in> set cs. \<not> bit (cpu_affinity c) (unat h)"
  shows "\<exists>msg. config_loop cs n h = Inl (Panic msg)"
  using assms(2)
proof (induction cs arbitrary: n)
  case (Cons c cs)
  obtain b where b: "shl_one h = Inr b" using shl_one_total [OF assms(1)] ..
  with Cons shl_one_and [OF assms(1) b] show ?case by simp
qed simp

end
