(* ===== verification/Plic.thy ===== *)
theory Plic
  imports Layout
begin

text \<open>
  The driver of the platform interrupt controller, \<^verbatim>\<open>src/src/driver/plic.c\<close>. The controller is
  hardware: a device is a pair of functions, the effect of a 32-bit read and of a 32-bit write at
  an address, over an arbitrary device state. The driver's operations take the device as an
  argument.

  The lemmas give the register each operation touches, show that no two registers of the map
  coincide, and, for a device whose enable registers behave as the specification of the
  controller documents (\<open>enable_regs_hw\<close>), that enabling a source for a context changes that
  source of that context and nothing else.
\<close>

section \<open>The device\<close>

record 'd mmio =
  mmio_read :: "'d \<Rightarrow> uint64 \<Rightarrow> uint32 \<times> 'd"
  mmio_write :: "'d \<Rightarrow> uint64 \<Rightarrow> uint32 \<Rightarrow> 'd"

text \<open>\<^verbatim>\<open>&plic[offset]\<close>.\<close>

definition plic_addr :: "int \<Rightarrow> uint64" where
  "plic_addr offset = DTB_PLIC + 4 * word_of_int offset"

text \<open>An atomic read-modify-write of a device word (\<^verbatim>\<open>amoand.w\<close>, \<^verbatim>\<open>amoor.w\<close>).\<close>

definition amo_w :: "'d mmio \<Rightarrow> 'd \<Rightarrow> uint64 \<Rightarrow> (uint32 \<Rightarrow> uint32) \<Rightarrow> 'd" where
  "amo_w dev d a f = (let (v, d') = mmio_read dev d a in mmio_write dev d' a (f v))"

section \<open>Operations\<close>

definition bad_source :: "int \<Rightarrow> bool" where
  "bad_source interrupt_source \<longleftrightarrow> interrupt_source < 1 \<or> 1023 < interrupt_source"

definition bad_context :: "int \<Rightarrow> bool" where
  "bad_context context \<longleftrightarrow> context < 0 \<or> 15871 < context"

definition plic_get_priority :: "'d mmio \<Rightarrow> int \<Rightarrow> 'd \<Rightarrow> uint32 \<times> 'd" where
  "plic_get_priority dev interrupt_source d =
     (if bad_source interrupt_source then (0, d)
      else mmio_read dev d (plic_addr interrupt_source))"

definition plic_set_priority :: "'d mmio \<Rightarrow> int \<Rightarrow> uint32 \<Rightarrow> 'd \<Rightarrow> 'd" where
  "plic_set_priority dev interrupt_source priority d =
     (if bad_source interrupt_source then d
      else mmio_write dev d (plic_addr interrupt_source) priority)"

definition source_mask :: "int \<Rightarrow> uint32" where
  "source_mask interrupt_source = push_bit (nat (interrupt_source mod 32)) 1"

definition plic_get_pending :: "'d mmio \<Rightarrow> int \<Rightarrow> 'd \<Rightarrow> uint32 \<times> 'd" where
  "plic_get_pending dev interrupt_source d =
     (if bad_source interrupt_source then (0, d)
      else let offset = 0x1000 div 4 + interrupt_source div 32;
               (v, d') = mmio_read dev d (plic_addr offset)
           in (v AND source_mask interrupt_source, d'))"

definition enable_offset :: "int \<Rightarrow> int \<Rightarrow> int" where
  "enable_offset context interrupt_source =
     (let source_offset = interrupt_source div 32;
          context_offset = 1024 div 32
      in 0x2000 div 4 + context_offset * context + source_offset)"

definition plic_get_enabled :: "'d mmio \<Rightarrow> int \<Rightarrow> int \<Rightarrow> 'd \<Rightarrow> uint32 \<times> 'd" where
  "plic_get_enabled dev context interrupt_source d =
     (if bad_source interrupt_source then (0, d)
      else if bad_context context then (0, d)
      else let (v, d') = mmio_read dev d (plic_addr (enable_offset context interrupt_source))
           in (v AND source_mask interrupt_source, d'))"

definition plic_set_enabled :: "'d mmio \<Rightarrow> int \<Rightarrow> int \<Rightarrow> int \<Rightarrow> 'd \<Rightarrow> 'd" where
  "plic_set_enabled dev context interrupt_source enable d =
     (if bad_source interrupt_source then d
      else if bad_context context then d
      else let a = plic_addr (enable_offset context interrupt_source) in
           if enable = 0
           then amo_w dev d a (\<lambda>v. v AND NOT (source_mask interrupt_source))
           else amo_w dev d a (\<lambda>v. v OR source_mask interrupt_source))"

definition threshold_offset :: "int \<Rightarrow> int" where
  "threshold_offset context = 0x200000 div 4 + 0x1000 div 4 * context"

definition claim_offset :: "int \<Rightarrow> int" where
  "claim_offset context = 0x200004 div 4 + 0x1000 div 4 * context"

definition plic_get_threshold :: "'d mmio \<Rightarrow> int \<Rightarrow> 'd \<Rightarrow> uint32 \<times> 'd" where
  "plic_get_threshold dev context d =
     (if bad_context context then (0, d)
      else mmio_read dev d (plic_addr (threshold_offset context)))"

definition plic_set_threshold :: "'d mmio \<Rightarrow> int \<Rightarrow> uint32 \<Rightarrow> 'd \<Rightarrow> 'd" where
  "plic_set_threshold dev context threshold d =
     (if bad_context context then d
      else mmio_write dev d (plic_addr (threshold_offset context)) threshold)"

definition plic_claim :: "'d mmio \<Rightarrow> int \<Rightarrow> 'd \<Rightarrow> uint32 \<times> 'd" where
  "plic_claim dev context d =
     (if bad_context context then (0, d)
      else mmio_read dev d (plic_addr (claim_offset context)))"

definition plic_complete :: "'d mmio \<Rightarrow> int \<Rightarrow> uint32 \<Rightarrow> 'd \<Rightarrow> 'd" where
  "plic_complete dev context interrupt_id d =
     (if bad_context context then d
      else mmio_write dev d (plic_addr (claim_offset context)) interrupt_id)"

section \<open>The register map\<close>

lemma plic_addr_inj:
  assumes "0 \<le> x" "x < 2 ^ 30" "0 \<le> y" "y < 2 ^ 30" "plic_addr x = plic_addr y"
  shows "x = y"
proof -
  have "4 * word_of_int x = (4 * word_of_int y :: uint64)"
    using assms(5) by (simp add: plic_addr_def)
  then have "(word_of_int (4 * x) :: uint64) = word_of_int (4 * y)" by simp
  then have "uint (word_of_int (4 * x) :: uint64) = uint (word_of_int (4 * y) :: uint64)" by simp
  moreover have "uint (word_of_int (4 * z) :: uint64) = 4 * z" if "0 \<le> z" "z < 2 ^ 30" for z
    using that by (simp only: unsigned_of_int) (simp add: take_bit_int_eq_self)
  ultimately show ?thesis using assms by simp
qed

definition good :: "int \<Rightarrow> int \<Rightarrow> bool" where
  "good context src \<longleftrightarrow> \<not> bad_context context \<and> \<not> bad_source src"

lemma base32_unique:
  fixes a b c d :: int
  shows "32 * c + a = 32 * d + b \<Longrightarrow> 0 \<le> a \<Longrightarrow> a < 32 \<Longrightarrow> 0 \<le> b \<Longrightarrow> b < 32 \<Longrightarrow> c = d \<and> a = b"
  by presburger

lemma enable_offset_eq: "enable_offset context src = 2048 + 32 * context + src div 32"
  by (simp add: enable_offset_def)

lemma enable_offset_range:
  "good context src \<Longrightarrow> 2048 \<le> enable_offset context src \<and> enable_offset context src < 0x80000"
  by (auto simp: good_def bad_context_def bad_source_def enable_offset_eq)

lemma enable_addr_inj:
  assumes "good c x" "good c' x'"
  shows "plic_addr (enable_offset c x) = plic_addr (enable_offset c' x') \<longleftrightarrow> c = c' \<and> x div 32 = x' div 32"
proof
  assume eq: "plic_addr (enable_offset c x) = plic_addr (enable_offset c' x')"
  have "enable_offset c x = enable_offset c' x'"
    by (rule plic_addr_inj [OF _ _ _ _ eq])
       (use enable_offset_range [OF assms(1)] enable_offset_range [OF assms(2)] in simp_all)
  moreover have "0 \<le> x div 32" "x div 32 < 32" "0 \<le> x' div 32" "x' div 32 < 32"
    using assms by (auto simp: good_def bad_source_def)
  ultimately show "c = c' \<and> x div 32 = x' div 32"
    using base32_unique [of c "x div 32" c' "x' div 32"] by (simp add: enable_offset_eq)
qed (simp add: enable_offset_eq)

lemma plic_addr_bounds:
  assumes "0 \<le> x" "x < 0x180000"
  shows "DTB_PLIC \<le> plic_addr x \<and> plic_addr x < DTB_PLIC + DTB_PLIC_SIZE"
proof -
  have "uint (4 * word_of_int x :: uint64) = 4 * x"
    using assms by (simp add: uint_word_ariths unsigned_of_int take_bit_int_eq_self)
  then have "uint (plic_addr x) = 0xc000000 + 4 * x"
    using assms by (simp add: plic_addr_def layout_defs uint_word_ariths)
  then show ?thesis using assms by (simp add: word_le_def word_less_def layout_defs)
qed

section \<open>Enable registers\<close>

text \<open>
  Documented behaviour of the controller: an enable register is read without side effect, its
  unimplemented bits read as zero, and a write sets its implemented bits and no other enable
  register.
\<close>

definition enable_regs_hw :: "'d mmio \<Rightarrow> ('d \<Rightarrow> uint64 \<Rightarrow> uint32) \<Rightarrow> (uint64 \<Rightarrow> uint32) \<Rightarrow> bool" where
  "enable_regs_hw dev peek impl \<longleftrightarrow>
     (\<forall>c x d. good c x \<longrightarrow>
        mmio_read dev d (plic_addr (enable_offset c x)) = (peek d (plic_addr (enable_offset c x)), d) \<and>
        peek d (plic_addr (enable_offset c x)) AND NOT (impl (plic_addr (enable_offset c x))) = 0) \<and>
     (\<forall>c x c' x' d v. good c x \<longrightarrow> good c' x' \<longrightarrow>
        peek (mmio_write dev d (plic_addr (enable_offset c x)) v) (plic_addr (enable_offset c' x')) =
          (if plic_addr (enable_offset c' x') = plic_addr (enable_offset c x)
           then v AND impl (plic_addr (enable_offset c x))
           else peek d (plic_addr (enable_offset c' x'))))"

definition enabled :: "'d mmio \<Rightarrow> int \<Rightarrow> int \<Rightarrow> 'd \<Rightarrow> bool" where
  "enabled dev context src d \<longleftrightarrow> fst (plic_get_enabled dev context src d) \<noteq> 0"

definition implemented :: "(uint64 \<Rightarrow> uint32) \<Rightarrow> int \<Rightarrow> int \<Rightarrow> bool" where
  "implemented impl context src \<longleftrightarrow>
     bit (impl (plic_addr (enable_offset context src))) (nat (src mod 32))"

lemma and_source_mask: "v AND source_mask src \<noteq> 0 \<longleftrightarrow> bit v (nat (src mod 32))"
  by (simp add: source_mask_def push_bit_eq_mult and_exp_eq_0_iff_not_bit)

lemma bit_source_mask: "bit (source_mask src) n \<longleftrightarrow> n = nat (src mod 32)"
proof -
  have "nat (src mod 32) < 32" by simp
  then show ?thesis by (auto simp: source_mask_def bit_simps)
qed

lemma enabled_peek:
  assumes "enable_regs_hw dev peek impl" "good c x"
  shows "enabled dev c x d \<longleftrightarrow> bit (peek d (plic_addr (enable_offset c x))) (nat (x mod 32))"
  using assms by (simp add: enabled_def plic_get_enabled_def enable_regs_hw_def good_def and_source_mask)

lemma enabled_implemented:
  assumes hw: "enable_regs_hw dev peek impl" and g: "good c x" and e: "enabled dev c x d"
  shows "implemented impl c x"
proof -
  let ?a = "plic_addr (enable_offset c x)" and ?k = "nat (x mod 32)"
  have "peek d ?a AND NOT (impl ?a) = 0" using hw g by (simp add: enable_regs_hw_def)
  then have "\<not> bit (peek d ?a AND NOT (impl ?a)) ?k" by simp
  moreover have "bit (peek d ?a) ?k" "?k < 32" using e by (simp_all add: enabled_peek [OF hw g])
  ultimately show ?thesis by (auto simp: implemented_def bit_simps)
qed

lemma plic_set_enabled_effect:
  assumes hw: "enable_regs_hw dev peek impl" and g: "good c x" "good c' x'"
    and impl: "implemented impl c x"
  shows "enabled dev c' x' (plic_set_enabled dev c x enable d) \<longleftrightarrow>
    (if c' = c \<and> x' = x then enable \<noteq> 0 else enabled dev c' x' d)"
proof -
  let ?a = "plic_addr (enable_offset c x)" and ?b = "plic_addr (enable_offset c' x')"
  let ?k = "nat (x mod 32)" and ?n = "nat (x' mod 32)"
  define v where "v = (if enable = 0 then peek d ?a AND NOT (source_mask x) else peek d ?a OR source_mask x)"
  have set: "plic_set_enabled dev c x enable d = mmio_write dev d ?a v"
    using hw g(1) by (simp add: plic_set_enabled_def good_def enable_regs_hw_def amo_w_def v_def Let_def)
  have peek: "peek (mmio_write dev d ?a v) ?b = (if ?b = ?a then v AND impl ?a else peek d ?b)"
    using hw g unfolding enable_regs_hw_def by blast
  have n: "?n < 32" by simp
  have same: "?b = ?a \<longleftrightarrow> c' = c \<and> x' div 32 = x div 32" using enable_addr_inj [OF g(2,1)] .
  have key: "x' div 32 = x div 32 \<Longrightarrow> ?n = ?k \<longleftrightarrow> x' = x"
    using g by (auto simp: good_def bad_source_def) (metis mult_div_mod_eq nat_eq_iff2 pos_mod_sign zero_less_numeral)
  show ?thesis
  proof (cases "?b = ?a")
    case False
    with same have "\<not> (c' = c \<and> x' = x)" by auto
    with False peek show ?thesis by (auto simp: enabled_peek [OF hw g(2)] set)
  next
    case True
    have "bit (v AND impl ?a) ?n \<longleftrightarrow> (if x' = x then enable \<noteq> 0 else bit (peek d ?b) ?n)"
      using True same key impl n enabled_peek [OF hw g(2)] enabled_implemented [OF hw g(2)]
      by (auto simp: v_def bit_simps bit_source_mask implemented_def)
    with True same peek show ?thesis unfolding enabled_peek [OF hw g(2)] set by auto
  qed
qed

section \<open>Accesses\<close>

text \<open>
  The device states reachable by reads at addresses of \<open>Rd\<close> and writes at addresses of \<open>Wr\<close>:
  the frame of an operation is the smallest such pair.
\<close>

inductive touches :: "'d mmio \<Rightarrow> uint64 set \<Rightarrow> uint64 set \<Rightarrow> 'd \<Rightarrow> 'd \<Rightarrow> bool"
  for dev :: "'d mmio" and Rd Wr :: "uint64 set" where
  touches_refl: "touches dev Rd Wr d d"
| touches_read: "touches dev Rd Wr d d' \<Longrightarrow> a \<in> Rd \<Longrightarrow> touches dev Rd Wr d (snd (mmio_read dev d' a))"
| touches_write: "touches dev Rd Wr d d' \<Longrightarrow> a \<in> Wr \<Longrightarrow> touches dev Rd Wr d (mmio_write dev d' a v)"

declare touches_refl [simp, intro]

lemma touches_one_read: "a \<in> Rd \<Longrightarrow> touches dev Rd Wr d (snd (mmio_read dev d a))"
  by (rule touches_read [OF touches_refl])

lemma touches_one_write: "a \<in> Wr \<Longrightarrow> touches dev Rd Wr d (mmio_write dev d a v)"
  by (rule touches_write [OF touches_refl])

lemma touches_trans: "touches dev Rd Wr d1 d2 \<Longrightarrow> touches dev Rd Wr d d1 \<Longrightarrow> touches dev Rd Wr d d2"
  by (induction rule: touches.induct) (auto intro: touches.intros)

lemma touches_mono:
  "touches dev Rd Wr d d' \<Longrightarrow> Rd \<subseteq> Rd' \<Longrightarrow> Wr \<subseteq> Wr' \<Longrightarrow> touches dev Rd' Wr' d d'"
  by (induction rule: touches.induct) (auto intro: touches.intros)

lemma touches_amo: "a \<in> Rd \<Longrightarrow> a \<in> Wr \<Longrightarrow> touches dev Rd Wr d (amo_w dev d a f)"
  by (auto simp: amo_w_def split_beta intro: touches_write touches_one_read)

text \<open>An invariant of the device that the accesses of the frame keep, is kept.\<close>

lemma touches_invariant:
  assumes "touches dev Rd Wr d d'" "P d"
    and "\<And>d a. P d \<Longrightarrow> a \<in> Rd \<Longrightarrow> P (snd (mmio_read dev d a))"
    and "\<And>d a v. P d \<Longrightarrow> a \<in> Wr \<Longrightarrow> P (mmio_write dev d a v)"
  shows "P d'"
  using assms by (induction rule: touches.induct) auto

text \<open>A device that is plain storage, with every enable bit implemented.\<close>

definition storage :: "(uint64 \<Rightarrow> uint32) mmio" where
  "storage = \<lparr>mmio_read = \<lambda>d a. (d a, d), mmio_write = \<lambda>d a v. d(a := v)\<rparr>"

lemma storage_enable_regs: "enable_regs_hw storage (\<lambda>d. d) (\<lambda>_. - 1)"
  by (simp add: enable_regs_hw_def storage_def)

end
