(* ===== verification/Vplic.thy ===== *)
theory Vplic
  imports Vcpu Plic
begin

text \<open>
  The emulated interrupt controller, \<^verbatim>\<open>src/src/virtual/vplic.c\<close>. A guest access to the
  controller's window traps; the handler decodes the transformed instruction, finds the register
  it names, translates virtual to physical interrupt numbers through the device list of the
  machine, performs the access for the machine's own interrupts in the context of the physical
  hart, and steps over the instruction.

  The lemmas give closed forms of the scanning loops, the decoding of a transformed instruction,
  the interface of the interrupt translation as a locale with its interpretations on the device
  lists of the configuration table, the effect of each handler, the frame of an emulated store
  (which hardware registers it can write) and the claim and complete protocol.
\<close>

section \<open>Register classes\<close>

definition is_access_to_priority_reg :: "uint64 \<Rightarrow> bool" where
  "is_access_to_priority_reg offset \<longleftrightarrow> offset < 0x1000"

definition is_access_to_pending_regs :: "uint64 \<Rightarrow> bool" where
  "is_access_to_pending_regs offset \<longleftrightarrow> 0x1000 \<le> offset \<and> offset < 0x1080"

definition is_access_to_enable_regs :: "uint64 \<Rightarrow> bool" where
  "is_access_to_enable_regs offset \<longleftrightarrow> 0x2000 \<le> offset \<and> offset < 0x200000"

text \<open>The two scans run over the contexts with an \<^verbatim>\<open>unsigned int\<close> counter.\<close>

definition is_access_to_threshold_reg :: "uint64 \<Rightarrow> bool" where
  "is_access_to_threshold_reg offset \<longleftrightarrow>
     list_ex (\<lambda>ctx. ucast (0x200000 + of_nat ctx * 0x1000 :: uint32) = offset) [0..<15872]"

definition is_access_to_claim_complete_reg :: "uint64 \<Rightarrow> bool" where
  "is_access_to_claim_complete_reg offset \<longleftrightarrow>
     list_ex (\<lambda>ctx. ucast (0x200004 + of_nat ctx * 0x1000 :: uint32) = offset) [0..<15872]"

section \<open>Decoding\<close>

record instr =
  opcode :: uint8
  rd :: uint8
  funct3 :: uint8
  addr_offset :: uint8
  rs2 :: uint8
  addr :: uint64

text \<open>
  \<^verbatim>\<open>parse_htinst\<close> fills the caller's structure from the register \<^verbatim>\<open>htinst\<close>; the field \<open>addr\<close>
  keeps what it held.
\<close>

definition parse_htinst :: "uint64 \<Rightarrow> instr \<Rightarrow> instr outcome" where
  "parse_htinst ht instr =
     (let instr = instr\<lparr>opcode := ucast (get_value ht 0 7),
                        rd := ucast (get_value ht 7 5),
                        funct3 := ucast (get_value ht 12 3),
                        addr_offset := ucast (get_value ht 15 5),
                        rs2 := ucast (get_value ht 20 5)\<rparr>
      in if addr_offset instr \<noteq> 0 then Inl (Panic ''Misaligned access with C extension???'')
         else if get_value ht 25 7 \<noteq> 0
         then Inl (Panic ''VPLIC does not support this instruction (AMO?)'')
         else Inr instr)"

section \<open>Interrupt numbers\<close>

text \<open>A missing translation is 0, which is not an interrupt.\<close>

fun virt_to_phys_loop :: "mmio_dev option list \<Rightarrow> int \<Rightarrow> int" where
  "virt_to_phys_loop [] v = 0"
| "virt_to_phys_loop (None # devs) v = 0"
| "virt_to_phys_loop (Some dev # devs) v =
     (if v = virt_irq dev then phys_irq dev else virt_to_phys_loop devs v)"

definition virt_to_phys_irq :: "mmio_dev option list \<Rightarrow> int \<Rightarrow> int" where
  "virt_to_phys_irq devs virq = virt_to_phys_loop (take MAX_DEVS devs) virq"

fun phys_to_virt_loop :: "mmio_dev option list \<Rightarrow> int \<Rightarrow> int" where
  "phys_to_virt_loop [] p = 0"
| "phys_to_virt_loop (None # devs) p = 0"
| "phys_to_virt_loop (Some dev # devs) p =
     (if p = phys_irq dev then virt_irq dev else phys_to_virt_loop devs p)"

definition phys_to_virt_irq :: "mmio_dev option list \<Rightarrow> int \<Rightarrow> int" where
  "phys_to_virt_irq devs pirq = phys_to_virt_loop (take MAX_DEVS devs) pirq"

section \<open>Loads\<close>

definition handle_priority_reg_load ::
  "'d mmio \<Rightarrow> mmio_dev option list \<Rightarrow> uint64 \<Rightarrow> 'd \<Rightarrow> uint32 \<times> 'd" where
  "handle_priority_reg_load dev devs offset d =
     (let virt_irq = int_of_u64 (offset div 4);
          phys_irq = virt_to_phys_irq devs virt_irq
      in plic_get_priority dev phys_irq d)"

text \<open>
  The loop over the 32 interrupts of a group, \<open>get\<close> being the driver's query for a physical
  interrupt number.
\<close>

definition gather_group ::
  "(int \<Rightarrow> 'd \<Rightarrow> uint32 \<times> 'd) \<Rightarrow> mmio_dev option list \<Rightarrow> int \<Rightarrow> 'd \<Rightarrow> uint32 \<times> 'd" where
  "gather_group get devs virt_irq_group d =
     fold (\<lambda>i (masked, d).
             let virt_irq = virt_irq_group * 32 + int i;
                 phys_irq = virt_to_phys_irq devs virt_irq;
                 (v, d) = get phys_irq d
             in (if v \<noteq> 0 then masked OR push_bit i 1 else masked, d))
          [0..<32] (0, d)"

definition handle_pending_regs_load ::
  "'d mmio \<Rightarrow> mmio_dev option list \<Rightarrow> uint64 \<Rightarrow> 'd \<Rightarrow> uint32 \<times> 'd" where
  "handle_pending_regs_load dev devs offset d =
     (let virt_irq_group = int_of_u64 ((offset - 0x1000) div 4)
      in gather_group (plic_get_pending dev) devs virt_irq_group d)"

definition handle_enable_regs_load ::
  "'d mmio \<Rightarrow> mmio_dev option list \<Rightarrow> uint64 \<Rightarrow> uint64 \<Rightarrow> uint64 \<Rightarrow> 'd \<Rightarrow> uint32 \<times> 'd" where
  "handle_enable_regs_load dev devs offset vctx pctx d =
     (if vctx \<noteq> (offset - 0x2000) div 0x80 then (0, d)
      else let virt_irq_group = int_of_u64 ((offset - 0x2000 - vctx * 0x80) div 4)
           in gather_group (plic_get_enabled dev (int_of_u64 pctx)) devs virt_irq_group d)"

definition handle_threshold_reg_load ::
  "'d mmio \<Rightarrow> uint64 \<Rightarrow> uint64 \<Rightarrow> uint64 \<Rightarrow> 'd \<Rightarrow> uint32 \<times> 'd" where
  "handle_threshold_reg_load dev offset vctx pctx d =
     (if vctx \<noteq> (offset - 0x200000) div 0x1000 then (0, d)
      else plic_get_threshold dev (int_of_u64 pctx) d)"

definition handle_claim_reg_load ::
  "mmio_dev option list \<Rightarrow> uint64 \<Rightarrow> uint64 \<Rightarrow> vcpu \<Rightarrow> uint32" where
  "handle_claim_reg_load devs offset vctx vcpu =
     (if vctx \<noteq> (offset - 0x200004) div 0x1000 then 0
      else word_of_int (phys_to_virt_irq devs (sint (last_claimed_irq_id vcpu))))"

text \<open>The value a guest load reads: the chain of register classes.\<close>

definition load_value ::
  "'d mmio \<Rightarrow> vcpu \<Rightarrow> mmio_dev option list \<Rightarrow> uint64 \<Rightarrow> uint64 \<Rightarrow> uint64 \<Rightarrow> 'd
     \<Rightarrow> (uint32 \<times> 'd) outcome" where
  "load_value dev vcpu devs offset vctx pctx d =
     (if is_access_to_priority_reg offset then Inr (handle_priority_reg_load dev devs offset d)
      else if is_access_to_pending_regs offset then Inr (handle_pending_regs_load dev devs offset d)
      else if is_access_to_enable_regs offset
      then Inr (handle_enable_regs_load dev devs offset vctx pctx d)
      else if is_access_to_threshold_reg offset
      then Inr (handle_threshold_reg_load dev offset vctx pctx d)
      else if is_access_to_claim_complete_reg offset
      then Inr (handle_claim_reg_load devs offset vctx vcpu, d)
      else Inl (Panic ''Bad PLIC access''))"

text \<open>Writing the register \<^verbatim>\<open>rd\<close>: the zero extended value, sign extended for \<^verbatim>\<open>lw\<close>.\<close>

definition write_rd :: "instr \<Rightarrow> uint32 \<Rightarrow> uint64 list \<Rightarrow> uint64 list" where
  "write_rd instr val x =
     (let x = x[unat (rd instr) := ucast val] in
      if funct3 instr = 2 \<and> val AND 0x80000000 \<noteq> 0
      then x[unat (rd instr) := x ! unat (rd instr) OR 0xffffffff00000000] else x)"

definition next_pc :: "instr \<Rightarrow> uint64 \<Rightarrow> uint64" where
  "next_pc instr pc = (if opcode instr AND 2 \<noteq> 0 then pc + 4 else pc + 2)"

definition emulate_load :: "'d mmio \<Rightarrow> uint64 \<Rightarrow> instr \<Rightarrow> 'd hv \<Rightarrow> 'd hv outcome" where
  "emulate_load dev hartid instr s =
     bindE (get_vcpu hartid s) (\<lambda>v.
       let vcpu = vcpus s ! v;
           devs = devices (config s ! conf vcpu);
           offset = addr instr - DTB_PLIC;
           vctx = 2 * vhartid vcpu + 1;
           pctx = 2 * hartid + 1
       in bindE (load_value dev vcpu devs offset vctx pctx (plic s)) (\<lambda>(val, d).
            Inr (s\<lparr>plic := d,
                   vcpus := (vcpus s)[v := vcpu\<lparr>regs := write_rd instr val (regs vcpu)\<rparr>],
                   csr := (csr s)\<lparr>sepc := next_pc instr (sepc (csr s))\<rparr>\<rparr>)))"

definition vplic_handle_load_page_fault ::
  "'d mmio \<Rightarrow> uint64 \<Rightarrow> instr \<Rightarrow> uint64 \<Rightarrow> 'd hv \<Rightarrow> 'd hv outcome" where
  "vplic_handle_load_page_fault dev hartid instr a s =
     bindE (parse_htinst (htinst (csr s)) instr) (\<lambda>instr.
       if opcode instr OR 2 \<noteq> 0x3 then Inl (Panic ''Bad opcode for load'')
       else if funct3 instr \<noteq> 2 \<and> funct3 instr \<noteq> 6 then Inl (Panic ''Bad funct3 for load'')
       else emulate_load dev hartid (instr\<lparr>addr := a\<rparr>) s)"

section \<open>Stores\<close>

definition handle_priority_reg_store ::
  "'d mmio \<Rightarrow> mmio_dev option list \<Rightarrow> uint64 \<Rightarrow> uint32 \<Rightarrow> 'd \<Rightarrow> 'd" where
  "handle_priority_reg_store dev devs offset val d =
     (let virt_irq = int_of_u64 (offset div 4);
          phys_irq = virt_to_phys_irq devs virt_irq
      in plic_set_priority dev phys_irq val d)"

definition handle_enable_regs_store ::
  "'d mmio \<Rightarrow> mmio_dev option list \<Rightarrow> uint64 \<Rightarrow> uint32 \<Rightarrow> uint64 \<Rightarrow> uint64 \<Rightarrow> 'd \<Rightarrow> 'd" where
  "handle_enable_regs_store dev devs offset val vctx pctx d =
     (if vctx \<noteq> (offset - 0x2000) div 0x80 then d
      else let virt_irq_group = int_of_u64 ((offset - 0x2000 - vctx * 0x80) div 4)
           in fold (\<lambda>i d.
                let virt_irq = virt_irq_group * 32 + int i;
                    phys_irq = virt_to_phys_irq devs virt_irq
                in plic_set_enabled dev (int_of_u64 pctx) phys_irq (sint (push_bit i 1 AND val)) d)
              [0..<32] d)"

definition handle_threshold_reg_store ::
  "'d mmio \<Rightarrow> uint64 \<Rightarrow> uint64 \<Rightarrow> uint64 \<Rightarrow> uint64 \<Rightarrow> 'd \<Rightarrow> 'd" where
  "handle_threshold_reg_store dev offset vctx pctx val d =
     (if vctx \<noteq> (offset - 0x200000) div 0x1000 then d
      else plic_set_threshold dev (int_of_u64 pctx) (ucast val) d)"

definition handle_complete_reg_store ::
  "'d mmio \<Rightarrow> nat \<Rightarrow> uint64 \<Rightarrow> uint64 \<Rightarrow> uint64 \<Rightarrow> uint32 \<Rightarrow> 'd hv \<Rightarrow> 'd hv" where
  "handle_complete_reg_store dev v offset vctx pctx val s =
     (let vcpu = vcpus s ! v in
      if vctx \<noteq> (offset - 0x200004) div 0x1000 then s
      else let phys_irq = word_of_int (virt_to_phys_irq (devices (config s ! conf vcpu)) (sint val)) in
           if phys_irq = last_claimed_irq_id vcpu
           then s\<lparr>vcpus := (vcpus s)[v := vcpu\<lparr>last_claimed_irq_id := 0\<rparr>],
                  plic := plic_complete dev (int_of_u64 pctx) phys_irq (plic s),
                  csr := (csr s)\<lparr>hvip := CSRC (hvip (csr s)) HVIP_VSEIP\<rparr>\<rparr>
           else s)"

definition store_effect ::
  "'d mmio \<Rightarrow> nat \<Rightarrow> uint64 \<Rightarrow> uint64 \<Rightarrow> uint64 \<Rightarrow> uint32 \<Rightarrow> 'd hv \<Rightarrow> 'd hv outcome" where
  "store_effect dev v offset vctx pctx val s =
     (let devs = devices (config s ! conf (vcpus s ! v)) in
      if is_access_to_priority_reg offset
      then Inr (s\<lparr>plic := handle_priority_reg_store dev devs offset val (plic s)\<rparr>)
      else if is_access_to_pending_regs offset then Inr s
      else if is_access_to_enable_regs offset
      then Inr (s\<lparr>plic := handle_enable_regs_store dev devs offset val vctx pctx (plic s)\<rparr>)
      else if is_access_to_threshold_reg offset
      then Inr (s\<lparr>plic := handle_threshold_reg_store dev offset vctx pctx (ucast val) (plic s)\<rparr>)
      else if is_access_to_claim_complete_reg offset
      then Inr (handle_complete_reg_store dev v offset vctx pctx val s)
      else Inl (Panic ''Bad PLIC access''))"

definition emulate_store :: "'d mmio \<Rightarrow> uint64 \<Rightarrow> instr \<Rightarrow> 'd hv \<Rightarrow> 'd hv outcome" where
  "emulate_store dev hartid instr s =
     bindE (get_vcpu hartid s) (\<lambda>v.
       let vcpu = vcpus s ! v;
           offset = addr instr - DTB_PLIC;
           vctx = 2 * vhartid vcpu + 1;
           pctx = 2 * hartid + 1;
           val = ucast (regs vcpu ! unat (rs2 instr))
       in bindE (store_effect dev v offset vctx pctx val s) (\<lambda>s.
            Inr (s\<lparr>csr := (csr s)\<lparr>sepc := next_pc instr (sepc (csr s))\<rparr>\<rparr>)))"

definition vplic_handle_store_or_amo_page_fault ::
  "'d mmio \<Rightarrow> uint64 \<Rightarrow> instr \<Rightarrow> uint64 \<Rightarrow> 'd hv \<Rightarrow> 'd hv outcome" where
  "vplic_handle_store_or_amo_page_fault dev hartid instr a s =
     bindE (parse_htinst (htinst (csr s)) instr) (\<lambda>instr.
       if opcode instr OR 2 \<noteq> 0x23 then Inl (Panic ''Bad opcode for store'')
       else if funct3 instr \<noteq> 2 then Inl (Panic ''Bad funct3 for store'')
       else emulate_store dev hartid (instr\<lparr>addr := a\<rparr>) s)"

section \<open>Interrupts\<close>

definition vplic_handle_interrupt :: "'d mmio \<Rightarrow> uint64 \<Rightarrow> 'd hv \<Rightarrow> 'd hv outcome" where
  "vplic_handle_interrupt dev hartid s =
     bindE (get_vcpu hartid s) (\<lambda>v.
       let (irq, d) = plic_claim dev (int_of_u64 (2 * hartid + 1)) (plic s);
           s = s\<lparr>plic := d, vcpus := (vcpus s)[v := (vcpus s ! v)\<lparr>last_claimed_irq_id := irq\<rparr>]\<rparr>
       in Inr (if irq \<noteq> 0 then s\<lparr>csr := (csr s)\<lparr>hvip := CSRS (hvip (csr s)) HVIP_VSEIP\<rparr>\<rparr> else s))"

section \<open>The scanning loops\<close>

lemma context_scan:
  fixes c :: nat
  assumes "c \<le> 0x200004"
  shows "list_ex (\<lambda>ctx. ucast (of_nat c + of_nat ctx * 0x1000 :: uint32) = offset) [0..<15872] \<longleftrightarrow>
    (\<exists>ctx < 15872. unat (offset :: uint64) = c + ctx * 4096)"
proof -
  have "unat (ucast (of_nat c + of_nat ctx * 0x1000 :: uint32) :: uint64) = c + ctx * 4096"
    if "ctx < 15872" for ctx
  proof -
    have "unat (of_nat c + of_nat ctx * 0x1000 :: uint32) = c + ctx * 4096"
      using that assms by (simp add: unat_word_ariths unat_of_nat)
    then show ?thesis using that assms by (simp add: unsigned_ucast_eq take_bit_nat_eq_self)
  qed
  then show ?thesis by (auto simp: list_ex_iff word_unat_eq_iff)
qed

lemma scan_iff:
  fixes offset :: uint64
  assumes "k < 4096"
  shows "(\<exists>ctx < 15872. unat offset = 0x200000 + k + ctx * 4096) \<longleftrightarrow>
    0x200000 \<le> offset \<and> offset < 0x4000000 \<and> unat offset mod 4096 = k"
proof
  assume "0x200000 \<le> offset \<and> offset < 0x4000000 \<and> unat offset mod 4096 = k"
  then have "0x200000 \<le> unat offset" "unat offset < 0x4000000" "unat offset mod 4096 = k"
    by (simp_all add: word_le_nat_alt word_less_nat_alt)
  moreover define q where "q = unat offset div 4096"
  ultimately have "unat offset = 4096 * q + k" "512 \<le> q" "q < 16384"
    using mult_div_mod_eq [of 4096 "unat offset"] by (auto simp: less_mult_imp_div_less)
  then show "\<exists>ctx < 15872. unat offset = 0x200000 + k + ctx * 4096"
    by (intro exI [of _ "q - 512"]) (simp add: diff_mult_distrib)
next
  assume "\<exists>ctx < 15872. unat offset = 0x200000 + k + ctx * 4096"
  then obtain ctx where c: "ctx < 15872" "unat offset = 0x200000 + k + ctx * 4096" by blast
  then have "unat offset = k + 4096 * (512 + ctx)" by simp
  then have "unat offset mod 4096 = k" using assms by (simp only: mod_mult_self2) simp
  with c assms show "0x200000 \<le> offset \<and> offset < 0x4000000 \<and> unat offset mod 4096 = k"
    by (simp add: word_le_nat_alt word_less_nat_alt)
qed

lemma is_access_to_threshold_reg_iff:
  "is_access_to_threshold_reg offset \<longleftrightarrow>
     0x200000 \<le> offset \<and> offset < 0x4000000 \<and> unat offset mod 4096 = 0"
  using context_scan [of "0x200000" offset] scan_iff [of 0 offset]
  by (simp add: is_access_to_threshold_reg_def)

lemma is_access_to_claim_complete_reg_iff:
  "is_access_to_claim_complete_reg offset \<longleftrightarrow>
     0x200000 \<le> offset \<and> offset < 0x4000000 \<and> unat offset mod 4096 = 4"
  using context_scan [of "0x200004" offset] scan_iff [of 4 offset]
  by (simp add: is_access_to_claim_complete_reg_def)

section \<open>Decoding transformed instructions\<close>

text \<open>The layout of a transformed load or store, as \<^verbatim>\<open>emulate.h\<close> documents it.\<close>

definition transformed :: "uint8 \<Rightarrow> uint8 \<Rightarrow> uint8 \<Rightarrow> uint8 \<Rightarrow> uint8 \<Rightarrow> uint64" where
  "transformed src off f3 dst op =
     push_bit 20 (ucast src) OR push_bit 15 (ucast off) OR push_bit 12 (ucast f3) OR
     push_bit 7 (ucast dst) OR ucast op"

lemma bit_transformed:
  assumes "src < 32" "off < 32" "f3 < 8" "dst < 32" "op < 128"
  shows "bit (transformed src off f3 dst op) n \<longleftrightarrow>
    (if n < 7 then bit op n else if n < 12 then bit dst (n - 7)
     else if n < 15 then bit f3 (n - 12) else if n < 20 then bit off (n - 15)
     else bit src (n - 20))"
proof -
  have hi: "\<not> bit src k" "\<not> bit off k" "\<not> bit dst k" if "5 \<le> k" for k
    using that assms bit_less_two_powerD [of src 5 k] bit_less_two_powerD [of off 5 k]
      bit_less_two_powerD [of dst 5 k] by auto
  have hi3: "\<not> bit f3 k" if "3 \<le> k" for k using that assms bit_less_two_powerD [of f3 3 k] by auto
  have hi7: "\<not> bit op k" if "7 \<le> k" for k using that assms bit_less_two_powerD [of op 7 k] by auto
  have piece: "bit (push_bit j (ucast x :: uint64)) n \<longleftrightarrow> j \<le> n \<and> bit x (n - j)"
    if "j \<le> 20" for j and x :: uint8
    using that bit_imp_le_length [of x "n - j"] by (auto simp: bit_simps)
  have "bit (transformed src off f3 dst op) n \<longleftrightarrow>
      20 \<le> n \<and> bit src (n - 20) \<or> 15 \<le> n \<and> bit off (n - 15) \<or> 12 \<le> n \<and> bit f3 (n - 12) \<or>
      7 \<le> n \<and> bit dst (n - 7) \<or> bit op n"
    using piece [of 20 src] piece [of 15 off] piece [of 12 f3] piece [of 7 dst] piece [of 0 op]
    by (simp add: transformed_def bit_or_iff)
  moreover consider "n < 7" | "7 \<le> n" "n < 12" | "12 \<le> n" "n < 15" | "15 \<le> n" "n < 20" | "20 \<le> n"
    by linarith
  ultimately show ?thesis by cases (simp_all add: hi hi3 hi7)
qed

lemma bit_field8:
  "0 \<le> off \<Longrightarrow> off \<le> 63 \<Longrightarrow> 0 \<le> k \<Longrightarrow> k \<le> 8 \<Longrightarrow>
     bit (ucast (get_value ht off k) :: uint8) n \<longleftrightarrow> n < nat k \<and> bit ht (nat off + n)"
  by (auto simp: bit_get_value bit_simps)

lemma field8_less:
  assumes "0 \<le> off" "off \<le> 63" "0 \<le> k" "k < 8"
  shows "(ucast (get_value ht off k) :: uint8) < 2 ^ nat k"
proof -
  have "take_bit (nat k) (ucast (get_value ht off k)) = (ucast (get_value ht off k) :: uint8)"
    using assms by (intro bit_word_eqI) (auto simp: bit_take_bit_iff bit_field8 simp del: bit_unsigned_iff)
  then show ?thesis
    using take_bit_less_two_power [of "nat k" "ucast (get_value ht off k) :: uint8"] assms by simp
qed

lemma parse_htinst_eq:
  "parse_htinst ht i = Inr j \<longleftrightarrow>
     j = i\<lparr>opcode := ucast (get_value ht 0 7), rd := ucast (get_value ht 7 5),
           funct3 := ucast (get_value ht 12 3), addr_offset := 0,
           rs2 := ucast (get_value ht 20 5)\<rparr> \<and>
     (\<forall>n \<in> {15..<20} \<union> {25..<32}. \<not> bit ht n)"
proof -
  let ?o = "ucast (get_value ht 15 5) :: uint8"
  have shift: "(\<forall>n. n < b \<longrightarrow> \<not> bit ht (a + n)) \<longleftrightarrow> (\<forall>n \<in> {a..<a + b}. \<not> bit ht n)" for a b
    by (auto simp: atLeastLessThan_iff) (metis le_Suc_ex nat_add_left_cancel_less)
  have o: "?o = 0 \<longleftrightarrow> (\<forall>n \<in> {15..<20}. \<not> bit ht n)"
    using shift [of 5 15] by (auto simp: bit_eq_iff [of ?o] bit_field8 less_imp_le)
  have h: "get_value ht 25 7 = 0 \<longleftrightarrow> (\<forall>n \<in> {25..<32}. \<not> bit ht n)"
    using shift [of 7 25] by (auto simp: bit_eq_iff [of "get_value ht 25 7"] bit_get_value)
  show ?thesis
    using o h by (cases "?o = 0") (auto simp: parse_htinst_def Let_def ball_Un)
qed

lemma parse_htinst_fields:
  assumes "parse_htinst ht i = Inr j"
  shows "take_bit 32 ht = transformed (rs2 j) 0 (funct3 j) (rd j) (opcode j)"
    "rs2 j < 32" "funct3 j < 8" "rd j < 32" "opcode j < 128" "addr j = addr i"
proof -
  from assms [unfolded parse_htinst_eq]
  have j: "j = i\<lparr>opcode := ucast (get_value ht 0 7), rd := ucast (get_value ht 7 5),
      funct3 := ucast (get_value ht 12 3), addr_offset := 0, rs2 := ucast (get_value ht 20 5)\<rparr>"
    and z: "\<And>n. 15 \<le> n \<Longrightarrow> n < 20 \<Longrightarrow> \<not> bit ht n" "\<And>n. 25 \<le> n \<Longrightarrow> n < 32 \<Longrightarrow> \<not> bit ht n"
    by auto
  show less: "rs2 j < 32" "funct3 j < 8" "rd j < 32" "opcode j < 128"
    using field8_less [of 20 5 ht] field8_less [of 12 3 ht] field8_less [of 7 5 ht] field8_less [of 0 7 ht]
    by (simp_all add: j)
  show "addr j = addr i" by (simp add: j)
  have b: "bit (opcode j) n \<longleftrightarrow> n < 7 \<and> bit ht n" "bit (rd j) n \<longleftrightarrow> n < 5 \<and> bit ht (7 + n)"
    "bit (funct3 j) n \<longleftrightarrow> n < 3 \<and> bit ht (12 + n)" "bit (rs2 j) n \<longleftrightarrow> n < 5 \<and> bit ht (20 + n)" for n
    by (simp_all add: j bit_field8)
  show "take_bit 32 ht = transformed (rs2 j) 0 (funct3 j) (rd j) (opcode j)"
  proof (rule bit_word_eqI)
    fix n
    show "bit (take_bit 32 ht) n \<longleftrightarrow> bit (transformed (rs2 j) 0 (funct3 j) (rd j) (opcode j)) n"
      using z [of n] less
      by (cases "n < 25") (auto simp: bit_transformed b bit_simps)
  qed
qed

lemma parse_htinst_transformed:
  assumes "src < 32" "f3 < 8" "dst < 32" "op < 128"
  shows "parse_htinst (transformed src 0 f3 dst op) i =
    Inr (i\<lparr>opcode := op, rd := dst, funct3 := f3, addr_offset := 0, rs2 := src\<rparr>)"
proof -
  let ?h = "transformed src 0 f3 dst op"
  have small: "bit src k \<Longrightarrow> k < 5" "bit f3 k \<Longrightarrow> k < 3" "bit dst k \<Longrightarrow> k < 5" "bit op k \<Longrightarrow> k < 7" for k
    using assms by (auto intro: bit_less_two_powerD)
  note bt = bit_transformed [OF assms(1) _ assms(2-4), of 0]
  have "ucast (get_value ?h 0 7) = op" "ucast (get_value ?h 7 5) = dst"
    "ucast (get_value ?h 12 3) = f3" "ucast (get_value ?h 20 5) = src"
    by (rule bit_word_eqI, use small in \<open>force simp: bit_field8 bt\<close>)+
  moreover have "\<forall>n \<in> {15..<20} \<union> {25..<32}. \<not> bit ?h n"
    using small(1) by (auto simp: bt) fastforce
  ultimately show ?thesis by (simp add: parse_htinst_eq)
qed

section \<open>The interface of the interrupt translation\<close>

text \<open>
  What the handlers rely on: a bijection between the virtual and the physical interrupts of the
  machine, with 0 for every other number.
\<close>

locale irq_translation =
  fixes to_phys to_virt :: "int \<Rightarrow> int" and virts physs :: "int set"
  assumes to_phys_in: "v \<in> virts \<Longrightarrow> to_phys v \<in> physs"
    and to_virt_in: "p \<in> physs \<Longrightarrow> to_virt p \<in> virts"
    and virt_phys: "v \<in> virts \<Longrightarrow> to_virt (to_phys v) = v"
    and phys_virt: "p \<in> physs \<Longrightarrow> to_phys (to_virt p) = p"
    and to_phys_out: "v \<notin> virts \<Longrightarrow> to_phys v = 0"
    and to_virt_out: "p \<notin> physs \<Longrightarrow> to_virt p = 0"
    and zero_out: "0 \<notin> virts" "0 \<notin> physs"
begin

lemma to_phys_nonzero: "to_phys v \<noteq> 0 \<longleftrightarrow> v \<in> virts"
  using to_phys_in to_phys_out zero_out by metis

lemma to_phys_range: "to_phys v \<noteq> 0 \<Longrightarrow> to_phys v \<in> physs"
  using to_phys_nonzero to_phys_in by blast

lemma to_phys_inj: "to_phys v = to_phys w \<Longrightarrow> to_phys v \<noteq> 0 \<Longrightarrow> v = w"
  using virt_phys to_phys_nonzero by metis

lemma to_phys_eq_iff: "p \<in> physs \<Longrightarrow> to_phys v = p \<longleftrightarrow> v = to_virt p"
  using phys_virt virt_phys to_phys_nonzero zero_out by metis

lemma translation_bij: "bij_betw to_phys virts physs"
  by (rule bij_betw_byWitness [of _ to_virt]) (use virt_phys phys_virt to_phys_in to_virt_in in auto)

end

text \<open>The pairs a device list declares, and the condition under which it is a translation.\<close>

definition irq_pairs :: "mmio_dev option list \<Rightarrow> (int \<times> int) list" where
  "irq_pairs devs = map (\<lambda>d. (virt_irq d, phys_irq d)) (device_list (take MAX_DEVS devs))"

definition irqs_ok :: "mmio_dev option list \<Rightarrow> bool" where
  "irqs_ok devs \<longleftrightarrow>
     list_all (\<lambda>(v, p). (v = 0 \<longleftrightarrow> p = 0) \<and>
       list_all (\<lambda>(v', p'). v = v' \<longleftrightarrow> p = p') (irq_pairs devs)) (irq_pairs devs)"

definition own_virts :: "mmio_dev option list \<Rightarrow> int set" where
  "own_virts devs = fst ` set (irq_pairs devs) - {0}"

definition own_irqs :: "mmio_dev option list \<Rightarrow> int set" where
  "own_irqs devs = snd ` set (irq_pairs devs) - {0}"

lemma device_list_simps [simp]:
  "device_list [] = []" "device_list (None # devs) = []"
  "device_list (Some d # devs) = d # device_list devs"
  by (simp_all add: device_list_def)

lemma virt_to_phys_loop_map_of:
  "virt_to_phys_loop devs v =
     (case map_of (map (\<lambda>d. (virt_irq d, phys_irq d)) (device_list devs)) v of None \<Rightarrow> 0 | Some p \<Rightarrow> p)"
  by (induction devs v rule: virt_to_phys_loop.induct) auto

lemma phys_to_virt_loop_map_of:
  "phys_to_virt_loop devs p =
     (case map_of (map (\<lambda>d. (phys_irq d, virt_irq d)) (device_list devs)) p of None \<Rightarrow> 0 | Some v \<Rightarrow> v)"
  by (induction devs p rule: phys_to_virt_loop.induct) auto

lemma map_of_functional:
  assumes "(x, y) \<in> set ps" "\<And>y'. (x, y') \<in> set ps \<Longrightarrow> y' = y"
  shows "map_of ps x = Some y"
  using assms by (metis map_of_SomeD map_of_eq_None_iff not_Some_eq fst_conv image_eqI)

lemma irqs_okD:
  assumes "irqs_ok devs" "(v, p) \<in> set (irq_pairs devs)"
  shows "v = 0 \<longleftrightarrow> p = 0" "(v', p') \<in> set (irq_pairs devs) \<Longrightarrow> v = v' \<longleftrightarrow> p = p'"
  using assms by (auto simp: irqs_ok_def list_all_iff)

lemma virt_to_phys_pair:
  assumes "irqs_ok devs" "(v, p) \<in> set (irq_pairs devs)"
  shows "virt_to_phys_irq devs v = p" "phys_to_virt_irq devs p = v"
proof -
  have "map_of (irq_pairs devs) v = Some p"
    by (rule map_of_functional [OF assms(2)]) (use irqs_okD(2) [OF assms] in auto)
  then show "virt_to_phys_irq devs v = p"
    by (simp add: virt_to_phys_irq_def virt_to_phys_loop_map_of irq_pairs_def)
  have "map_of (map (\<lambda>(v, p). (p, v)) (irq_pairs devs)) p = Some v"
    by (rule map_of_functional) (use assms(2) irqs_okD(2) [OF assms] in force)+
  then show "phys_to_virt_irq devs p = v"
    by (simp add: phys_to_virt_irq_def phys_to_virt_loop_map_of irq_pairs_def comp_def)
qed

lemma virt_to_phys_none:
  "v \<notin> fst ` set (irq_pairs devs) \<Longrightarrow> virt_to_phys_irq devs v = 0"
  "p \<notin> snd ` set (irq_pairs devs) \<Longrightarrow> phys_to_virt_irq devs p = 0"
  by (auto simp: virt_to_phys_irq_def virt_to_phys_loop_map_of phys_to_virt_irq_def
      phys_to_virt_loop_map_of irq_pairs_def image_iff split: option.splits dest!: map_of_SomeD)

lemma irq_translation_devs:
  assumes "irqs_ok devs"
  shows "irq_translation (virt_to_phys_irq devs) (phys_to_virt_irq devs) (own_virts devs) (own_irqs devs)"
proof
  show "0 \<notin> own_virts devs" "0 \<notin> own_irqs devs" by (simp_all add: own_virts_def own_irqs_def)
next
  fix v assume v: "v \<in> own_virts devs"
  then obtain p where p: "(v, p) \<in> set (irq_pairs devs)" "v \<noteq> 0" by (auto simp: own_virts_def)
  with virt_to_phys_pair [OF assms p(1)] irqs_okD(1) [OF assms p(1)]
  show "virt_to_phys_irq devs v \<in> own_irqs devs"
    "phys_to_virt_irq devs (virt_to_phys_irq devs v) = v"
    by (force simp: own_irqs_def)+
next
  fix p assume "p \<in> own_irqs devs"
  then obtain v where v: "(v, p) \<in> set (irq_pairs devs)" "p \<noteq> 0" by (auto simp: own_irqs_def)
  with virt_to_phys_pair [OF assms v(1)] irqs_okD(1) [OF assms v(1)]
  show "phys_to_virt_irq devs p \<in> own_virts devs"
    "virt_to_phys_irq devs (phys_to_virt_irq devs p) = p"
    by (force simp: own_virts_def)+
next
  fix v assume "v \<notin> own_virts devs"
  then show "virt_to_phys_irq devs v = 0"
    using virt_to_phys_none(1) [of v devs] virt_to_phys_pair(1) [OF assms, of 0] irqs_okD(1) [OF assms, of 0]
    by (force simp: own_virts_def)
next
  fix p assume "p \<notin> own_irqs devs"
  then show "phys_to_virt_irq devs p = 0"
    using virt_to_phys_none(2) [of p devs] virt_to_phys_pair(2) [OF assms] irqs_okD(1) [OF assms]
    by (force simp: own_irqs_def)
qed

text \<open>The device lists of the two configured machines.\<close>

abbreviation vm0_devices :: "mmio_dev option list" where
  "vm0_devices \<equiv> device_array [serial, emulated_plic, virtio_disk_1]"

abbreviation vm1_devices :: "mmio_dev option list" where
  "vm1_devices \<equiv> device_array [pci_serial, emulated_plic, virtio_disk_2]"

lemma irq_pairs_configured:
  "irq_pairs vm0_devices = [(10, 10), (0, 0), (1, 1)]" "irq_pairs vm1_devices = [(10, 33), (0, 0), (1, 2)]"
  by (simp_all add: irq_pairs_def device_array_def MAX_DEVS_def numeral_eq_Suc
      serial_def emulated_plic_def virtio_disk_1_def pci_serial_def virtio_disk_2_def)

lemma irqs_ok_configured: "irqs_ok vm0_devices" "irqs_ok vm1_devices"
  by (simp_all add: irqs_ok_def irq_pairs_configured)

lemma own_irqs_configured:
  "own_irqs vm0_devices = {1, 10}" "own_irqs vm1_devices = {2, 33}"
  "own_virts vm0_devices = {1, 10}" "own_virts vm1_devices = {1, 10}"
  by (auto simp: own_irqs_def own_virts_def irq_pairs_configured)

interpretation vm0: irq_translation "virt_to_phys_irq vm0_devices" "phys_to_virt_irq vm0_devices"
    "own_virts vm0_devices" "own_irqs vm0_devices"
  by (rule irq_translation_devs [OF irqs_ok_configured(1)])

interpretation vm1: irq_translation "virt_to_phys_irq vm1_devices" "phys_to_virt_irq vm1_devices"
    "own_virts vm1_devices" "own_irqs vm1_devices"
  by (rule irq_translation_devs [OF irqs_ok_configured(2)])

section \<open>Register values\<close>

text \<open>\<^verbatim>\<open>lw\<close> sign extends the 32-bit value, \<^verbatim>\<open>lwu\<close> zero extends it.\<close>

lemma ucast_or_sign:
  fixes val :: uint32
  shows "(if val AND 0x80000000 \<noteq> 0 then ucast val OR 0xffffffff00000000 else ucast val) = (scast val :: uint64)"
proof -
  have sgn: "val AND 0x80000000 \<noteq> 0 \<longleftrightarrow> bit val 31"
    using and_exp_eq_0_iff_not_bit [of val 31] by simp
  have high: "(0xffffffff00000000 :: uint64) = push_bit 32 (mask 32)" by (simp add: mask_eq_exp_minus_1)
  have sc: "bit (scast val :: uint64) n \<longleftrightarrow> n < 64 \<and> bit val (min n 31)" for n
    by (simp add: bit_signed_iff min_def)
  have uc: "bit (ucast val :: uint64) n \<longleftrightarrow> n < 32 \<and> bit val n" for n
    using bit_imp_le_length [of val n] by (auto simp: bit_unsigned_iff)
  have hi: "bit (push_bit 32 (mask 32) :: uint64) n \<longleftrightarrow> 32 \<le> n \<and> n < 64" for n
    by (auto simp: bit_push_bit_iff bit_mask_iff)
  have o: "bit (ucast val OR push_bit 32 (mask 32) :: uint64) n \<longleftrightarrow> n < 32 \<and> bit val n \<or> 32 \<le> n \<and> n < 64" for n
    by (simp only: bit_or_iff uc hi)
  show ?thesis
    unfolding sgn high
  proof (rule bit_word_eqI)
    fix n :: nat
    assume n: "n < LENGTH(64)"
    show "bit (if bit val 31 then ucast val OR push_bit 32 (mask 32) else ucast val :: uint64) n \<longleftrightarrow>
        bit (scast val :: uint64) n"
    proof (cases "n < 32")
      case True
      then have "min n 31 = n" by simp
      with True show ?thesis by (cases "bit val 31"; simp only: sc uc o if_True if_False; simp)
    next
      case False
      then have "min n 31 = 31" by simp
      with False n show ?thesis by (cases "bit val 31"; simp only: sc uc o if_True if_False; simp)
    qed
  qed
qed

lemma write_rd_eq:
  assumes "unat (rd i) < length x"
  shows "write_rd i val x = x[unat (rd i) := if funct3 i = 2 then scast val else ucast val]"
  using assms ucast_or_sign [of val] by (auto simp: write_rd_def Let_def)

lemma gather_group_pure:
  fixes q :: "int \<Rightarrow> uint32"
  assumes "\<And>p. get p d = (q p, d)"
  shows "\<exists>w. gather_group get devs g d = (w, d) \<and>
    (\<forall>i. bit w i \<longleftrightarrow> i < 32 \<and> q (virt_to_phys_irq devs (g * 32 + int i)) \<noteq> 0)"
proof -
  define f where "f = (\<lambda>i (masked :: uint32, d).
     let virt_irq = g * 32 + int i; phys_irq = virt_to_phys_irq devs virt_irq; (v, d) = get phys_irq d
     in (if v \<noteq> 0 then masked OR push_bit i 1 else masked, d))"
  have f: "f i (w, d) = (if q (virt_to_phys_irq devs (g * 32 + int i)) \<noteq> 0 then w OR push_bit i 1 else w, d)" for i w
    by (simp add: f_def assms Let_def)
  have "n \<le> 32 \<Longrightarrow> \<exists>w. fold f [0..<n] (0, d) = (w, d) \<and>
      (\<forall>i. bit w i \<longleftrightarrow> i < n \<and> q (virt_to_phys_irq devs (g * 32 + int i)) \<noteq> 0)" for n
  proof (induction n)
    case 0
    show ?case by simp
  next
    case (Suc n)
    then obtain w where w: "fold f [0..<n] (0, d) = (w, d)"
      and b: "\<And>i. bit w i \<longleftrightarrow> i < n \<and> q (virt_to_phys_irq devs (g * 32 + int i)) \<noteq> 0" by auto
    have one: "bit (push_bit n 1 :: uint32) i \<longleftrightarrow> i = n" for i
      using Suc.prems by (auto simp: bit_push_bit_iff bit_1_iff simp del: push_bit_of_1)
    show ?case
    proof (intro exI conjI allI)
      show "fold f [0..<Suc n] (0, d) =
          (if q (virt_to_phys_irq devs (g * 32 + int n)) \<noteq> 0 then w OR push_bit n 1 else w, d)"
        using w by (simp only: upt_Suc_append fold_append fold_simps comp_def f le0)
      show "bit (if q (virt_to_phys_irq devs (g * 32 + int n)) \<noteq> 0 then w OR push_bit n 1 else w) i \<longleftrightarrow>
          i < Suc n \<and> q (virt_to_phys_irq devs (g * 32 + int i)) \<noteq> 0" for i
        by (simp add: bit_or_iff one b less_Suc_eq del: push_bit_of_1) blast
    qed
  qed
  from this [of 32] show ?thesis unfolding gather_group_def f_def by simp
qed

section \<open>Enable registers of a virtual context\<close>

text \<open>The guest address of word \<open>g\<close> of the enable registers of a virtual context.\<close>

definition virt_enable_offset :: "uint64 \<Rightarrow> uint64 \<Rightarrow> uint64" where
  "virt_enable_offset vctx g = 0x2000 + 0x80 * vctx + 4 * g"

lemma virt_enable_offset:
  assumes "g < 32" "vctx < 0x3fc0"
  shows "(virt_enable_offset vctx g - 0x2000) div 0x80 = vctx"
    "int_of_u64 ((virt_enable_offset vctx g - 0x2000 - vctx * 0x80) div 4) = uint g"
    "is_access_to_enable_regs (virt_enable_offset vctx g)"
    "\<not> is_access_to_priority_reg (virt_enable_offset vctx g)"
    "\<not> is_access_to_pending_regs (virt_enable_offset vctx g)"
proof -
  have b: "unat g < 32" "unat vctx < 0x3fc0" using assms by (simp_all add: word_less_nat_alt)
  then have u: "unat (virt_enable_offset vctx g) = 0x2000 + 0x80 * unat vctx + 4 * unat g"
    by (simp add: virt_enable_offset_def unat_word_ariths)
  with b show "is_access_to_enable_regs (virt_enable_offset vctx g)"
    "\<not> is_access_to_priority_reg (virt_enable_offset vctx g)"
    "\<not> is_access_to_pending_regs (virt_enable_offset vctx g)"
    by (simp_all add: is_access_to_enable_regs_def is_access_to_priority_reg_def
        is_access_to_pending_regs_def word_le_nat_alt word_less_nat_alt)
  have "unat (0x80 * vctx + 4 * g) = 0x80 * unat vctx + 4 * unat g"
    using b by (simp add: unat_word_ariths)
  then show "(virt_enable_offset vctx g - 0x2000) div 0x80 = vctx"
    using b by (simp add: virt_enable_offset_def word_unat_eq_iff unat_div)
  have "4 * g div 4 = g" using b by (simp add: word_unat_eq_iff unat_div unat_word_ariths)
  moreover have "virt_enable_offset vctx g - 0x2000 - vctx * 0x80 = 4 * g"
    by (simp add: virt_enable_offset_def)
  ultimately show "int_of_u64 ((virt_enable_offset vctx g - 0x2000 - vctx * 0x80) div 4) = uint g"
    using b by (simp add: int_of_u64_small word_less_nat_alt)
qed

lemma sint_bit_nonzero: "n < 32 \<Longrightarrow> sint (push_bit n 1 AND (val :: uint32)) \<noteq> 0 \<longleftrightarrow> bit val n"
proof -
  assume "n < 32"
  then have "push_bit n 1 AND val \<noteq> 0 \<longleftrightarrow> bit val n"
    using and_exp_eq_0_iff_not_bit [of val n] by (simp add: and.commute push_bit_eq_mult)
  moreover have "sint w = 0 \<longleftrightarrow> w = 0" for w :: uint32
    by (metis signed_0 signed_word_eqI)
  ultimately show ?thesis by simp
qed

text \<open>
  A store into an enable register: exactly the machine's own interrupts of that group are enabled
  or disabled in the physical context, as the bits of the value say.
\<close>

lemma enable_store_loop:
  assumes hw: "enable_regs_hw dev peek impl" and ok: "irqs_ok devs"
    and im: "\<And>p. p \<in> own_irqs devs \<Longrightarrow> good c p \<Longrightarrow> implemented impl c p"
    and c: "\<not> bad_context c" and g': "good c' x'" and n: "n \<le> 32"
  shows "enabled dev c' x' (fold (\<lambda>i d. plic_set_enabled dev c (virt_to_phys_irq devs (g * 32 + int i))
             (sint (push_bit i 1 AND val)) d) [0..<n] d) \<longleftrightarrow>
    (if c' = c \<and> x' \<in> own_irqs devs \<and> g * 32 \<le> phys_to_virt_irq devs x' \<and>
        phys_to_virt_irq devs x' < g * 32 + int n
     then bit (val :: uint32) (nat (phys_to_virt_irq devs x' - g * 32)) else enabled dev c' x' d)"
  using n
proof (induction n)
  case 0
  show ?case by auto
next
  case (Suc n)
  let ?p = "virt_to_phys_irq devs (g * 32 + int n)"
  note tr = irq_translation_devs [OF ok]
  have hit: "x' = ?p \<longleftrightarrow> x' \<in> own_irqs devs \<and> phys_to_virt_irq devs x' = g * 32 + int n"
    using irq_translation.to_phys_eq_iff [OF tr, of x' "g * 32 + int n"] g'
      irq_translation.to_phys_range [OF tr, of "g * 32 + int n"]
    by (auto simp: good_def bad_source_def)
  show ?case
  proof (cases "bad_source ?p")
    case True
    then have "x' \<noteq> ?p" using g' by (auto simp: good_def)
    with True hit Suc show ?thesis by (auto simp: plic_set_enabled_def)
  next
    case False
    then have "?p \<noteq> 0" by (auto simp: bad_source_def)
    then have p: "good c ?p" "?p \<in> own_irqs devs"
      using c False irq_translation.to_phys_range [OF tr] by (auto simp: good_def)
    show ?thesis
      using Suc hit sint_bit_nonzero [of n val]
      by (auto simp: plic_set_enabled_effect [OF hw p(1) g' im [OF p(2,1)]])
  qed
qed

lemma handle_enable_regs_store_effect:
  assumes hw: "enable_regs_hw dev peek impl" and ok: "irqs_ok devs"
    and im: "\<And>p. p \<in> own_irqs devs \<Longrightarrow> good (int_of_u64 pctx) p \<Longrightarrow> implemented impl (int_of_u64 pctx) p"
    and c: "\<not> bad_context (int_of_u64 pctx)" and g': "good c' x'" and g: "g < 32" "vctx < 0x3fc0"
  shows "enabled dev c' x' (handle_enable_regs_store dev devs (virt_enable_offset vctx g) val vctx pctx d) \<longleftrightarrow>
    (if c' = int_of_u64 pctx \<and> x' \<in> own_irqs devs \<and> phys_to_virt_irq devs x' div 32 = uint g
     then bit val (nat (phys_to_virt_irq devs x' mod 32)) else enabled dev c' x' d)"
proof -
  let ?v = "phys_to_virt_irq devs x'"
  have range: "uint g * 32 \<le> ?v \<and> ?v < uint g * 32 + int 32 \<longleftrightarrow> ?v div 32 = uint g"
    by auto
  have md: "?v div 32 = uint g \<Longrightarrow> ?v - uint g * 32 = ?v mod 32"
    using minus_div_mult_eq_mod [of ?v 32] by simp
  show ?thesis
    using enable_store_loop [OF hw ok im c g', of 32 "uint g" val d] range md
    by (auto simp: handle_enable_regs_store_def virt_enable_offset [OF g] Let_def)
qed

text \<open>The load of an enable register shows the machine's own interrupts of the group.\<close>

lemma handle_enable_regs_load_effect:
  assumes hw: "enable_regs_hw dev peek impl" and g: "g < 32" "vctx < 0x3fc0"
  shows "\<exists>w. handle_enable_regs_load dev devs (virt_enable_offset vctx g) vctx pctx d = (w, d) \<and>
    (\<forall>i. bit w i \<longleftrightarrow> i < 32 \<and>
       enabled dev (int_of_u64 pctx) (virt_to_phys_irq devs (uint g * 32 + int i)) d)"
proof -
  let ?c = "int_of_u64 pctx"
  have "plic_get_enabled dev ?c p d = (fst (plic_get_enabled dev ?c p d), d)" for p
    using hw by (auto simp: plic_get_enabled_def enable_regs_hw_def good_def)
  from gather_group_pure [of "plic_get_enabled dev ?c" d, OF this, of devs "uint g"]
  show ?thesis
    by (simp add: handle_enable_regs_load_def virt_enable_offset [OF g] enabled_def)
qed

section \<open>Which hardware registers an access touches\<close>

text \<open>
  The priority registers of the machine's own interrupts, and the registers of one context: its
  enable words, its threshold and its claim register.
\<close>

definition priority_regs :: "mmio_dev option list \<Rightarrow> uint64 set" where
  "priority_regs devs = {plic_addr p |p. p \<in> own_irqs devs \<and> \<not> bad_source p}"

definition pending_regs :: "mmio_dev option list \<Rightarrow> uint64 set" where
  "pending_regs devs = {plic_addr (0x400 + p div 32) |p. p \<in> own_irqs devs \<and> \<not> bad_source p}"

definition enable_regs :: "int \<Rightarrow> uint64 set" where
  "enable_regs c = {plic_addr (enable_offset c x) |x. good c x}"

definition threshold_regs :: "int \<Rightarrow> uint64 set" where
  "threshold_regs c = {a. a = plic_addr (threshold_offset c) \<and> \<not> bad_context c}"

definition claim_regs :: "int \<Rightarrow> uint64 set" where
  "claim_regs c = {a. a = plic_addr (claim_offset c) \<and> \<not> bad_context c}"

definition config_regs :: "mmio_dev option list \<Rightarrow> int \<Rightarrow> uint64 set" where
  "config_regs devs c = priority_regs devs \<union> enable_regs c \<union> threshold_regs c"

definition owned_regs :: "mmio_dev option list \<Rightarrow> int \<Rightarrow> uint64 set" where
  "owned_regs devs c = config_regs devs c \<union> claim_regs c"

lemmas reg_set_defs = priority_regs_def enable_regs_def threshold_regs_def claim_regs_def
  config_regs_def owned_regs_def

text \<open>A translated interrupt belongs to the machine or is not an interrupt.\<close>

lemma virt_to_phys_own: "\<not> bad_source (virt_to_phys_irq devs v) \<Longrightarrow> virt_to_phys_irq devs v \<in> own_irqs devs"
proof -
  assume ok: "\<not> bad_source (virt_to_phys_irq devs v)"
  then have "virt_to_phys_irq devs v \<noteq> 0" by (auto simp: bad_source_def)
  moreover from this have "virt_to_phys_irq devs v \<in> snd ` set (irq_pairs devs)"
    by (auto simp: virt_to_phys_irq_def virt_to_phys_loop_map_of irq_pairs_def
        image_comp comp_def split: option.splits dest!: map_of_SomeD)
  ultimately show ?thesis by (simp add: own_irqs_def)
qed

lemma touches_set_priority:
  "touches dev Rd (owned_regs devs c) d (plic_set_priority dev (virt_to_phys_irq devs v) val d)"
  using virt_to_phys_own [of devs v]
  by (auto simp: plic_set_priority_def reg_set_defs intro!: touches_one_write)

lemma touches_set_enabled:
  "touches dev (enable_regs c) (owned_regs devs c) d (plic_set_enabled dev c x e d)"
  by (auto simp: plic_set_enabled_def Let_def reg_set_defs good_def intro!: touches_amo)

lemma touches_fold:
  assumes "\<And>i d. touches dev Rd Wr d (f i d)"
  shows "touches dev Rd Wr d (fold f xs d)"
  by (induction xs arbitrary: d) (auto intro: touches_trans assms)

lemma store_effect_cases:
  assumes "store_effect dev v offset vctx pctx val s = Inr s'"
    and "devs = devices (config s ! conf (vcpus s ! v))"
  obtains "s' = s\<lparr>plic := handle_priority_reg_store dev devs offset val (plic s)\<rparr>"
  | "s' = s\<lparr>plic := plic s\<rparr>"
  | "s' = s\<lparr>plic := handle_enable_regs_store dev devs offset val vctx pctx (plic s)\<rparr>"
  | "s' = s\<lparr>plic := handle_threshold_reg_store dev offset vctx pctx (ucast val) (plic s)\<rparr>"
  | p where "s' = s\<lparr>vcpus := (vcpus s)[v := (vcpus s ! v)\<lparr>last_claimed_irq_id := 0\<rparr>],
        plic := plic_complete dev (int_of_u64 pctx) p (plic s),
        csr := (csr s)\<lparr>hvip := CSRC (hvip (csr s)) HVIP_VSEIP\<rparr>\<rparr>"
proof -
  have "(s' = s\<lparr>plic := handle_priority_reg_store dev devs offset val (plic s)\<rparr> \<or>
      s' = s\<lparr>plic := plic s\<rparr> \<or>
      s' = s\<lparr>plic := handle_enable_regs_store dev devs offset val vctx pctx (plic s)\<rparr> \<or>
      s' = s\<lparr>plic := handle_threshold_reg_store dev offset vctx pctx (ucast val) (plic s)\<rparr>) \<or>
    s' = handle_complete_reg_store dev v offset vctx pctx val s"
    using assms by (auto simp: store_effect_def Let_def split: if_splits)
  moreover have "handle_complete_reg_store dev v offset vctx pctx val s = s\<lparr>plic := plic s\<rparr> \<or>
    (\<exists>p. handle_complete_reg_store dev v offset vctx pctx val s =
      s\<lparr>vcpus := (vcpus s)[v := (vcpus s ! v)\<lparr>last_claimed_irq_id := 0\<rparr>],
        plic := plic_complete dev (int_of_u64 pctx) p (plic s),
        csr := (csr s)\<lparr>hvip := CSRC (hvip (csr s)) HVIP_VSEIP\<rparr>\<rparr>)"
  proof -
    have id: "s = s\<lparr>plic := plic s\<rparr>" by simp
    show ?thesis
      unfolding handle_complete_reg_store_def Let_def
      by (split if_split, intro conjI impI, rule disjI1 [OF id], split if_split,
          intro conjI impI, rule disjI2 [OF exI], rule refl, rule disjI1 [OF id])
  qed
  ultimately show thesis using that by metis
qed

lemma touches_store:
  assumes "store_effect dev v offset vctx pctx val s = Inr s'"
    and "devs = devices (config s ! conf (vcpus s ! v))" "v < length (vcpus s)"
  shows "\<exists>lc hv d. s' = s\<lparr>plic := d, vcpus := (vcpus s)[v := (vcpus s ! v)\<lparr>last_claimed_irq_id := lc\<rparr>],
      csr := (csr s)\<lparr>hvip := hv\<rparr>\<rparr> \<and>
    touches dev (enable_regs (int_of_u64 pctx)) (owned_regs devs (int_of_u64 pctx)) (plic s) d"
proof -
  let ?c = "int_of_u64 pctx" and ?vc = "vcpus s ! v"
  let ?t = "touches dev (enable_regs ?c) (owned_regs devs ?c) (plic s)"
  have keep: ?thesis if "s' = s\<lparr>plic := d\<rparr>" "?t d" for d
    using that
    by (intro exI [of _ "last_claimed_irq_id ?vc"] exI [of _ "hvip (csr s)"] exI [of _ d]) simp
  have en: "?t (handle_enable_regs_store dev devs offset val vctx pctx (plic s))"
    by (auto simp: handle_enable_regs_store_def Let_def intro!: touches_fold touches_set_enabled)
  have pr: "?t (handle_priority_reg_store dev devs offset val (plic s))"
    by (simp add: handle_priority_reg_store_def Let_def touches_set_priority)
  have th: "?t (handle_threshold_reg_store dev offset vctx pctx w (plic s))" for w
    by (auto simp: handle_threshold_reg_store_def plic_set_threshold_def reg_set_defs intro!: touches_one_write)
  have co: "?t (plic_complete dev ?c p (plic s))" for p
    by (auto simp: plic_complete_def reg_set_defs intro!: touches_one_write)
  show ?thesis
  proof (cases rule: store_effect_cases [OF assms(1,2)])
    case 1
    then show ?thesis using pr by (rule keep)
  next
    case 2
    then show ?thesis using touches_refl by (rule keep)
  next
    case 3
    then show ?thesis using en by (rule keep)
  next
    case 4
    then show ?thesis using th by (rule keep)
  next
    case (5 p)
    then show ?thesis
      using co [of p]
      by (intro exI [of _ 0] exI [of _ "CSRC (hvip (csr s)) HVIP_VSEIP"]
          exI [of _ "plic_complete dev ?c p (plic s)"]) simp
  qed
qed

text \<open>Loads only read: the machine's own registers and the pending words of its interrupts.\<close>

lemma touches_get:
  "touches dev (owned_regs devs c) {} d (snd (plic_get_priority dev (virt_to_phys_irq devs v) d))"
  "touches dev (pending_regs devs) {} d (snd (plic_get_pending dev (virt_to_phys_irq devs v) d))"
  "touches dev (owned_regs devs c) {} d (snd (plic_get_enabled dev c x d))"
  "touches dev (owned_regs devs c) {} d (snd (plic_get_threshold dev c d))"
  using virt_to_phys_own [of devs v]
  by (auto simp: plic_get_priority_def plic_get_pending_def plic_get_enabled_def plic_get_threshold_def
      reg_set_defs pending_regs_def good_def Let_def split_beta intro!: touches_one_read)

lemma touches_gather:
  assumes "\<And>v d. touches dev Rd Wr d (snd (get (virt_to_phys_irq devs v) d))"
  shows "touches dev Rd Wr d (snd (gather_group get devs g d))"
proof -
  have "touches dev Rd Wr d (snd (fold (\<lambda>i (masked, d).
      let virt_irq = g * 32 + int i; phys_irq = virt_to_phys_irq devs virt_irq; (v, d) = get phys_irq d
      in (if v \<noteq> 0 then masked OR push_bit i 1 else masked, d)) xs (m, d)))" for xs and m :: uint32
  proof (induction xs arbitrary: m d)
    case (Cons i xs)
    from touches_trans [OF Cons assms [of d "g * 32 + int i"]] show ?case by (simp add: Let_def split_beta)
  qed simp
  then show ?thesis by (simp only: gather_group_def)
qed

lemma touches_load:
  assumes "load_value dev vcpu devs offset vctx pctx d = Inr (val, d')"
  shows "touches dev (owned_regs devs (int_of_u64 pctx) \<union> pending_regs devs) {} d d'"
proof -
  let ?c = "int_of_u64 pctx"
  let ?t = "touches dev (owned_regs devs ?c \<union> pending_regs devs) {} d"
  have up: "touches dev A {} d e \<Longrightarrow> A \<subseteq> owned_regs devs ?c \<union> pending_regs devs \<Longrightarrow> ?t e" for A e
    by (rule touches_mono) auto
  have "?t (snd (handle_priority_reg_load dev devs offset d))"
    unfolding handle_priority_reg_load_def Let_def by (rule up [OF touches_get(1)]) auto
  moreover have "?t (snd (handle_pending_regs_load dev devs offset d))"
    unfolding handle_pending_regs_load_def Let_def
    by (rule up [OF touches_gather [of dev "pending_regs devs" "{}" "plic_get_pending dev" devs]])
       (auto intro: touches_get(2))
  moreover have "?t (snd (handle_enable_regs_load dev devs offset vctx pctx d))"
    unfolding handle_enable_regs_load_def Let_def
    by (auto intro!: up [OF touches_gather [of dev "owned_regs devs ?c" "{}" "plic_get_enabled dev ?c" devs]]
        touches_get(3))
  moreover have "?t (snd (handle_threshold_reg_load dev offset vctx pctx d))"
    unfolding handle_threshold_reg_load_def by (auto intro: up [OF touches_get(4)])
  ultimately show ?thesis
    using assms by (auto simp: load_value_def split: if_splits)
qed

text \<open>The registers of two machines are disjoint when their contexts and interrupts are.\<close>

lemma offset_ranges:
  "\<not> bad_source p \<Longrightarrow> 0 \<le> p \<and> p < 1024"
  "\<not> bad_context c \<Longrightarrow> 0x80000 \<le> threshold_offset c \<and> threshold_offset c < 0x1000000"
  "\<not> bad_context c \<Longrightarrow> 0x80000 \<le> claim_offset c \<and> claim_offset c < 0x1000000"
  "threshold_offset c mod 1024 = 0" "claim_offset c mod 1024 = 1"
  "threshold_offset c = threshold_offset c' \<longleftrightarrow> c = c'" "claim_offset c = claim_offset c' \<longleftrightarrow> c = c'"
  by (auto simp: bad_source_def bad_context_def threshold_offset_def claim_offset_def)

lemma owned_regs_disjoint:
  assumes "own_irqs devs \<inter> own_irqs devs' = {}" "c \<noteq> c'"
  shows "owned_regs devs c \<inter> owned_regs devs' c' = {}"
proof (rule ccontr)
  assume "owned_regs devs c \<inter> owned_regs devs' c' \<noteq> {}"
  then obtain a where a: "a \<in> owned_regs devs c" "a \<in> owned_regs devs' c'" by blast
  have *: "\<exists>x. a = plic_addr x \<and> 0 \<le> x \<and> x < 2 ^ 30 \<and>
      (x < 1024 \<and> x \<in> own_irqs ds \<or>
       2048 \<le> x \<and> x < 0x80000 \<and> (\<exists>p. good k p \<and> x = enable_offset k p) \<or>
       0x80000 \<le> x \<and> x = threshold_offset k \<or> 0x80000 \<le> x \<and> x = claim_offset k)"
    if "a \<in> owned_regs ds k" for ds k
  proof -
    from that consider p where "a = plic_addr p" "p \<in> own_irqs ds" "\<not> bad_source p"
      | p where "a = plic_addr (enable_offset k p)" "good k p"
      | "a = plic_addr (threshold_offset k)" "\<not> bad_context k"
      | "a = plic_addr (claim_offset k)" "\<not> bad_context k"
      by (auto simp: reg_set_defs)
    then show ?thesis
    proof cases
      case 1
      then show ?thesis using offset_ranges(1) [OF 1(3)] by (intro exI [of _ p]) auto
    next
      case 2
      then show ?thesis using enable_offset_range [OF 2(2)] by (intro exI [of _ "enable_offset k p"]) auto
    next
      case 3
      then show ?thesis using offset_ranges(2) [OF 3(2)] by (intro exI [of _ "threshold_offset k"]) auto
    next
      case 4
      then show ?thesis using offset_ranges(3) [OF 4(2)] by (intro exI [of _ "claim_offset k"]) auto
    qed
  qed
  obtain x y where x: "a = plic_addr x" "0 \<le> x" "x < 2 ^ 30"
      "x < 1024 \<and> x \<in> own_irqs devs \<or>
       2048 \<le> x \<and> x < 0x80000 \<and> (\<exists>p. good c p \<and> x = enable_offset c p) \<or>
       0x80000 \<le> x \<and> x = threshold_offset c \<or> 0x80000 \<le> x \<and> x = claim_offset c"
    and y: "a = plic_addr y" "0 \<le> y" "y < 2 ^ 30"
      "y < 1024 \<and> y \<in> own_irqs devs' \<or>
       2048 \<le> y \<and> y < 0x80000 \<and> (\<exists>p. good c' p \<and> y = enable_offset c' p) \<or>
       0x80000 \<le> y \<and> y = threshold_offset c' \<or> 0x80000 \<le> y \<and> y = claim_offset c'"
    using * [OF a(1)] * [OF a(2)] by blast
  have "x = y" using plic_addr_inj [of x y] x y by simp
  moreover have "enable_offset c p \<noteq> enable_offset c' p'" if "good c p" "good c' p'" for p p'
    using enable_addr_inj [OF that] assms(2) by auto
  moreover have "threshold_offset c \<noteq> claim_offset c'" "claim_offset c \<noteq> threshold_offset c'"
    using offset_ranges(4,5) [of c] offset_ranges(4,5) [of c'] by auto
  ultimately show False
    using x(4) y(4) assms offset_ranges(6,7) [of c c'] by auto
qed

text \<open>
  The registers of a context below 1024 lie inside the window that the kernel maps; the threshold
  register of context 1024 is the first address after it.
\<close>

lemma owned_regs_window:
  assumes "a \<in> owned_regs devs c \<union> pending_regs devs" "c < 1024"
  shows "DTB_PLIC \<le> a \<and> a < DTB_PLIC + DTB_PLIC_SIZE"
proof -
  have "\<exists>x. a = plic_addr x \<and> 0 \<le> x \<and> x < 0x180000"
    using assms by (auto simp: reg_set_defs pending_regs_def good_def bad_source_def bad_context_def
        enable_offset_eq threshold_offset_def claim_offset_def)
  then show ?thesis using plic_addr_bounds by blast
qed

lemma threshold_outside: "plic_addr (threshold_offset 1024) = DTB_PLIC + DTB_PLIC_SIZE"
  by (simp add: plic_addr_def threshold_offset_def layout_defs)

section \<open>Frames of the handlers\<close>

lemma emulate_load_frame:
  assumes "emulate_load dev hartid i s = Inr s'" "v = unat hartid"
    "devs = devices (config s ! conf (vcpus s ! v))"
  shows "v < length (vcpus s)"
    "\<exists>val d. s' = s\<lparr>plic := d, vcpus := (vcpus s)[v := (vcpus s ! v)\<lparr>regs := write_rd i val (regs (vcpus s ! v))\<rparr>],
        csr := (csr s)\<lparr>sepc := next_pc i (sepc (csr s))\<rparr>\<rparr> \<and>
      touches dev (owned_regs devs (int_of_u64 (2 * hartid + 1)) \<union> pending_regs devs) {} (plic s) d"
proof -
  from assms obtain val d where v: "v < length (vcpus s)"
    and ld: "load_value dev (vcpus s ! v) devs (addr i - DTB_PLIC) (2 * vhartid (vcpus s ! v) + 1)
        (2 * hartid + 1) (plic s) = Inr (val, d)"
    and s': "s' = s\<lparr>plic := d, vcpus := (vcpus s)[v := (vcpus s ! v)\<lparr>regs := write_rd i val (regs (vcpus s ! v))\<rparr>],
        csr := (csr s)\<lparr>sepc := next_pc i (sepc (csr s))\<rparr>\<rparr>"
    by (auto simp: emulate_load_def get_vcpu_def Let_def split: if_splits prod.splits)
  show "v < length (vcpus s)" by (rule v)
  show "\<exists>val d. s' = s\<lparr>plic := d, vcpus := (vcpus s)[v := (vcpus s ! v)\<lparr>regs := write_rd i val (regs (vcpus s ! v))\<rparr>],
        csr := (csr s)\<lparr>sepc := next_pc i (sepc (csr s))\<rparr>\<rparr> \<and>
      touches dev (owned_regs devs (int_of_u64 (2 * hartid + 1)) \<union> pending_regs devs) {} (plic s) d"
    by (rule exI, rule exI, rule conjI, rule s', rule touches_load [OF ld])
qed

lemma emulate_store_frame:
  assumes "emulate_store dev hartid i s = Inr s'" "v = unat hartid"
    "devs = devices (config s ! conf (vcpus s ! v))"
  shows "v < length (vcpus s)"
    "\<exists>lc hv d. s' = s\<lparr>plic := d, vcpus := (vcpus s)[v := (vcpus s ! v)\<lparr>last_claimed_irq_id := lc\<rparr>],
        csr := (csr s)\<lparr>hvip := hv, sepc := next_pc i (sepc (csr s))\<rparr>\<rparr> \<and>
      touches dev (enable_regs (int_of_u64 (2 * hartid + 1))) (owned_regs devs (int_of_u64 (2 * hartid + 1)))
        (plic s) d"
proof -
  from assms(1,2) obtain s1 where v: "v < length (vcpus s)"
    and s1: "store_effect dev v (addr i - DTB_PLIC) (2 * vhartid (vcpus s ! v) + 1) (2 * hartid + 1)
        (ucast (regs (vcpus s ! v) ! unat (rs2 i))) s = Inr s1"
    and s': "s' = s1\<lparr>csr := (csr s1)\<lparr>sepc := next_pc i (sepc (csr s1))\<rparr>\<rparr>"
    by (auto simp: emulate_store_def get_vcpu_def Let_def split: if_splits)
  show "v < length (vcpus s)" by (rule v)
  from touches_store [OF s1 assms(3) v] obtain lc hv d where
    "s1 = s\<lparr>plic := d, vcpus := (vcpus s)[v := (vcpus s ! v)\<lparr>last_claimed_irq_id := lc\<rparr>],
      csr := (csr s)\<lparr>hvip := hv\<rparr>\<rparr>"
    and "touches dev (enable_regs (int_of_u64 (2 * hartid + 1)))
      (owned_regs devs (int_of_u64 (2 * hartid + 1))) (plic s) d" by blast
  with s' show "\<exists>lc hv d. s' = s\<lparr>plic := d, vcpus := (vcpus s)[v := (vcpus s ! v)\<lparr>last_claimed_irq_id := lc\<rparr>],
        csr := (csr s)\<lparr>hvip := hv, sepc := next_pc i (sepc (csr s))\<rparr>\<rparr> \<and>
      touches dev (enable_regs (int_of_u64 (2 * hartid + 1))) (owned_regs devs (int_of_u64 (2 * hartid + 1)))
        (plic s) d"
    by (intro exI [of _ lc] exI [of _ hv] exI [of _ d]) simp
qed

lemma vplic_store_emulates:
  assumes "vplic_handle_store_or_amo_page_fault dev hartid i a s = Inr s'"
  obtains j where "parse_htinst (htinst (csr s)) i = Inr j" "funct3 j = 2" "opcode j OR 2 = 0x23"
    "emulate_store dev hartid (j\<lparr>addr := a\<rparr>) s = Inr s'"
  using assms by (auto simp: vplic_handle_store_or_amo_page_fault_def split: if_splits)

lemma vplic_load_emulates:
  assumes "vplic_handle_load_page_fault dev hartid i a s = Inr s'"
  obtains j where "parse_htinst (htinst (csr s)) i = Inr j" "funct3 j = 2 \<or> funct3 j = 6" "opcode j OR 2 = 3"
    "emulate_load dev hartid (j\<lparr>addr := a\<rparr>) s = Inr s'"
  using assms by (auto simp: vplic_handle_load_page_fault_def split: if_splits)

section \<open>Claim and complete\<close>

definition virt_claim_offset :: "uint64 \<Rightarrow> uint64" where
  "virt_claim_offset vctx = 0x200004 + 0x1000 * vctx"

lemma virt_claim_offset:
  assumes "vctx < 15872"
  shows "(virt_claim_offset vctx - 0x200004) div 0x1000 = vctx"
    "\<not> is_access_to_priority_reg (virt_claim_offset vctx)" "\<not> is_access_to_pending_regs (virt_claim_offset vctx)"
    "\<not> is_access_to_enable_regs (virt_claim_offset vctx)" "\<not> is_access_to_threshold_reg (virt_claim_offset vctx)"
    "is_access_to_claim_complete_reg (virt_claim_offset vctx)"
proof -
  have b: "unat vctx < 15872" using assms by (simp add: word_less_nat_alt)
  then have u: "unat (virt_claim_offset vctx) = 0x200004 + 0x1000 * unat vctx"
    by (simp add: virt_claim_offset_def unat_word_ariths)
  then have "unat (virt_claim_offset vctx) = 4 + 4096 * (512 + unat vctx)" by simp
  then have m: "unat (virt_claim_offset vctx) mod 4096 = 4" by (simp only: mod_mult_self2) simp
  show "(virt_claim_offset vctx - 0x200004) div 0x1000 = vctx"
    using b by (simp add: virt_claim_offset_def word_unat_eq_iff unat_div unat_word_ariths)
  from u m b show "\<not> is_access_to_priority_reg (virt_claim_offset vctx)"
    "\<not> is_access_to_pending_regs (virt_claim_offset vctx)"
    "\<not> is_access_to_enable_regs (virt_claim_offset vctx)" "\<not> is_access_to_threshold_reg (virt_claim_offset vctx)"
    "is_access_to_claim_complete_reg (virt_claim_offset vctx)"
    unfolding is_access_to_threshold_reg_iff is_access_to_claim_complete_reg_iff
    by (simp_all add: is_access_to_enable_regs_def is_access_to_priority_reg_def
        is_access_to_pending_regs_def word_le_nat_alt word_less_nat_alt)
qed

lemma claim_load:
  assumes "vctx < 15872"
  shows "load_value dev vcpu devs (virt_claim_offset vctx) vctx pctx d =
    Inr (word_of_int (phys_to_virt_irq devs (sint (last_claimed_irq_id vcpu))), d)"
  by (simp add: load_value_def handle_claim_reg_load_def virt_claim_offset [OF assms])

lemma complete_store:
  assumes "vctx < 15872" "vc = vcpus s ! v" "devs = devices (config s ! conf vc)"
  shows "store_effect dev v (virt_claim_offset vctx) vctx pctx val s =
    Inr (if word_of_int (virt_to_phys_irq devs (sint val)) = last_claimed_irq_id vc
         then s\<lparr>vcpus := (vcpus s)[v := vc\<lparr>last_claimed_irq_id := 0\<rparr>],
                plic := plic_complete dev (int_of_u64 pctx) (last_claimed_irq_id vc) (plic s),
                csr := (csr s)\<lparr>hvip := CSRC (hvip (csr s)) HVIP_VSEIP\<rparr>\<rparr>
         else s)"
  using assms by (simp add: store_effect_def handle_complete_reg_store_def virt_claim_offset [OF assms(1)] Let_def)

text \<open>32-bit interrupt numbers survive the conversions between \<^verbatim>\<open>int\<close> and \<^verbatim>\<open>uint32\<close>.\<close>

definition irqs_small :: "mmio_dev option list \<Rightarrow> bool" where
  "irqs_small devs \<longleftrightarrow> list_all (\<lambda>(v, p). 0 \<le> v \<and> v < 1024 \<and> 0 \<le> p \<and> p < 1024) (irq_pairs devs)"

lemma sint_small: "0 \<le> x \<Longrightarrow> x < 1024 \<Longrightarrow> sint (word_of_int x :: uint32) = x"
  by (simp add: signed_of_int signed_take_bit_int_eq_self)

lemma irqs_small_configured: "irqs_small vm0_devices" "irqs_small vm1_devices"
  by (simp_all add: irqs_small_def irq_pairs_configured)

lemma claimed_virt:
  assumes "irqs_ok devs" "irqs_small devs" "sint lc \<in> own_irqs devs"
  shows "sint (word_of_int (phys_to_virt_irq devs (sint lc)) :: uint32) = phys_to_virt_irq devs (sint lc)"
    "word_of_int (virt_to_phys_irq devs (phys_to_virt_irq devs (sint lc))) = (lc :: uint32)"
proof -
  note tr = irq_translation_devs [OF assms(1)]
  have "phys_to_virt_irq devs (sint lc) \<in> own_virts devs"
    using assms(3) by (rule irq_translation.to_virt_in [OF tr])
  then have "0 \<le> phys_to_virt_irq devs (sint lc)" "phys_to_virt_irq devs (sint lc) < 1024"
    using assms(2) by (auto simp: own_virts_def irqs_small_def list_all_iff)
  then show "sint (word_of_int (phys_to_virt_irq devs (sint lc)) :: uint32) = phys_to_virt_irq devs (sint lc)"
    by (rule sint_small)
  show "word_of_int (virt_to_phys_irq devs (phys_to_virt_irq devs (sint lc))) = lc"
    by (simp add: irq_translation.phys_virt [OF tr assms(3)])
qed

section \<open>The controller registers of a hart\<close>

text \<open>The virtual and the physical context of a hart, and the devices of its machine.\<close>

definition vctx_of :: "uint64 \<Rightarrow> 'd hv \<Rightarrow> uint64" where
  "vctx_of hartid s = 2 * vhartid (vcpus s ! unat hartid) + 1"

definition pctx_of :: "uint64 \<Rightarrow> int" where
  "pctx_of hartid = int_of_u64 (2 * hartid + 1)"

definition devs_of :: "uint64 \<Rightarrow> 'd hv \<Rightarrow> mmio_dev option list" where
  "devs_of hartid s = devices (config s ! conf (vcpus s ! unat hartid))"

end
