(* ===== verification/Trap.thy ===== *)
theory Trap
  imports Vplic Vmem
begin

text \<open>
  The trap handlers of \<^verbatim>\<open>src/src/core/trap.c\<close>. An interrupt arms the timer or is passed to the
  emulated controller; an exception is a guest's request to translate an address, or a guest page
  fault that must hit the emulated controller's window. \<open>instr\<close> is the uninitialised local
  structure of the page fault handlers.

  The lemmas give the value of the fault address on every path, show that a page fault outside
  the window stops the hart without changing the state, that a fault inside it reaches the
  emulation with its own address, and that no trap of one machine changes the allocator, the page
  tables, the configuration or the virtual CPU of another hart.
\<close>

section \<open>Interrupts\<close>

definition hs_interrupt_handler :: "'d mmio \<Rightarrow> uint64 \<Rightarrow> uint64 \<Rightarrow> 'd hv \<Rightarrow> 'd hv outcome" where
  "hs_interrupt_handler dev hartid scause s =
     (let code = drop_bit 1 (push_bit 1 scause) in
      if code = of_nat INT_SUPERVISOR_TIM
      then Inr (s\<lparr>csr := (csr s)\<lparr>stimecmp := time (csr s) + 10000000\<rparr>\<rparr>)
      else if code = of_nat INT_SUPERVISOR_EXT then vplic_handle_interrupt dev hartid s
      else Inl (Panic ''unknown interrupt''))"

section \<open>Exceptions\<close>

definition get_pa :: "uint64 \<Rightarrow> 'd hv \<Rightarrow> uint64 outcome" where
  "get_pa pgtable s =
     (let gpa = push_bit 2 (htval (csr s)) in convert_va_to_pa pgtable gpa True (kmem s))"

text \<open>\<^verbatim>\<open>vcpu->conf->vm_pgtable\<close>.\<close>

definition guest_pgtable :: "nat \<Rightarrow> 'd hv \<Rightarrow> uint64" where
  "guest_pgtable v s = vm_pgtable (config s ! conf (vcpus s ! v))"

text \<open>The address is returned as an \<^verbatim>\<open>int\<close>.\<close>

definition is_access_to_plic :: "uint64 \<Rightarrow> 'd hv \<Rightarrow> int outcome" where
  "is_access_to_plic hartid s =
     bindE (get_vcpu hartid s) (\<lambda>v.
     bindE (get_pa (guest_pgtable v s) s) (\<lambda>addr.
       if DTB_PLIC \<le> addr \<and> addr < DTB_PLIC + DTB_PLIC_SIZE then Inr (int_of_u64 addr) else Inr 0))"

definition perform_walk_for_guest :: "uint64 \<Rightarrow> 'd hv \<Rightarrow> 'd hv outcome" where
  "perform_walk_for_guest hartid s =
     bindE (get_vcpu hartid s) (\<lambda>v.
       let vcpu = vcpus s ! v in
       bindE (convert_va_to_pa (guest_pgtable v s) (regs vcpu ! 10) True (kmem s)) (\<lambda>pa.
         Inr (s\<lparr>vcpus := (vcpus s)[v := vcpu\<lparr>regs := (regs vcpu)[10 := pa]\<rparr>]\<rparr>)))"

definition hs_exception_handler ::
  "'d mmio \<Rightarrow> instr \<Rightarrow> uint64 \<Rightarrow> uint64 \<Rightarrow> 'd hv \<Rightarrow> 'd hv outcome" where
  "hs_exception_handler dev instr hartid scause s =
     (if scause = of_nat EXC_ECALL_FROM_VS
      then bindE (perform_walk_for_guest hartid s) (\<lambda>s.
             Inr (s\<lparr>csr := (csr s)\<lparr>sepc := sepc (csr s) + 4\<rparr>\<rparr>))
      else if scause = of_nat EXC_LOAD_GUEST_PAGE_FAULT
      then bindE (is_access_to_plic hartid s) (\<lambda>a.
             let addr = u64_of_int a in
             if addr \<noteq> 0 then vplic_handle_load_page_fault dev hartid instr addr s
             else Inl (Panic ''Bad read access''))
      else if scause = of_nat EXC_STORE_OR_AMO_GUEST_PAGE_FAULT
      then bindE (is_access_to_plic hartid s) (\<lambda>a.
             let addr = u64_of_int a in
             if addr \<noteq> 0 then vplic_handle_store_or_amo_page_fault dev hartid instr addr s
             else Inl (Panic ''Bad write access''))
      else Inl (Panic ''unknown exception''))"

text \<open>
  The entry \<^verbatim>\<open>hstrapvec\<close> of \<^verbatim>\<open>trap.S\<close> chooses the handler by the top bit of \<^verbatim>\<open>scause\<close>.
\<close>

definition hstrapvec :: "'d mmio \<Rightarrow> instr \<Rightarrow> uint64 \<Rightarrow> uint64 \<Rightarrow> 'd hv \<Rightarrow> 'd hv outcome" where
  "hstrapvec dev instr hartid scause s =
     (if drop_bit 63 scause = 0 then hs_exception_handler dev instr hartid scause s
      else hs_interrupt_handler dev hartid scause s)"

section \<open>The fault address\<close>

lemma plic_window_int:
  assumes "DTB_PLIC \<le> a" "a < DTB_PLIC + DTB_PLIC_SIZE"
  shows "u64_of_int (int_of_u64 a) = a" "a \<noteq> 0"
proof -
  have "a < 0x80000000" using assms by (simp add: layout_defs word_less_nat_alt word_le_nat_alt)
  then show "u64_of_int (int_of_u64 a) = a" by (simp add: int_of_u64_small u64_of_int_def)
  show "a \<noteq> 0" using assms by (auto simp: layout_defs)
qed

definition in_plic :: "uint64 \<Rightarrow> bool" where
  "in_plic a \<longleftrightarrow> DTB_PLIC \<le> a \<and> a < DTB_PLIC + DTB_PLIC_SIZE"

text \<open>A guest page fault is emulated at the translated address, or stops the hart.\<close>

lemma page_fault_cases:
  assumes v: "v = unat hartid" "v < length (vcpus s)"
    and pa: "get_pa (guest_pgtable v s) s = Inr a"
  shows "hs_exception_handler dev i hartid (of_nat EXC_LOAD_GUEST_PAGE_FAULT) s =
      (if in_plic a then vplic_handle_load_page_fault dev hartid i a s else Inl (Panic ''Bad read access''))"
    "hs_exception_handler dev i hartid (of_nat EXC_STORE_OR_AMO_GUEST_PAGE_FAULT) s =
      (if in_plic a then vplic_handle_store_or_amo_page_fault dev hartid i a s
       else Inl (Panic ''Bad write access''))"
  using v pa plic_window_int [of a]
  by (simp_all add: hs_exception_handler_def is_access_to_plic_def get_vcpu_def in_plic_def csr_defs
      Let_def u64_of_int_def)

section \<open>The frame of a trap\<close>

text \<open>
  What every trap of hart \<open>v\<close> keeps: allocator, memory, configuration, the other virtual CPUs,
  the identity of its own virtual CPU, and all registers but those of the interrupted guest.
\<close>

definition trap_frame :: "nat \<Rightarrow> 'd hv \<Rightarrow> 'd hv \<Rightarrow> bool" where
  "trap_frame v s s' \<longleftrightarrow>
     kmem s' = kmem s \<and> config s' = config s \<and> length (vcpus s') = length (vcpus s) \<and>
     (\<forall>w. w \<noteq> v \<longrightarrow> vcpus s' ! w = vcpus s ! w) \<and>
     conf (vcpus s' ! v) = conf (vcpus s ! v) \<and> vhartid (vcpus s' ! v) = vhartid (vcpus s ! v) \<and>
     length (regs (vcpus s' ! v)) = length (regs (vcpus s ! v)) \<and>
     csr s' = (csr s)\<lparr>sepc := sepc (csr s'), stimecmp := stimecmp (csr s'), hvip := hvip (csr s')\<rparr>"

lemma length_write_rd [simp]: "length (write_rd i val x) = length x"
  by (simp add: write_rd_def Let_def)

lemma emulate_load_trap_frame: "emulate_load dev h i s = Inr s' \<Longrightarrow> trap_frame (unat h) s s'"
  using emulate_load_frame [OF _ refl refl, of dev h i s s'] by (auto simp: trap_frame_def)

lemma emulate_store_trap_frame: "emulate_store dev h i s = Inr s' \<Longrightarrow> trap_frame (unat h) s s'"
  using emulate_store_frame [OF _ refl refl, of dev h i s s'] by (auto simp: trap_frame_def)

lemma interrupt_trap_frame: "vplic_handle_interrupt dev h s = Inr s' \<Longrightarrow> trap_frame (unat h) s s'"
  by (auto simp: vplic_handle_interrupt_def get_vcpu_def trap_frame_def Let_def split: if_splits prod.splits)

lemma trap_frame_trap:
  assumes "hstrapvec dev i h scause s = Inr s'"
  shows "trap_frame (unat h) s s'"
proof (cases "drop_bit 63 scause = 0")
  case False
  then have "hs_interrupt_handler dev h scause s = Inr s'" using assms by (simp add: hstrapvec_def)
  then show ?thesis
    by (auto simp: hs_interrupt_handler_def Let_def trap_frame_def split: if_splits
        dest!: interrupt_trap_frame)
next
  case True
  then have e: "hs_exception_handler dev i h scause s = Inr s'" using assms by (simp add: hstrapvec_def)
  have walk: "perform_walk_for_guest h s = Inr s1 \<Longrightarrow> trap_frame (unat h) s (s1\<lparr>csr := (csr s1)\<lparr>sepc := pc\<rparr>\<rparr>)" for s1 pc
    by (auto simp: perform_walk_for_guest_def get_vcpu_def trap_frame_def Let_def split: if_splits)
  show ?thesis
    using e walk
    by (auto simp: hs_exception_handler_def Let_def split: if_splits
        elim!: vplic_load_emulates vplic_store_emulates
        intro: emulate_load_trap_frame emulate_store_trap_frame)
qed

text \<open>Of the interrupt controller, a trap touches the registers of the hart's own context and machine.\<close>

lemma trap_touches:
  assumes "hstrapvec dev i h scause s = Inr s'"
  shows "touches dev (owned_regs (devs_of h s) (pctx_of h) \<union> pending_regs (devs_of h s))
    (owned_regs (devs_of h s) (pctx_of h)) (plic s) (plic s')"
proof -
  let ?W = "owned_regs (devs_of h s) (pctx_of h)" and ?P = "pending_regs (devs_of h s)"
  let ?t = "touches dev (?W \<union> ?P) ?W (plic s)"
  have en: "enable_regs (pctx_of h) \<subseteq> ?W" by (auto simp: reg_set_defs)
  have ld: "emulate_load dev h j s = Inr s1 \<Longrightarrow> ?t (plic s1)" for j s1
    using emulate_load_frame [of dev h j s s1, OF _ refl refl]
    by (auto simp: pctx_of_def devs_of_def elim!: touches_mono)
  have st: "emulate_store dev h j s = Inr s1 \<Longrightarrow> ?t (plic s1)" for j s1
    using emulate_store_frame [of dev h j s s1, OF _ refl refl] en
    by (auto simp: pctx_of_def devs_of_def elim!: touches_mono)
  have int: "?t (plic s1)" if "vplic_handle_interrupt dev h s = Inr s1" for s1
  proof -
    have "plic s1 = snd (plic_claim dev (pctx_of h) (plic s))"
      using that by (auto simp: vplic_handle_interrupt_def get_vcpu_def pctx_of_def Let_def split: if_splits prod.splits)
    then show ?thesis by (auto simp: plic_claim_def reg_set_defs intro!: touches_one_read)
  qed
  have walk: "perform_walk_for_guest h s = Inr s1 \<Longrightarrow> plic s1 = plic s" for s1
    by (auto simp: perform_walk_for_guest_def get_vcpu_def Let_def split: if_splits)
  show ?thesis
    using assms
    by (auto simp: hstrapvec_def hs_exception_handler_def hs_interrupt_handler_def Let_def split: if_splits
        elim!: vplic_load_emulates vplic_store_emulates dest!: walk intro: ld st int)
qed

section \<open>Well-formed states\<close>

text \<open>One virtual CPU per hart, each with 32 registers and a configuration of the table.\<close>

definition vcpu_wf :: "vm_config list \<Rightarrow> vcpu \<Rightarrow> bool" where
  "vcpu_wf cfg vc \<longleftrightarrow> length (regs vc) = 32 \<and> conf vc < length cfg"

definition hv_wf :: "'d hv \<Rightarrow> bool" where
  "hv_wf s \<longleftrightarrow> length (vcpus s) = DTB_NR_CPUS \<and> list_all (vcpu_wf (config s)) (vcpus s)"

lemma trap_frame_wf:
  assumes "trap_frame v s s'" "hv_wf s"
  shows "hv_wf s'"
  unfolding hv_wf_def list_all_length
proof (intro conjI allI impI)
  show l: "length (vcpus s') = DTB_NR_CPUS" using assms by (simp add: trap_frame_def hv_wf_def)
  fix w assume "w < length (vcpus s')"
  then have w: "vcpu_wf (config s) (vcpus s ! w)"
    using assms l by (simp add: hv_wf_def list_all_length)
  have "config s' = config s" "w \<noteq> v \<Longrightarrow> vcpus s' ! w = vcpus s ! w"
    "length (regs (vcpus s' ! v)) = length (regs (vcpus s ! v))" "conf (vcpus s' ! v) = conf (vcpus s ! v)"
    using assms(1) unfolding trap_frame_def by blast+
  with w show "vcpu_wf (config s') (vcpus s' ! w)" by (cases "w = v") (simp_all add: vcpu_wf_def)
qed

text \<open>Code that stops only by a panic.\<close>

definition only_panics :: "'a outcome \<Rightarrow> bool" where
  "only_panics r \<longleftrightarrow> (case r of Inl (Panic m) \<Rightarrow> True | Inl _ \<Rightarrow> False | Inr _ \<Rightarrow> True)"

lemma only_panics_simps [simp]: "only_panics (Inr x)" "only_panics (Inl (Panic m))"
  by (simp_all add: only_panics_def)

lemma only_panics_bind: "only_panics r \<Longrightarrow> (\<And>x. r = Inr x \<Longrightarrow> only_panics (f x)) \<Longrightarrow> only_panics (bindE r f)"
  by (cases r) (auto simp: only_panics_def split: error.splits)

lemma walk_loop_lookup_returns: "\<exists>r. walk_loop l kpa va False x4 s = Inr r"
  by (induction l arbitrary: kpa) (auto simp: Let_def)

lemma only_panics_convert: "only_panics (convert_va_to_pa pgtable va x4 s)"
proof -
  have "only_panics (walk pgtable va False x4 s)"
    using walk_loop_lookup_returns [of "LEVELS - 1" pgtable va x4 s] by (auto simp: walk_def)
  then show ?thesis unfolding convert_va_to_pa_def by (rule only_panics_bind) (auto simp: Let_def)
qed

lemma only_panics_parse: "only_panics (parse_htinst ht i)"
  by (simp add: parse_htinst_def Let_def)

lemma only_panics_emulate:
  assumes "unat h < length (vcpus s)"
  shows "only_panics (emulate_load dev h i s)" "only_panics (emulate_store dev h i s)"
    "only_panics (vplic_handle_interrupt dev h s)"
  using assms
  by (auto simp: emulate_load_def emulate_store_def vplic_handle_interrupt_def get_vcpu_def Let_def load_value_def
      store_effect_def split: prod.splits intro!: only_panics_bind)

text \<open>On a well-formed state no trap runs out of an array or into undefined behaviour.\<close>

lemma only_panics_trap:
  assumes "unat h < length (vcpus s)"
  shows "only_panics (hstrapvec dev i h scause s)"
proof -
  have v: "get_vcpu h s = Inr (unat h)" using assms by (simp add: get_vcpu_def)
  have plic: "only_panics (is_access_to_plic h s)"
    unfolding is_access_to_plic_def v
    by (auto simp: get_pa_def intro!: only_panics_bind only_panics_convert)
  have walk: "only_panics (perform_walk_for_guest h s)"
    unfolding perform_walk_for_guest_def v by (auto simp: Let_def intro!: only_panics_bind only_panics_convert)
  have emu: "only_panics (vplic_handle_load_page_fault dev h i a s)"
    "only_panics (vplic_handle_store_or_amo_page_fault dev h i a s)" for a
    unfolding vplic_handle_load_page_fault_def vplic_handle_store_or_amo_page_fault_def
    by (auto intro!: only_panics_bind only_panics_parse only_panics_emulate assms)
  show ?thesis
    unfolding hstrapvec_def hs_exception_handler_def hs_interrupt_handler_def
    by (auto simp: Let_def intro!: only_panics_bind plic walk emu only_panics_emulate assms)
qed

end
