(* ===== verification/Vm_Run.thy ===== *)
theory Vm_Run
  imports Trap Ranges
begin

text \<open>
  Starting a virtual machine, \<^verbatim>\<open>src/src/core/vm_run.c\<close>: hart 0 initialises the barriers and checks
  the configuration; every hart initialises its virtual CPU, the hart with virtual number 0 builds
  the guest's page table, and every hart sets its registers and enters the guest. The two calls of
  \<^verbatim>\<open>wait_barrier\<close> separate the three phases \<open>vm_run_boot\<close>, \<open>vm_run_setup\<close> and \<open>vm_run_enter\<close>;
  the barrier itself is modelled in the theory of barriers.

  The lemmas show what a configuration that passes the check guarantees, the exact guest-physical
  memory map that \<open>init_hs_pgtable\<close> builds, and which traps and interrupts are delegated.
\<close>

section \<open>The guest's page table\<close>

definition guest_flags :: int where
  "guest_flags = int_of_u64 (PTE_U OR PTE_R OR PTE_W OR PTE_X)"

text \<open>
  The device loop stops at the first null pointer; it does not look at the size of the array, so
  a full array makes it read what follows.
\<close>

fun map_devices :: "uint64 \<Rightarrow> mmio_dev option list \<Rightarrow> kmem_state \<Rightarrow> kmem_state outcome" where
  "map_devices pgtable [] s = Inl (Undefined ''devices out of bounds'')"
| "map_devices pgtable (None # devs) s = Inr s"
| "map_devices pgtable (Some dev # devs) s =
     bindE (map_pages pgtable (virt_base dev) (phys_base dev) (dev_size dev)
              (int_of_u64 (perm dev OR PTE_U)) True s) (\<lambda>(rv, s).
       if rv < 0 then Inl (Panic ''Failed to map MMIO device'') else map_devices pgtable devs s)"

definition image_size :: "vm_config \<Rightarrow> uint64" where
  "image_size vm = PGROUNDUP (image_end vm - image_base vm)"

definition init_hs_pgtable :: "vm_config \<Rightarrow> kmem_state \<Rightarrow> kmem_state outcome" where
  "init_hs_pgtable vm s =
     bindE (memset (mem s) (vm_pgtable vm) 0 (uint PAGE_SIZE * 4)) (\<lambda>m.
     bindE (map_pages (vm_pgtable vm) (memory_base vm) (image_base vm) (image_size vm)
              guest_flags True (s\<lparr>mem := m\<rparr>)) (\<lambda>(rv, s).
       if rv < 0 then Inl (Panic ''failed to map VM kernel image'')
       else bindE (map_pages (vm_pgtable vm) (memory_base vm + image_size vm) 0
                     (memory_size vm - image_size vm) guest_flags True s) (\<lambda>(rv, s).
         if rv < 0 then Inl (Panic ''failed to map VM RAM'')
         else map_devices (vm_pgtable vm) (devices vm) s)))"

section \<open>Registers\<close>

definition init_hs :: "vm_config \<Rightarrow> csr_file \<Rightarrow> csr_file" where
  "init_hs vm c =
     (let pgtable_pa = KVA2PA (vm_pgtable vm) in
      c\<lparr>hgatp := ATP_MODE_SV39 OR drop_bit 12 pgtable_pa,
        hstatus := HSTATUS_VSXL_64 OR HSTATUS_SPV,
        hedeleg := 0 OR HEDELEG_INSTRUCTION_ADDR_MISALIGNED OR HEDELEG_INSTRUCTION_ACCESS_FAULT
          OR HEDELEG_ILLEGAL_INSTRUCTION OR HEDELEG_BREAKPOINT OR HEDELEG_LOAD_ADDR_MISALIGNED
          OR HEDELEG_LOAD_ACCESS_FAULT OR HEDELEG_STORE_OR_AMO_ADDRESS_MISALIGNED
          OR HEDELEG_STORE_OR_AMO_ACCESS_FAULT OR HEDELEG_ECALL_FROM_U
          OR HEDELEG_INSTRUCTION_PAGE_FAULT OR HEDELEG_LOAD_PAGE_FAULT
          OR HEDELEG_STORE_OR_AMO_PAGE_FAULT,
        hideleg := HIDELEG_VSTI OR HIDELEG_VSEI,
        hvip := 0, hip := 0, hie := 0, hgeie := 0,
        hcounteren := HCOUNTEREN_TM, htimedelta := 0, htval := 0, htinst := 0,
        henvcfg := CSRS (henvcfg c) (HENVCFG_SSTC OR HENVCFG_ADUE)\<rparr>)"

definition init_vs :: "csr_file \<Rightarrow> csr_file" where
  "init_vs c = c\<lparr>vsstatus := 0, vsip := 0, vsie := 0, vstvec := 0, vsscratch := 0, vsepc := 0,
     vscause := 0, vstval := 0, vsatp := 0, vstimecmp := - 1\<rparr>"

section \<open>Barriers and the configuration check\<close>

definition init_vm_barriers :: "vm_config list \<Rightarrow> vm_config list" where
  "init_vm_barriers cfg =
     map (\<lambda>c. c\<lparr>bar := init_barrier (bar c) (count_set_bits (cpu_affinity c))\<rparr>) cfg"

definition check_cpu_configuration :: "vm_config list \<Rightarrow> unit outcome" where
  "check_cpu_configuration cfg =
     (if list_ex (\<lambda>i. list_ex (\<lambda>j. cpu_affinity (cfg ! i) AND cpu_affinity (cfg ! j) \<noteq> 0) [0..<i])
           [0..<length cfg]
      then Inl (Panic ''VMs share the same CPU'')
      else let nr_cpus = fold (\<lambda>c n. n + count_set_bits (cpu_affinity c)) cfg 0 in
           if nr_cpus \<noteq> int DTB_NR_CPUS then Inl (Panic ''CPU number misconfiguration'')
           else Inr ())"

section \<open>The phases of vm_run\<close>

definition vm_run_boot :: "uint64 \<Rightarrow> 'd hv \<Rightarrow> 'd hv outcome" where
  "vm_run_boot hartid s =
     (if hartid = 0
      then let s = s\<lparr>config := init_vm_barriers (config s)\<rparr> in
           bindE (check_cpu_configuration (config s)) (\<lambda>_. Inr s)
      else Inr s)"

definition vm_run_setup :: "uint64 \<Rightarrow> uint64 \<Rightarrow> 'd hv \<Rightarrow> 'd hv outcome" where
  "vm_run_setup vcpus_addr hartid s =
     bindE (get_vcpu hartid s) (\<lambda>v.
     bindE (init_vcpu vcpus_addr hartid v s) (\<lambda>s.
       let vcpu = vcpus s ! v in
       if vhartid vcpu = 0
       then bindE (init_hs_pgtable (config s ! conf vcpu) (kmem s)) (\<lambda>k. Inr (s\<lparr>kmem := k\<rparr>))
       else Inr s))"

definition vm_run_enter :: "uint64 \<Rightarrow> 'd hv \<Rightarrow> 'd hv outcome" where
  "vm_run_enter hartid s =
     bindE (get_vcpu hartid s) (\<lambda>v.
       let c = config s ! conf (vcpus s ! v);
           r = init_vs (init_hs c (csr s))
       in Inr (s\<lparr>csr := r\<lparr>sstatus := CSRS (sstatus r) SSTATUS_SPP, sepc := vm_entry c\<rparr>\<rparr>))"

section \<open>What a checked configuration guarantees\<close>

lemma fold_add_sum: "fold (\<lambda>c n. n + f c) cs (a :: int) = a + sum_list (map f cs)"
  by (induction cs arbitrary: a) simp_all

lemma check_cpu_configuration_ok:
  "check_cpu_configuration cfg = Inr () \<longleftrightarrow>
     (\<forall>i < length cfg. \<forall>j < i. cpu_affinity (cfg ! i) AND cpu_affinity (cfg ! j) = 0) \<and>
     sum_list (map (\<lambda>c. count_set_bits (cpu_affinity c)) cfg) = int DTB_NR_CPUS"
  by (auto simp: check_cpu_configuration_def list_ex_iff fold_add_sum Let_def) blast

lemma and_zero_disjoint: "(a AND b = 0) \<longleftrightarrow> (\<forall>k. \<not> (bit a k \<and> bit b k))" for a b :: uint64
  using bit_imp_le_length [of a] by (auto simp: bit_eq_iff bit_and_iff)

lemma affinity_disjoint:
  assumes "check_cpu_configuration cfg = Inr ()" "i < length cfg" "j < length cfg" "i \<noteq> j"
  shows "affinity_harts (cpu_affinity (cfg ! i)) \<inter> affinity_harts (cpu_affinity (cfg ! j)) = {}"
  using assms by (cases "i < j") (auto simp: check_cpu_configuration_ok and_zero_disjoint affinity_harts_def)

text \<open>
  When the masks name existing harts only, every hart belongs to exactly one machine, so the
  lookup of its configuration cannot fail.
\<close>

lemma popcount_harts: "popcount w = card {k. bit w k}"
proof -
  have "{k. k < 64 \<and> bit w k} = {k. bit w k}" using bit_imp_le_length [of w] by auto
  then show ?thesis by (simp add: popcount_def)
qed

lemma checked_covers:
  assumes chk: "check_cpu_configuration cfg = Inr ()"
    and dom: "\<forall>c \<in> set cfg. \<forall>k. bit (cpu_affinity c) k \<longrightarrow> k < DTB_NR_CPUS"
    and h: "k < DTB_NR_CPUS"
  shows "\<exists>i < length cfg. bit (cpu_affinity (cfg ! i)) k"
proof -
  let ?B = "\<lambda>i. {k. bit (cpu_affinity (cfg ! i)) k}"
  have sub: "?B i \<subseteq> {..<DTB_NR_CPUS}" if "i < length cfg" for i
    using dom that by auto
  have small: "count_set_bits (cpu_affinity (cfg ! i)) = int (card (?B i))" if "i < length cfg" for i
  proof -
    have "bit (cpu_affinity (cfg ! i)) n \<Longrightarrow> n < 2" for n
      using sub [OF that] by (auto simp: layout_defs)
    then have "take_bit 2 (cpu_affinity (cfg ! i)) = cpu_affinity (cfg ! i)"
      by (intro bit_word_eqI) (auto simp: bit_take_bit_iff)
    then have "cpu_affinity (cfg ! i) < 2 ^ 2"
      using take_bit_less_two_power [of 2 "cpu_affinity (cfg ! i)"] by simp
    then have "cpu_affinity (cfg ! i) < 2 ^ 32" by (simp add: word_less_nat_alt)
    then show ?thesis by (simp add: count_set_bits_popcount popcount_harts)
  qed
  have "int DTB_NR_CPUS = (\<Sum>i < length cfg. count_set_bits (cpu_affinity (cfg ! i)))"
    using chk by (simp add: check_cpu_configuration_ok sum_list_sum_nth atLeast0LessThan)
  also have "\<dots> = int (\<Sum>i < length cfg. card (?B i))"
    by (simp add: small)
  also have "(\<Sum>i < length cfg. card (?B i)) = card (\<Union>i < length cfg. ?B i)"
  proof (rule card_UN_disjoint [symmetric])
    show "\<forall>i \<in> {..<length cfg}. finite (?B i)"
      using sub finite_subset by blast
    show "\<forall>i \<in> {..<length cfg}. \<forall>j \<in> {..<length cfg}. i \<noteq> j \<longrightarrow> ?B i \<inter> ?B j = {}"
      using chk by (auto simp: check_cpu_configuration_ok and_zero_disjoint) (metis linorder_neqE_nat)
  qed simp
  finally have "card (\<Union>i < length cfg. ?B i) = card {..<DTB_NR_CPUS}" by simp
  moreover have "(\<Union>i < length cfg. ?B i) \<subseteq> {..<DTB_NR_CPUS}" using sub by blast
  ultimately have "(\<Union>i < length cfg. ?B i) = {..<DTB_NR_CPUS}" by (intro card_subset_eq) auto
  with h show ?thesis by blast
qed

text \<open>
  Then every hart finds its configuration, the only one that names it, and its virtual CPU is
  initialised: its number in \<^verbatim>\<open>a0\<close>, \<^verbatim>\<open>0xff\<close> in \<^verbatim>\<open>a1\<close> and zero in every other register.
\<close>

lemma hart_configured:
  assumes chk: "check_cpu_configuration (config s) = Inr ()"
    and dom: "\<forall>c \<in> set (config s). \<forall>k. bit (cpu_affinity c) k \<longrightarrow> k < DTB_NR_CPUS"
    and h: "unat h < DTB_NR_CPUS" and n: "unat h < length (vcpus s)"
  shows "\<exists>i s'. init_vcpu a h (unat h) s = Inr s' \<and>
    {j. j < length (config s) \<and> bit (cpu_affinity (config s ! j)) (unat h)} = {i} \<and>
    vcpus s' ! unat h = \<lparr>vhartid = get_vhartid h (cpu_affinity (config s ! i)), last_claimed_irq_id = 0, conf = i,
      regs = (replicate 32 0)[10 := get_vhartid h (cpu_affinity (config s ! i)), 11 := 0xff]\<rparr> \<and>
    sscratch (csr s') = regs_addr a (unat h)"
proof -
  let ?cfg = "config s" and ?on = "\<lambda>j. bit (cpu_affinity (config s ! j)) (unat h)"
  from checked_covers [OF chk dom h] obtain i where i: "i < length ?cfg" "?on i" by blast
  have only: "j = i" if j: "j < length ?cfg" "?on j" for j
  proof (rule ccontr)
    assume "j \<noteq> i"
    from affinity_disjoint [OF chk j(1) i(1) this] j(2) i(2) show False unfolding affinity_harts_def by blast
  qed
  have "\<forall>j < i. \<not> ?on j" using only i(1) order.strict_trans by blast
  from config_loop_find [OF _ i this, of 0] have "get_config_for_cpu ?cfg h = Inr i"
    using h by (simp add: get_config_for_cpu_def layout_defs word_less_nat_alt)
  then have "\<exists>s'. init_vcpu a h (unat h) s = Inr s' \<and>
      vcpus s' ! unat h = \<lparr>vhartid = get_vhartid h (cpu_affinity (?cfg ! i)), last_claimed_irq_id = 0, conf = i,
        regs = (replicate 32 0)[10 := get_vhartid h (cpu_affinity (?cfg ! i)), 11 := 0xff]\<rparr> \<and>
      sscratch (csr s') = regs_addr a (unat h)"
    using n by (simp only: init_vcpu_def Let_def bindE_Inr) simp
  moreover have "{j. j < length ?cfg \<and> ?on j} = {i}" using i only by blast
  ultimately show ?thesis by blast
qed

section \<open>Clearing the root table\<close>

lemma take_bit_3_of_14: "take_bit 14 (p :: uint64) = 0 \<Longrightarrow> take_bit 3 p = 0"
proof -
  assume "take_bit 14 p = 0"
  moreover have "take_bit 3 p = take_bit 3 (take_bit 14 p)" by simp
  ultimately show ?thesis by (simp only: take_bit_of_0)
qed

lemma root_range_entry:
  assumes "take_bit 14 root = 0" "take_bit 3 b = 0" "uint (b - root) < 16384"
  shows "\<exists>i < 2048. b = entry_addr root i"
proof -
  let ?x = "b - root"
  have "take_bit 3 ?x = 0"
    using take_bit_add_aligned [of 3 b "- root"] assms(2) take_bit_3_of_14 [OF assms(1)]
    by (simp add: take_bit_eq_0_iff)
  then have "push_bit 3 (drop_bit 3 ?x) = ?x" using bits_split [of 3 ?x] by simp
  then have "b = entry_addr root (drop_bit 3 ?x)"
    by (simp add: entry_addr_def layout_defs push_bit_eq_mult algebra_simps)
  moreover have "drop_bit 3 ?x < 2048"
    using assms(3) by (simp add: word_less_def drop_bit_eq_div uint_div)
  ultimately show ?thesis by blast
qed

lemma free_set_cong:
  assumes "free_set dynamic s F" "\<And>p. p \<in> F \<Longrightarrow> load64 m p = load64 (mem s) p"
  shows "free_set dynamic (s\<lparr>mem := m\<rparr>) F"
proof -
  from assms(1) obtain free where f: "kmem_ok dynamic s free" "set free = F" by (auto simp: free_set_def)
  then have "bm.chain m (freelist s) free"
    using assms(2) bm.chain_cong [of free m "mem s" "freelist s"] by (simp add: kmem_ok_def)
  with f show ?thesis by (auto simp: free_set_def kmem_ok_def)
qed

text \<open>A root table as the configuration provides it: 16 KiB aligned, outside the free pages.\<close>

definition root_ok :: "uint64 \<Rightarrow> uint64 set \<Rightarrow> bool" where
  "root_ok root F \<longleftrightarrow> root \<noteq> 0 \<and> take_bit 14 root = 0 \<and>
     (\<forall>i < 2048. PGROUNDDOWN (entry_addr root i) \<notin> F)"

lemma clear_root:
  assumes lk: "linker_ok dynamic" and fs: "free_set dynamic s F" and r: "root_ok root F"
    and m: "memset (mem s) root 0 (uint PAGE_SIZE * 4) = Inr m"
  shows "take_bit 3 b = 0 \<Longrightarrow>
      load64 m b = (if uint (b - root) < 16384 then 0 else load64 (mem s) b)"
    and "pt_state dynamic True root (s\<lparr>mem := m\<rparr>) [root \<mapsto> []] F"
    and "translation (load64 m) True 2 root va = None"
proof -
  have al: "take_bit 3 root = 0" using r by (simp add: root_ok_def take_bit_3_of_14)
  have mm: "m = memset_loop (mem s) root 0 16384"
    using m r by (simp add: memset_def root_ok_def layout_defs)
  show ld: "load64 m b = (if uint (b - root) < 16384 then 0 else load64 (mem s) b)"
    if "take_bit 3 b = 0" for b
    unfolding mm by (rule load64_memset_zero [OF al that]) simp_all
  have outside: "\<not> uint (p - root) < 16384" "take_bit 3 p = 0" if p: "p \<in> F" for p
  proof -
    have a: "take_bit 12 p = 0" using free_set_ram [OF lk fs p] by simp
    then show "take_bit 3 p = 0" by (rule take_bit_3_of_12)
    then have "\<exists>i < 2048. p = entry_addr root i" if "uint (p - root) < 16384"
      using root_range_entry [OF _ _ that] r by (simp add: root_ok_def)
    with r p PGROUNDDOWN_id [OF a] show "\<not> uint (p - root) < 16384" unfolding root_ok_def by metis
  qed
  have zero: "load64 m (entry_addr root i) = 0" if "i < entries True []" for i
  proof -
    have "take_bit 3 (entry_addr root i) = 0" "8 * i < 2 ^ 14"
      using root_entry [of root True i] r that by (simp_all add: root_ok_def)
    then show ?thesis by (simp add: ld entry_addr_def layout_defs word_less_def)
  qed
  have "free_set dynamic (s\<lparr>mem := m\<rparr>) F"
    by (rule free_set_cong [OF fs]) (simp add: ld outside)
  moreover have "pt_tree (load64 m) True root [root \<mapsto> []] F"
    by (rule pt_tree_empty_root) (use r zero in \<open>auto simp: root_ok_def entries_def\<close>)
  ultimately show "pt_state dynamic True root (s\<lparr>mem := m\<rparr>) [root \<mapsto> []] F"
    using lk by (simp add: pt_state_def)
  show "translation (load64 m) True 2 root va = None" by (rule translation_empty_root) (rule zero)
qed

text \<open>Clearing the root does not touch another table.\<close>

lemma table_cong:
  assumes st: "pt_state dynamic x4 root2 s own2 F" and fs: "free_set dynamic s' F"
    and eq: "\<And>q path i. own2 q = Some path \<Longrightarrow> i < entries x4 path \<Longrightarrow>
      load64 (mem s') (entry_addr q i) = load64 (mem s) (entry_addr q i)"
  shows "pt_state dynamic x4 root2 s' own2 F"
    "translation (load64 (mem s')) x4 2 root2 va = translation (load64 (mem s)) x4 2 root2 va"
proof -
  note t = pt_state_root [OF st]
  have "pt_tree (load64 (mem s')) x4 root2 own2 F" by (rule pt_tree_cong [OF t(1)]) (simp add: eq)
  with fs st show "pt_state dynamic x4 root2 s' own2 F" by (simp add: pt_state_def)
  have slot: "leaf_slot (load64 (mem s')) x4 2 root2 va = leaf_slot (load64 (mem s)) x4 2 root2 va"
    by (rule leaf_slot_cong [OF t(1,3)]) (simp_all add: eq)
  show "translation (load64 (mem s')) x4 2 root2 va = translation (load64 (mem s)) x4 2 root2 va"
  proof (cases "leaf_slot (load64 (mem s)) x4 2 root2 va")
    case None
    then show ?thesis by (simp add: translation_def slot)
  next
    case (Some a)
    then obtain q path i where "own2 q = Some path" "i < entries x4 path" "a = entry_addr q i"
      using leaf_slot_addr(4) [OF t(1)] by blast
    with Some eq show ?thesis by (simp add: translation_def slot)
  qed
qed

lemma clear_root_other:
  assumes lk: "linker_ok dynamic" and fs: "free_set dynamic s F" and r: "root_ok root F"
    and m: "memset (mem s) root 0 (uint PAGE_SIZE * 4) = Inr m"
    and st: "pt_state dynamic x4 root2 s own2 F" and d: "tables_disjoint True [root \<mapsto> []] x4 own2"
  shows "pt_state dynamic x4 root2 (s\<lparr>mem := m\<rparr>) own2 F"
    "translation (load64 m) x4 2 root2 va = translation (load64 (mem s)) x4 2 root2 va"
proof -
  note cr = clear_root [OF lk fs r m]
  have "load64 m (entry_addr q i) = load64 (mem s) (entry_addr q i)"
    if q: "own2 q = Some path" "i < entries x4 path" for q path i
  proof -
    have al: "take_bit 3 (entry_addr q i) = 0" by (rule pt_tree_entry(1) [OF pt_state_root(1) [OF st] q])
    have "entry_addr root j \<noteq> entry_addr q i" if "j < 2048" for j
      using d [unfolded tables_disjoint_def, rule_format, of root "[]" q path j i] q that
      by (simp add: entries_def)
    then have "\<not> uint (entry_addr q i - root) < 16384"
      using root_range_entry [OF _ al, of root] r unfolding root_ok_def by metis
    with al show ?thesis by (simp add: cr(1))
  qed
  moreover have "free_set dynamic (s\<lparr>mem := m\<rparr>) F" using cr(2) by (simp add: pt_state_def)
  ultimately show "pt_state dynamic x4 root2 (s\<lparr>mem := m\<rparr>) own2 F"
    "translation (load64 m) x4 2 root2 va = translation (load64 (mem s)) x4 2 root2 va"
    using table_cong [OF st, of "s\<lparr>mem := m\<rparr>"] by auto
qed

section \<open>The guest's memory map\<close>

definition device_region :: "mmio_dev \<Rightarrow> region" where
  "device_region d = (virt_base d, int_of_u64 (perm d OR PTE_U), page_offsets 0 (dev_size d), \<lambda>j. phys_base d + j)"

definition guest_regions :: "vm_config \<Rightarrow> (uint64 \<Rightarrow> uint64) \<Rightarrow> region list" where
  "guest_regions vm g =
     [(memory_base vm, guest_flags, page_offsets 0 (image_size vm), \<lambda>j. image_base vm + j),
      (memory_base vm + image_size vm, guest_flags, page_offsets 0 (memory_size vm - image_size vm),
       \<lambda>j. KPA2PA (g j))] @ map device_region (device_list (devices vm))"

lemma map_devices_regions:
  assumes "pt_state dynamic True root s own F" "regions_mapped True root rs (load64 (mem s))"
    "map_devices root devs s = Inr s'" "\<forall>d \<in> set (device_list devs). phys_base d \<noteq> 0"
  shows "\<exists>own' F'. pt_mapped dynamic True root s own F s' own' F' \<and>
    regions_mapped True root (rs @ map device_region (device_list devs)) (load64 (mem s'))"
  using assms
proof (induction root devs s arbitrary: own F rs rule: map_devices.induct)
  case (2 pgtable devs s)
  then show ?case using pt_mapped_refl by fastforce
next
  case (3 pgtable dev devs s)
  from "3.prems"(3) obtain rv s1 where
    mp: "map_pages pgtable (virt_base dev) (phys_base dev) (dev_size dev) (int_of_u64 (perm dev OR PTE_U)) True s
      = Inr (rv, s1)"
    and rest: "map_devices pgtable devs s1 = Inr s'" and rv: "\<not> rv < 0"
    by (auto split: if_splits)
  have nz: "phys_base dev \<noteq> 0" using "3.prems"(4) by simp
  from map_pages_loop_phys [OF "3.prems"(1) nz mp [unfolded map_pages_def]] obtain own1 F1 where
    m1: "pt_mapped dynamic True pgtable s own F s1 own1 F1"
    and r1: "range_mapped True pgtable (virt_base dev) (int_of_u64 (perm dev OR PTE_U))
      (page_offsets 0 (dev_size dev)) (\<lambda>j. phys_base dev + j) (load64 (mem s)) (load64 (mem s1))"
    by blast
  have st1: "pt_state dynamic True pgtable s1 own1 F1" using m1 by (simp add: pt_mapped_def)
  have rs1: "regions_mapped True pgtable (rs @ [device_region dev]) (load64 (mem s1))"
    using regions_mapped_step [OF "3.prems"(2) r1] by (simp add: device_region_def)
  have "\<exists>own' F'. pt_mapped dynamic True pgtable s1 own1 F1 s' own' F' \<and>
      regions_mapped True pgtable ((rs @ [device_region dev]) @ map device_region (device_list devs)) (load64 (mem s'))"
    by (rule "3.IH" [OF mp refl rv st1 rs1 rest]) (use "3.prems"(4) in auto)
  then obtain own' F' where m2: "pt_mapped dynamic True pgtable s1 own1 F1 s' own' F'"
    and "regions_mapped True pgtable (rs @ device_region dev # map device_region (device_list devs)) (load64 (mem s'))"
    by auto
  with pt_mapped_trans [OF m1 m2] show ?case by auto
qed simp

lemma init_hs_pgtable_steps:
  assumes "init_hs_pgtable vm s = Inr s'"
  obtains m rv1 s1 rv2 s2 where
    "memset (mem s) (vm_pgtable vm) 0 (uint PAGE_SIZE * 4) = Inr m"
    "map_pages (vm_pgtable vm) (memory_base vm) (image_base vm) (image_size vm) guest_flags True
       (s\<lparr>mem := m\<rparr>) = Inr (rv1, s1)"
    "map_pages (vm_pgtable vm) (memory_base vm + image_size vm) 0 (memory_size vm - image_size vm)
       guest_flags True s1 = Inr (rv2, s2)"
    "map_devices (vm_pgtable vm) (devices vm) s2 = Inr s'"
  using assms by (auto simp: init_hs_pgtable_def split: if_splits)

text \<open>What building the table of \<open>vm\<close> needs: the root, and physical bases that are not null.\<close>

definition vm_ok :: "vm_config \<Rightarrow> uint64 set \<Rightarrow> bool" where
  "vm_ok vm F \<longleftrightarrow> root_ok (vm_pgtable vm) F \<and> image_base vm \<noteq> 0 \<and>
     (\<forall>d \<in> set (device_list (devices vm)). phys_base d \<noteq> 0)"

lemma init_hs_pgtable_map:
  assumes lk: "linker_ok dynamic" and fs: "free_set dynamic s F" and vm: "vm_ok vm F"
    and run: "init_hs_pgtable vm s = Inr s'" and root: "root = vm_pgtable vm"
  obtains own' F' g m where
    "memset (mem s) root 0 (uint PAGE_SIZE * 4) = Inr m"
    "pt_mapped dynamic True root (s\<lparr>mem := m\<rparr>) [root \<mapsto> []] F s' own' F'"
    "regions_mapped True root (guest_regions vm g) (load64 (mem s'))"
    "fresh_backing (page_offsets 0 (memory_size vm - image_size vm)) F F' own' g"
proof -
  from run obtain m rv1 s1 rv2 s2 where
    m: "memset (mem s) root 0 (uint PAGE_SIZE * 4) = Inr m"
    and p1: "map_pages root (memory_base vm) (image_base vm) (image_size vm) guest_flags True
       (s\<lparr>mem := m\<rparr>) = Inr (rv1, s1)"
    and p2: "map_pages root (memory_base vm + image_size vm) 0 (memory_size vm - image_size vm)
       guest_flags True s1 = Inr (rv2, s2)"
    and p3: "map_devices root (devices vm) s2 = Inr s'"
    unfolding root by (rule init_hs_pgtable_steps)
  let ?s0 = "s\<lparr>mem := m\<rparr>" and ?J = "page_offsets 0 (memory_size vm - image_size vm)"
  have r: "root_ok root F" and nz: "image_base vm \<noteq> 0"
    and dv: "\<forall>d \<in> set (device_list (devices vm)). phys_base d \<noteq> 0"
    using vm by (simp_all add: vm_ok_def root)
  note cr = clear_root [OF lk fs r m]
  have rm0: "regions_mapped True root [] (load64 (mem ?s0))" by (simp add: regions_mapped_def cr(3))
  from map_pages_loop_phys [OF cr(2) nz p1 [unfolded map_pages_def]] obtain own1 F1 where
    m1: "pt_mapped dynamic True root ?s0 [root \<mapsto> []] F s1 own1 F1"
    and g1: "range_mapped True root (memory_base vm) guest_flags (page_offsets 0 (image_size vm))
      (\<lambda>j. image_base vm + j) (load64 (mem ?s0)) (load64 (mem s1))" by blast
  have st1: "pt_state dynamic True root s1 own1 F1" using m1 by (simp add: pt_mapped_def)
  from map_pages_loop_fresh [OF st1 refl p2 [unfolded map_pages_def]] obtain own2 F2 g where
    m2: "pt_mapped dynamic True root s1 own1 F1 s2 own2 F2"
    and g2: "range_mapped True root (memory_base vm + image_size vm) guest_flags ?J (\<lambda>j. KPA2PA (g j))
      (load64 (mem s1)) (load64 (mem s2))"
    and fb: "fresh_backing ?J F1 F2 own2 g" by blast
  have st2: "pt_state dynamic True root s2 own2 F2" using m2 by (simp add: pt_mapped_def)
  note rm2 = regions_mapped_step [OF regions_mapped_step [OF rm0 g1] g2]
  from map_devices_regions [OF st2 rm2 p3 dv] obtain own' F' where
    m3: "pt_mapped dynamic True root s2 own2 F2 s' own' F'"
    and rm3: "regions_mapped True root (guest_regions vm g) (load64 (mem s'))"
    by (auto simp: guest_regions_def)
  have "F1 \<subseteq> F" "F' \<subseteq> F2" using m1 m3 by (simp_all add: pt_mapped_def)
  then have "fresh_backing ?J F F' own' g"
    using fb pt_mapped_unowned [OF m3] by (auto simp: fresh_backing_def)
  with that m pt_mapped_trans [OF pt_mapped_trans [OF m1 m2] m3] rm3 show thesis by blast
qed

text \<open>Building one machine's table keeps every disjoint table and its translation.\<close>

lemma init_hs_pgtable_other:
  assumes lk: "linker_ok dynamic" and fs: "free_set dynamic s F" and vm: "vm_ok vm F"
    and run: "init_hs_pgtable vm s = Inr s'"
    and st: "pt_state dynamic x4 root2 s own2 F" and d: "tables_disjoint True [vm_pgtable vm \<mapsto> []] x4 own2"
  shows "translation (load64 (mem s')) x4 2 root2 va = translation (load64 (mem s)) x4 2 root2 va"
    "\<exists>own' F'. pt_state dynamic True (vm_pgtable vm) s' own' F' \<and> pt_state dynamic x4 root2 s' own2 F' \<and>
       F' \<subseteq> F \<and> tables_disjoint True own' x4 own2"
proof -
  obtain own' F' m where m: "memset (mem s) (vm_pgtable vm) 0 (uint PAGE_SIZE * 4) = Inr m"
    and pm: "pt_mapped dynamic True (vm_pgtable vm) (s\<lparr>mem := m\<rparr>) [vm_pgtable vm \<mapsto> []] F s' own' F'"
    by (rule init_hs_pgtable_map [OF lk fs vm run refl])
  have r: "root_ok (vm_pgtable vm) F" using vm by (simp add: vm_ok_def)
  note cl = clear_root_other [OF lk fs r m st d]
  note o = pt_mapped_other [OF pm cl(1) d]
  show "translation (load64 (mem s')) x4 2 root2 va = translation (load64 (mem s)) x4 2 root2 va"
    using o(2) cl(2) by simp
  show "\<exists>own' F'. pt_state dynamic True (vm_pgtable vm) s' own' F' \<and> pt_state dynamic x4 root2 s' own2 F' \<and>
       F' \<subseteq> F \<and> tables_disjoint True own' x4 own2"
    using o(1,3) pm by (auto simp: pt_mapped_def)
qed

text \<open>
  With enough free pages building the table succeeds: 513 tables for each root entry it uses, and
  a page for each page of RAM beyond the image.
\<close>

definition device_row :: "mmio_dev \<Rightarrow> uint64 \<times> uint64" where
  "device_row d = (virt_base d, dev_size d)"

definition guest_rows :: "vm_config \<Rightarrow> (uint64 \<times> uint64) list" where
  "guest_rows vm =
     (memory_base vm, image_size vm) # (memory_base vm + image_size vm, memory_size vm - image_size vm) #
     map device_row (device_list (devices vm))"

lemma map_devices_total:
  assumes "space dynamic True root A k rs occ s own F" "None \<in> set devs"
    "\<forall>d \<in> set (device_list devs). phys_base d \<noteq> 0" "placed True A occ (map device_row (device_list devs))"
  shows "\<exists>s' own' F'. map_devices root devs s = Inr s' \<and> pt_mapped dynamic True root s own F s' own' F' \<and> k \<le> card F'"
  using assms
proof (induction root devs s arbitrary: rs occ own F rule: map_devices.induct)
  case (2 pgtable devs s)
  then show ?case using pt_mapped_refl by (fastforce simp: space_def room_def)
next
  case (3 pgtable dev devs s)
  let ?p = "(vpn True (virt_base dev), vpn True (virt_base dev) + pages (dev_size dev))"
  have pl: "place True A occ (virt_base dev) (dev_size dev)" "phys_base dev \<noteq> 0"
    and rest: "placed True A (?p # occ) (map device_row (device_list devs))"
    using "3.prems"(3,4) by (simp_all add: device_row_def [of dev])
  obtain s1 own1 F1 rs1 where m1: "map_pages pgtable (virt_base dev) (phys_base dev) (dev_size dev)
      (int_of_u64 (perm dev OR PTE_U)) True s = Inr (0, s1)" "pt_mapped dynamic True pgtable s own F s1 own1 F1"
    and sp1: "space dynamic True pgtable A k rs1 (?p # occ) s1 own1 F1"
    using map_pages_space [OF "3.prems"(1) pl, of "int_of_u64 (perm dev OR PTE_U)"] by blast
  obtain s' own' F' where r: "map_devices pgtable devs s1 = Inr s'"
    "pt_mapped dynamic True pgtable s1 own1 F1 s' own' F'" "k \<le> card F'"
    using "3.IH" [OF m1(1) refl _ sp1 _ _ rest] "3.prems"(2,3) by auto
  with m1 pt_mapped_trans [OF m1(2) r(2)] show ?case by auto
qed simp

lemma init_hs_pgtable_total:
  assumes lk: "linker_ok dynamic" and fs: "free_set dynamic s F" and vm: "vm_ok vm F"
    and A: "finite A" and pl: "placed True A [] (guest_rows vm)" and none: "None \<in> set (devices vm)"
    and enough: "513 * card A + (k + pages (memory_size vm - image_size vm)) \<le> card F"
  shows "\<exists>s' F'. init_hs_pgtable vm s = Inr s' \<and> free_set dynamic s' F' \<and> F' \<subseteq> F \<and> k \<le> card F'"
proof -
  let ?root = "vm_pgtable vm" and ?rest = "memory_size vm - image_size vm"
  have r: "root_ok ?root F" and nz: "image_base vm \<noteq> 0"
    and dv: "\<forall>d \<in> set (device_list (devices vm)). phys_base d \<noteq> 0"
    using vm by (simp_all add: vm_ok_def)
  obtain m where m: "memset (mem s) ?root 0 (uint PAGE_SIZE * 4) = Inr m"
    using r by (simp add: memset_def root_ok_def)
  note cr = clear_root [OF lk fs r m]
  have sp: "space dynamic True ?root A (k + pages ?rest) [] [] (s\<lparr>mem := m\<rparr>) [?root \<mapsto> []] F"
    by (rule empty_space [OF cr(2) _ A enough]) (simp add: cr(3))
  let ?p = "(vpn True (memory_base vm), vpn True (memory_base vm) + pages (image_size vm))"
  have p1: "place True A [] (memory_base vm) (image_size vm)"
    and p2: "place True A [?p] (memory_base vm + image_size vm) ?rest"
    and p3: "placed True A [(vpn True (memory_base vm + image_size vm),
       vpn True (memory_base vm + image_size vm) + pages ?rest), ?p] (map device_row (device_list (devices vm)))"
    using pl by (simp_all add: guest_rows_def)
  obtain s1 own1 F1 rs1 where m1: "map_pages ?root (memory_base vm) (image_base vm) (image_size vm) guest_flags True
      (s\<lparr>mem := m\<rparr>) = Inr (0, s1)" "pt_mapped dynamic True ?root (s\<lparr>mem := m\<rparr>) [?root \<mapsto> []] F s1 own1 F1"
    and sp1: "space dynamic True ?root A (k + pages ?rest) rs1 [?p] s1 own1 F1"
    using map_pages_space [OF sp p1 nz, of guest_flags] by blast
  obtain s2 own2 F2 rs2 where m2: "map_pages ?root (memory_base vm + image_size vm) 0 ?rest guest_flags True s1
      = Inr (0, s2)" "pt_mapped dynamic True ?root s1 own1 F1 s2 own2 F2"
    and sp2: "space dynamic True ?root A k rs2 [(vpn True (memory_base vm + image_size vm),
       vpn True (memory_base vm + image_size vm) + pages ?rest), ?p] s2 own2 F2"
    using map_pages_fresh_space [OF sp1 p2, of guest_flags] by blast
  obtain s' own' F' where m3: "map_devices ?root (devices vm) s2 = Inr s'"
    "pt_mapped dynamic True ?root s2 own2 F2 s' own' F'" "k \<le> card F'"
    using map_devices_total [OF sp2 none dv p3] by blast
  have "init_hs_pgtable vm s = Inr s'" using m m1(1) m2(1) m3(1) by (simp add: init_hs_pgtable_def)
  moreover have "free_set dynamic s' F'" "F' \<subseteq> F"
    using m1(2) m2(2) m3(2) by (auto simp: pt_mapped_def pt_state_def)
  ultimately show ?thesis using m3(3) by blast
qed

section \<open>Delegation\<close>

text \<open>
  After \<open>init_hs\<close> the guest handles its own page faults, misaligned accesses, illegal instructions
  and system calls; the hypervisor keeps guest page faults and calls from the guest's supervisor.
\<close>

lemma hedeleg_bits:
  "bit (hedeleg (init_hs vm c)) n \<longleftrightarrow> n \<in> {0, 1, 2, 3, 4, 5, 6, 7, 8, 12, 13, 15}"
proof -
  have one: "bit (push_bit k 1 :: uint64) n \<longleftrightarrow> n = k" if "k < 64" for k
    using that by (auto simp: bit_push_bit_iff bit_1_iff simp del: push_bit_of_1)
  have ors: "hedeleg (init_hs vm c) = foldr (\<lambda>k w. push_bit k 1 OR w)
      [0, 1, 2, 3, 4, 5, 6, 7, 8, 12, 13, 15] 0"
    by (simp add: init_hs_def csr_defs Let_def)
  show ?thesis
    unfolding ors foldr.simps comp_def id_apply bit_or_iff by (simp only: one) auto
qed

lemma hideleg_bits: "bit (hideleg (init_hs vm c)) n \<longleftrightarrow> n \<in> {INT_VIRTUAL_SUPERVISOR_TIM, INT_VIRTUAL_SUPERVISOR_EXT}"
proof -
  have one: "bit (push_bit k 1 :: uint64) n \<longleftrightarrow> n = k" if "k < 64" for k
    using that by (auto simp: bit_push_bit_iff bit_1_iff simp del: push_bit_of_1)
  have "hideleg (init_hs vm c) = push_bit 6 1 OR push_bit 10 1"
    by (simp add: init_hs_def csr_defs Let_def)
  then show ?thesis
    unfolding csr_defs by (simp only: bit_or_iff one) auto
qed

end
