(* ===== verification/Uart.thy ===== *)
theory Uart
  imports Layout Lock
begin

text \<open>
  The serial port driver, \<^verbatim>\<open>src/src/driver/uart.c\<close>. The port is hardware: a device is a pair of
  functions, the effect of a byte read and of a byte write at an address, over an arbitrary device
  state. What the driver relies on is \<open>uart_hw\<close>: seen through \<open>view\<close>, the device follows the
  register model of the 16550 that the driver's comments describe.

  The lemmas show that initialisation programs the divisor, the frame format, the FIFOs and the
  interrupt enable register from any previous state, and that sending text terminates and puts
  exactly its characters on the line in order.
\<close>

section \<open>Registers\<close>

record 'd byte_dev =
  byte_read :: "'d \<Rightarrow> uint64 \<Rightarrow> uint8 \<times> 'd"
  byte_write :: "'d \<Rightarrow> uint64 \<Rightarrow> uint8 \<Rightarrow> 'd"

named_theorems uart_defs \<open>register offsets and bits of the serial port\<close>

definition THR :: uint64 where [uart_defs]: "THR = 0"
definition DLL :: uint64 where [uart_defs]: "DLL = 0"
definition DLL_38400 :: uint8 where [uart_defs]: "DLL_38400 = 3"
definition IER :: uint64 where [uart_defs]: "IER = 1"
definition IER_RECEIVED_DATA_AVAILABLE :: uint8 where [uart_defs]: "IER_RECEIVED_DATA_AVAILABLE = push_bit 0 1"
definition DLM :: uint64 where [uart_defs]: "DLM = 1"
definition DLM_38400 :: uint8 where [uart_defs]: "DLM_38400 = 0"
definition FCR :: uint64 where [uart_defs]: "FCR = 2"
definition FCR_ENABLE_FIFO :: uint8 where [uart_defs]: "FCR_ENABLE_FIFO = push_bit 0 1"
definition FCR_CLEAR_RECEIVE_FIFO :: uint8 where [uart_defs]: "FCR_CLEAR_RECEIVE_FIFO = push_bit 1 1"
definition FCR_CLEAR_TRANSMIT_FIFO :: uint8 where [uart_defs]: "FCR_CLEAR_TRANSMIT_FIFO = push_bit 2 1"
definition LCR :: uint64 where [uart_defs]: "LCR = 3"
definition LCR_DLAB :: uint8 where [uart_defs]: "LCR_DLAB = push_bit 7 1"
definition LCR_EIGHT_BITS :: uint8 where [uart_defs]: "LCR_EIGHT_BITS = push_bit 0 3"
definition MCR :: uint64 where [uart_defs]: "MCR = 4"
definition LSR :: uint64 where [uart_defs]: "LSR = 5"
definition LSR_THR_EMPTY :: uint8 where [uart_defs]: "LSR_THR_EMPTY = push_bit 5 1"

definition REG :: "uint64 \<Rightarrow> uint64" where
  "REG reg = DTB_SERIAL + reg"

definition R_REG :: "'d byte_dev \<Rightarrow> uint64 \<Rightarrow> 'd \<Rightarrow> uint8 \<times> 'd" where
  "R_REG dev reg d = byte_read dev d (REG reg)"

definition W_REG :: "'d byte_dev \<Rightarrow> uint64 \<Rightarrow> uint8 \<Rightarrow> 'd \<Rightarrow> 'd" where
  "W_REG dev reg val d = byte_write dev d (REG reg) val"

section \<open>Operations\<close>

text \<open>The busy wait for an empty transmitter; \<^const>\<open>None\<close> when it does not end.\<close>

partial_function (option) wait_thr_empty :: "'d byte_dev \<Rightarrow> 'd \<Rightarrow> 'd option" where
  "wait_thr_empty dev d =
     (case R_REG dev LSR d of
        (v, d') \<Rightarrow> if v AND LSR_THR_EMPTY = 0 then wait_thr_empty dev d' else Some d')"

definition uartputc :: "'d byte_dev \<Rightarrow> char \<Rightarrow> lock \<times> 'd \<Rightarrow> (lock \<times> 'd) outcome" where
  "uartputc dev c = (\<lambda>(uart_lk, d).
     bindE (acquire uart_lk) (\<lambda>lk.
       case wait_thr_empty dev d of
         None \<Rightarrow> Inl Spin_forever
       | Some d \<Rightarrow> Inr (release lk, W_REG dev THR (of_char c) d)))"

definition init_uart :: "'d byte_dev \<Rightarrow> 'd \<Rightarrow> 'd" where
  "init_uart dev d =
     (let d = W_REG dev IER 0 d;
          d = W_REG dev LCR LCR_DLAB d;
          d = W_REG dev DLL DLL_38400 d;
          d = W_REG dev DLM DLM_38400 d;
          d = W_REG dev LCR LCR_EIGHT_BITS d;
          d = W_REG dev FCR (FCR_ENABLE_FIFO OR FCR_CLEAR_RECEIVE_FIFO OR FCR_CLEAR_TRANSMIT_FIFO) d;
          d = W_REG dev MCR 0 d
      in W_REG dev IER IER_RECEIVED_DATA_AVAILABLE d)"

text \<open>What \<^verbatim>\<open>printf\<close> does with the text it produces: one call of \<^verbatim>\<open>uartputc\<close> per character.\<close>

fun uart_puts :: "'d byte_dev \<Rightarrow> string \<Rightarrow> lock \<times> 'd \<Rightarrow> (lock \<times> 'd) outcome" where
  "uart_puts dev [] s = Inr s"
| "uart_puts dev (c # cs) s = bindE (uartputc dev c s) (uart_puts dev cs)"

section \<open>The documented behaviour of the port\<close>

text \<open>
  The registers of a 16550 as the guide cited in the driver documents them: with the divisor latch
  bit set, offsets 0 and 1 are the divisor; otherwise offset 0 sends a character and offset 1
  enables interrupts. \<open>busy\<close> bounds the number of reads of the line status until the transmitter
  is empty.
\<close>

record ns16550 =
  ns_ier :: uint8
  ns_lcr :: uint8
  ns_fcr :: uint8
  ns_mcr :: uint8
  ns_divisor :: uint16
  ns_busy :: nat
  ns_sent :: "uint8 list"

definition dlab :: "ns16550 \<Rightarrow> bool" where
  "dlab u \<longleftrightarrow> bit (ns_lcr u) 7"

definition ns_write :: "uint64 \<Rightarrow> uint8 \<Rightarrow> nat \<Rightarrow> ns16550 \<Rightarrow> ns16550" where
  "ns_write reg v delay u =
     (if reg = 0 then
        if dlab u then u\<lparr>ns_divisor := push_bit 8 (drop_bit 8 (ns_divisor u)) OR ucast v\<rparr>
        else u\<lparr>ns_sent := ns_sent u @ [v], ns_busy := delay\<rparr>
      else if reg = 1 then
        if dlab u then u\<lparr>ns_divisor := push_bit 8 (ucast v) OR take_bit 8 (ns_divisor u)\<rparr>
        else u\<lparr>ns_ier := v\<rparr>
      else if reg = 2 then u\<lparr>ns_fcr := v\<rparr>
      else if reg = 3 then u\<lparr>ns_lcr := v\<rparr>
      else if reg = 4 then u\<lparr>ns_mcr := v\<rparr>
      else u)"

text \<open>
  A device behaves like the port, seen through \<open>view\<close>: writes act as above, sending takes a time
  \<open>delay\<close> that may depend on the state, and reading the line status shows the empty bit exactly
  when the wait is over, and otherwise brings its end nearer.
\<close>

definition uart_hw :: "'d byte_dev \<Rightarrow> ('d \<Rightarrow> ns16550) \<Rightarrow> ('d \<Rightarrow> nat) \<Rightarrow> bool" where
  "uart_hw dev view delay \<longleftrightarrow>
     (\<forall>d reg v. reg < 8 \<longrightarrow>
        view (byte_write dev d (DTB_SERIAL + reg) v) = ns_write reg v (delay d) (view d)) \<and>
     (\<forall>d v d'. byte_read dev d (DTB_SERIAL + 5) = (v, d') \<longrightarrow>
        (bit v 5 \<longleftrightarrow> ns_busy (view d) = 0) \<and> view d' = (view d)\<lparr>ns_busy := ns_busy (view d) - 1\<rparr>)"

lemma uart_hw_write:
  "uart_hw dev view delay \<Longrightarrow> reg < 8 \<Longrightarrow> view (W_REG dev reg v d) = ns_write reg v (delay d) (view d)"
  by (simp add: uart_hw_def W_REG_def REG_def)

lemma uart_hw_lsr:
  assumes "uart_hw dev view delay" "R_REG dev LSR d = (v, d')"
  shows "bit v 5 \<longleftrightarrow> ns_busy (view d) = 0" "view d' = (view d)\<lparr>ns_busy := ns_busy (view d) - 1\<rparr>"
  using assms by (auto simp: uart_hw_def R_REG_def REG_def LSR_def)

section \<open>Initialisation\<close>

text \<open>The divisor written byte by byte.\<close>

lemma divisor_bytes:
  "push_bit 8 (ucast hi) OR take_bit 8 (push_bit 8 x OR ucast lo) = (push_bit 8 (ucast hi) OR ucast lo :: uint16)"
  for hi lo :: uint8
  by (rule bit_word_eqI) (auto simp: bit_simps dest: bit_imp_le_length)

lemma init_uart_view:
  assumes hw: "uart_hw dev view delay"
  shows "let u = view (init_uart dev d) in
    ns_divisor u = 3 \<and> ns_lcr u = 3 \<and> ns_fcr u = 7 \<and> ns_mcr u = 0 \<and> ns_ier u = 1 \<and>
    ns_sent u = ns_sent (view d)"
proof -
  have dl: "(push_bit 8 (ucast DLM_38400) OR ucast DLL_38400 :: uint16) = 3" by (simp add: uart_defs)
  have b: "bit LCR_DLAB 7" "\<not> bit LCR_EIGHT_BITS 7" by (simp_all add: uart_defs bit_iff_odd)
  show ?thesis
    by (simp add: init_uart_def Let_def uart_hw_write [OF hw] IER_def LCR_def DLL_def DLM_def FCR_def MCR_def
        ns_write_def dlab_def b divisor_bytes dl)
       (simp add: uart_defs take_bit_push_bit)
qed

section \<open>Sending\<close>

lemma thr_empty_bit: "v AND LSR_THR_EMPTY = 0 \<longleftrightarrow> \<not> bit v 5"
  unfolding LSR_THR_EMPTY_def push_bit_of_1 by (rule and_exp_eq_0_iff_not_bit)

text \<open>The busy wait ends, and sends nothing.\<close>

lemma wait_thr_empty_ends:
  assumes hw: "uart_hw dev view delay"
  shows "\<exists>d'. wait_thr_empty dev d = Some d' \<and> view d' = (view d)\<lparr>ns_busy := 0\<rparr>"
proof (induction "ns_busy (view d)" arbitrary: d)
  case 0
  obtain v d' where r: "R_REG dev LSR d = (v, d')" by fastforce
  have "v AND LSR_THR_EMPTY \<noteq> 0"
    using uart_hw_lsr(1) [OF hw r] 0 by (simp add: thr_empty_bit)
  with r uart_hw_lsr(2) [OF hw r] 0 show ?case by (subst wait_thr_empty.simps) simp
next
  case (Suc n)
  obtain v d' where r: "R_REG dev LSR d = (v, d')" by fastforce
  have "v AND LSR_THR_EMPTY = 0"
    using uart_hw_lsr(1) [OF hw r] Suc.hyps(2) by (simp add: thr_empty_bit)
  moreover have "n = ns_busy (view d')" using uart_hw_lsr(2) [OF hw r] Suc.hyps(2) by simp
  ultimately show ?case using r uart_hw_lsr(2) [OF hw r] Suc.hyps(1) [of d']
    by (subst wait_thr_empty.simps) auto
qed

lemma uartputc_sends:
  assumes hw: "uart_hw dev view delay" and "locked lk = 0" "\<not> dlab (view d)"
  shows "\<exists>d'. uartputc dev c (lk, d) = Inr (lk, d') \<and> ns_sent (view d') = ns_sent (view d) @ [of_char c] \<and>
    ns_lcr (view d') = ns_lcr (view d)"
proof -
  obtain d1 where d1: "wait_thr_empty dev d = Some d1" "view d1 = (view d)\<lparr>ns_busy := 0\<rparr>"
    using wait_thr_empty_ends [OF hw] by blast
  moreover have "view (W_REG dev THR (of_char c) d1) = ns_write THR (of_char c) (delay d1) (view d1)"
    by (rule uart_hw_write [OF hw]) (simp add: THR_def)
  ultimately show ?thesis using assms(2,3) by (simp add: uartputc_def ns_write_def THR_def dlab_def)
qed

lemma uart_puts_sends:
  assumes hw: "uart_hw dev view delay" and "locked lk = 0" "\<not> dlab (view d)"
  shows "\<exists>d'. uart_puts dev cs (lk, d) = Inr (lk, d') \<and>
    ns_sent (view d') = ns_sent (view d) @ map of_char cs \<and> ns_lcr (view d') = ns_lcr (view d)"
  using assms(3)
proof (induction cs arbitrary: d)
  case (Cons c cs)
  obtain d1 where d1: "uartputc dev c (lk, d) = Inr (lk, d1)"
    "ns_sent (view d1) = ns_sent (view d) @ [of_char c]" "ns_lcr (view d1) = ns_lcr (view d)"
    using uartputc_sends [OF hw assms(2) Cons.prems] by blast
  then show ?case using Cons.IH [of d1] Cons.prems by (auto simp: dlab_def)
qed simp

text \<open>A port with this behaviour: sending takes \<open>k\<close> reads of the line status.\<close>

definition slow_port :: "nat \<Rightarrow> ns16550 byte_dev" where
  "slow_port k =
     \<lparr>byte_read = (\<lambda>u a. (if ns_busy u = 0 then 0x60 else 0, u\<lparr>ns_busy := ns_busy u - 1\<rparr>)),
      byte_write = (\<lambda>u a v. ns_write (a - DTB_SERIAL) v k u)\<rparr>"

lemma slow_port_hw: "uart_hw (slow_port k) id (\<lambda>_. k)"
  by (auto simp: uart_hw_def slow_port_def bit_iff_odd)

end
