(* ===== verification/Printf.thy ===== *)
theory Printf
  imports Lock
begin

text \<open>
  Formatted output, \<^verbatim>\<open>src/src/lib/printf.c\<close>. The result of a call is the text it hands to
  \<^verbatim>\<open>uartputc\<close>, in order, or the way it stops. The variadic arguments are a list; taking an
  argument that is missing or of the wrong kind, reading the format past its terminator, writing
  past the digit buffer and negating the least 32-bit or 64-bit number are undefined.

  The lemmas show that printed numbers read back as the number that was printed, that the buffer of
  64 digits is never overrun, the width of padded output, and what the directives produce.
\<close>

section \<open>Numbers\<close>

definition digits :: string where
  "digits = ''0123456789abcdef'' @ [CHR 0x00]"

definition digit_at :: "uint64 \<Rightarrow> char outcome" where
  "digit_at i = (if unat i < length digits then Inr (digits ! unat i)
                 else Inl (Undefined ''digits out of bounds''))"

text \<open>\<^verbatim>\<open>char buf[64]\<close>: the digits written so far, the least significant one first.\<close>

function print_uint_loop :: "uint64 \<Rightarrow> uint64 \<Rightarrow> string \<Rightarrow> string outcome" where
  "print_uint_loop base tmp buf =
     (if 64 \<le> length buf then Inl (Undefined ''buf out of bounds'')
      else bindE (digit_at (tmp mod base)) (\<lambda>c.
        if tmp div base > 0 then print_uint_loop base (tmp div base) (buf @ [c])
        else Inr (buf @ [c])))"
  by pat_completeness auto

termination print_uint_loop
  by (relation "measure (\<lambda>(base, tmp, buf). 64 - length buf)") auto

declare print_uint_loop.simps [simp del]

definition print_uint :: "uint64 \<Rightarrow> int \<Rightarrow> string outcome" where
  "print_uint num base =
     (if base < 2 then Inl (Panic ''invalid base (base < 2)'')
      else bindE (print_uint_loop (word_of_int base) num []) (\<lambda>buf. Inr (rev buf)))"

function bits_in_char_loop :: "int \<Rightarrow> int \<Rightarrow> int" where
  "bits_in_char_loop base n = (if base > 1 then bits_in_char_loop (base div 2) (n + 1) else n)"
  by pat_completeness auto

termination bits_in_char_loop
  by (relation "measure (\<lambda>(base, n). nat base)") auto

declare bits_in_char_loop.simps [simp del]

text \<open>The second loop of \<^verbatim>\<open>print_padded\<close>: \<open>n\<close> characters from position \<open>i\<close> on.\<close>

fun padded_loop :: "nat \<Rightarrow> int \<Rightarrow> int \<Rightarrow> int \<Rightarrow> int \<Rightarrow> uint64 \<Rightarrow> string outcome" where
  "padded_loop 0 start bits_in_char chars_for_byte i num = Inr []"
| "padded_loop (Suc n) start bits_in_char chars_for_byte i num =
     bindE (digit_at (drop_bit (nat (64 - bits_in_char)) num)) (\<lambda>c.
     bindE (padded_loop n start bits_in_char chars_for_byte (i + 1) (push_bit (nat bits_in_char) num)) (\<lambda>out.
       Inr ((if i \<noteq> start \<and> bits_in_char = 1 \<and> i mod chars_for_byte = 0 then ''_'' else []) @ c # out)))"

definition print_padded :: "uint64 \<Rightarrow> int \<Rightarrow> int \<Rightarrow> string outcome" where
  "print_padded num base bytes =
     (if base \<noteq> 2 \<and> base \<noteq> 16 then Inl (Panic ''invalid base (must be 2 or 16)'')
      else let bits_in_char = bits_in_char_loop base 0;
               chars_for_byte = 8 div bits_in_char;
               start = int_of_u64 ((8 - word_of_int bytes) * word_of_int chars_for_byte);
               end = 8 * chars_for_byte;
               num = push_bit (nat bits_in_char * nat start) num
           in padded_loop (nat (end - start)) start bits_in_char chars_for_byte start num)"

section \<open>Directives\<close>

datatype va = Va_word uint64 | Va_str "string option"

fun va_arg_word :: "va list \<Rightarrow> (uint64 \<times> va list) outcome" where
  "va_arg_word (Va_word w # ap) = Inr (w, ap)"
| "va_arg_word _ = Inl (Undefined ''va_arg'')"

fun va_arg_str :: "va list \<Rightarrow> (string option \<times> va list) outcome" where
  "va_arg_str (Va_str s # ap) = Inr (s, ap)"
| "va_arg_str _ = Inl (Undefined ''va_arg'')"

definition print_number :: "uint64 \<Rightarrow> int \<Rightarrow> int \<Rightarrow> string outcome" where
  "print_number num base len =
     (if base = 2 \<or> base = 16 then print_padded num base len else print_uint num base)"

text \<open>\<^verbatim>\<open>PRINT_UINT\<close> on a variable of \<open>len\<close> bytes.\<close>

definition PRINT_UINT :: "uint64 \<Rightarrow> int \<Rightarrow> int \<Rightarrow> string outcome" where
  "PRINT_UINT arg base len = print_number (take_bit (nat (8 * len)) arg) base len"

text \<open>
  \<^verbatim>\<open>PRINT_INT\<close> on a signed variable of \<open>len\<close> bytes. The negation is computed as \<^verbatim>\<open>int\<close> or wider
  and stored back, so the least 8-bit or 16-bit number stays negative; for the wider types it
  overflows.
\<close>

definition PRINT_INT :: "uint64 \<Rightarrow> int \<Rightarrow> int \<Rightarrow> string outcome" where
  "PRINT_INT arg base len =
     (let w = nat (8 * len); var = signed_take_bit (w - 1) (uint arg) in
      if var < 0
      then if 32 \<le> w \<and> var = - (2 ^ (w - 1)) then Inl (Undefined ''signed overflow'')
           else bindE (print_number (word_of_int (signed_take_bit (w - 1) (- var))) base len)
                  (\<lambda>out. Inr (CHR ''-'' # out))
      else print_number (word_of_int var) base len)"

text \<open>The characters of a format, its terminator included.\<close>

definition fmt_at :: "string \<Rightarrow> nat \<Rightarrow> char outcome" where
  "fmt_at fmt i = (if i < length fmt then Inr (fmt ! i)
                   else if i = length fmt then Inr (CHR 0x00)
                   else Inl (Undefined ''fmt out of bounds''))"

text \<open>\<^verbatim>\<open>decide_format\<close> and \<^verbatim>\<open>decide_length\<close>: base, length in bytes, type character, its index.\<close>

definition decide_format :: "string \<Rightarrow> nat \<Rightarrow> (int \<times> char \<times> nat) outcome" where
  "decide_format fmt i =
     bindE (fmt_at fmt i) (\<lambda>c.
       if c = CHR ''b'' then bindE (fmt_at fmt (i + 1)) (\<lambda>c. Inr (2, c, i + 1))
       else if c = CHR ''x'' then bindE (fmt_at fmt (i + 1)) (\<lambda>c. Inr (16, c, i + 1))
       else Inr (10, c, i))"

definition decide_length :: "string \<Rightarrow> char \<Rightarrow> nat \<Rightarrow> (int \<times> char \<times> nat) outcome" where
  "decide_length fmt c i =
     (if c = CHR ''l'' then bindE (fmt_at fmt (i + 1)) (\<lambda>c. Inr (4 * 2, c, i + 1))
      else if c = CHR ''h''
      then bindE (fmt_at fmt (i + 1)) (\<lambda>c.
             if c = CHR ''h'' then bindE (fmt_at fmt (i + 2)) (\<lambda>c. Inr (4 div 2 div 2, c, i + 2))
             else Inr (4 div 2, c, i + 1))
      else Inr (4, c, i))"

text \<open>\<^verbatim>\<open>decide_type\<close>: the text, the remaining arguments, and whether the specifier is unknown.\<close>

definition decide_type ::
  "char \<Rightarrow> int \<Rightarrow> int \<Rightarrow> va list \<Rightarrow> (string \<times> va list \<times> bool) outcome" where
  "decide_type c base len ap =
     (if c = CHR ''%'' then Inr (''%'', ap, False)
      else if c = CHR ''p''
      then bindE (va_arg_word ap) (\<lambda>(w, ap).
           bindE (print_padded w 16 8) (\<lambda>out. Inr (''0x'' @ out, ap, False)))
      else if c = CHR ''s''
      then bindE (va_arg_str ap) (\<lambda>(s, ap).
             Inr (takeWhile (\<lambda>c. c \<noteq> CHR 0x00) (case s of None \<Rightarrow> ''(null)'' | Some t \<Rightarrow> t), ap, False))
      else if c = CHR ''d''
      then bindE (va_arg_word ap) (\<lambda>(w, ap). bindE (PRINT_INT w base len) (\<lambda>out. Inr (out, ap, False)))
      else if c = CHR ''u''
      then bindE (va_arg_word ap) (\<lambda>(w, ap). bindE (PRINT_UINT w base len) (\<lambda>out. Inr (out, ap, False)))
      else Inr ([], ap, True))"

text \<open>
  The main loop at index \<open>i\<close>; \<open>directive\<close> handles what follows a percent sign and returns the
  index after it. The lengths that occur are 1, 2, 4 and 8, so \<^verbatim>\<open>invalid_length\<close> stays 0.
\<close>

definition directive :: "string \<Rightarrow> nat \<Rightarrow> va list \<Rightarrow> (string \<times> va list \<times> bool \<times> nat) outcome" where
  "directive fmt i ap =
     bindE (decide_format fmt i) (\<lambda>(base, c, i).
     bindE (decide_length fmt c i) (\<lambda>(len, c, i).
     bindE (decide_type c base len ap) (\<lambda>(out, ap, unknown).
       Inr (out, ap, unknown, i + 1))))"

lemma decide_index:
  "decide_format fmt i = Inr (base, c, j) \<Longrightarrow> i \<le> j"
  "decide_length fmt c i = Inr (len, c', j) \<Longrightarrow> i \<le> j"
  by (auto simp: decide_format_def decide_length_def split: if_splits)

lemma directive_index: "directive fmt i ap = Inr (out, ap', unknown, j) \<Longrightarrow> i < j"
  by (auto simp: directive_def dest!: decide_index)

function printf_loop :: "string \<Rightarrow> nat \<Rightarrow> va list \<Rightarrow> bool \<Rightarrow> (string \<times> bool) outcome" where
  "printf_loop fmt i ap unknown =
     bindE (fmt_at fmt i) (\<lambda>c.
       if c = CHR 0x00 then Inr ([], unknown)
       else if c \<noteq> CHR ''%''
       then bindE (printf_loop fmt (i + 1) ap unknown) (\<lambda>(out, u). Inr (c # out, u))
       else bindE (directive fmt (i + 1) ap) (\<lambda>(text, ap, unk, j).
            bindE (printf_loop fmt j ap (unknown \<or> unk)) (\<lambda>(out, u). Inr (text @ out, u))))"
  by pat_completeness auto

termination printf_loop
  by (relation "measure (\<lambda>(fmt, i, ap, u). length fmt + 1 - i)")
     (auto simp: fmt_at_def split: if_splits dest!: directive_index)

declare printf_loop.simps [simp del]

definition printf :: "lock \<Rightarrow> string option \<Rightarrow> va list \<Rightarrow> (string \<times> lock) outcome" where
  "printf printf_lk fmt ap =
     (case fmt of None \<Rightarrow> Inl (Panic ''fmt cannot not be null'')
      | Some fmt \<Rightarrow>
          bindE (acquire printf_lk) (\<lambda>lk.
          bindE (printf_loop fmt 0 ap False) (\<lambda>(out, unknown_specifier).
            let lk = release lk in
            if unknown_specifier then Inl (Panic ''unknown specifier'') else Inr (out, lk))))"

section \<open>Reading numbers back\<close>

definition digit_val :: "char \<Rightarrow> nat" where
  "digit_val c = length (takeWhile (\<lambda>d. d \<noteq> c) digits)"

fun value_rev :: "nat \<Rightarrow> string \<Rightarrow> nat" where
  "value_rev b [] = 0"
| "value_rev b (c # cs) = digit_val c + b * value_rev b cs"

definition value_of :: "nat \<Rightarrow> string \<Rightarrow> nat" where
  "value_of b cs = value_rev b (rev cs)"

definition is_number :: "nat \<Rightarrow> string \<Rightarrow> bool" where
  "is_number b cs \<longleftrightarrow> cs \<noteq> [] \<and> (\<forall>c \<in> set cs. digit_val c < b) \<and> (digit_val (hd cs) = 0 \<longrightarrow> length cs = 1)"

lemma digit_val_digits: "n < 16 \<Longrightarrow> digit_val (digits ! n) = n"
proof -
  assume "n < 16"
  then have "n \<in> set [0..<16]" by simp
  moreover have "\<forall>n \<in> set [0..<16]. digit_val (digits ! n) = n"
    by (simp add: digit_val_def digits_def upt_rec)
  ultimately show ?thesis by blast
qed

lemma digit_at_small: "i < 16 \<Longrightarrow> \<exists>c. digit_at i = Inr c \<and> digit_val c = unat i"
  using digit_val_digits [of "unat i"] by (simp add: digit_at_def digits_def word_less_nat_alt)

text \<open>A number with a further digit leaves room for it in the buffer.\<close>

lemma digits_room:
  fixes b m k :: nat
  assumes "2 \<le> b" "k < 64" "m < 2 ^ (64 - k)" "0 < m div b"
  shows "m div b < 2 ^ (63 - k)" "k + 1 < 64"
proof -
  have "b \<le> m" using assms(4) by (simp add: div_greater_zero_iff)
  have "m div b \<le> m div 2" using assms(1) by (simp add: div_le_mono2)
  moreover have "64 - k = Suc (63 - k)" using assms(2) by simp
  then have "m < 2 * 2 ^ (63 - k)" using assms(3) by (simp only: power_Suc)
  ultimately show "m div b < 2 ^ (63 - k)" by linarith
  show "k + 1 < 64"
  proof (rule ccontr)
    assume "\<not> ?thesis"
    with assms(2,3) have "m < 2" by (cases "k = 63") auto
    with \<open>b \<le> m\<close> assms(1) show False by simp
  qed
qed

text \<open>The loop writes the digits of the number, at most 64 of them, for every base from 2 to 16.\<close>

lemma print_uint_loop_ok:
  assumes "2 \<le> unat base" "unat base \<le> 16" "length buf < 64" "unat tmp < 2 ^ (64 - length buf)"
  shows "\<exists>ds. print_uint_loop base tmp buf = Inr (buf @ ds) \<and> length buf + length ds \<le> 64 \<and>
    value_rev (unat base) ds = unat tmp \<and> ds \<noteq> [] \<and> (\<forall>c \<in> set ds. digit_val c < unat base) \<and>
    (digit_val (last ds) = 0 \<longrightarrow> length ds = 1)"
  using assms
proof (induction base tmp buf rule: print_uint_loop.induct)
  case (1 base tmp buf)
  have md: "unat (tmp mod base) = unat tmp mod unat base" "unat (tmp div base) = unat tmp div unat base"
    by (simp_all add: unat_mod unat_div)
  have "unat tmp mod unat base < unat base" using "1.prems" by simp
  with "1.prems"(2) have "unat tmp mod unat base < 16" by (rule order.strict_trans2 [rotated])
  then have m16: "tmp mod base < 16" by (simp add: word_less_nat_alt md)
  then obtain c where c: "digit_at (tmp mod base) = Inr c" "digit_val c = unat tmp mod unat base"
    using digit_at_small md by metis
  have cb: "digit_val c < unat base" using c "1.prems" by simp
  have step: "print_uint_loop base tmp buf =
      (if tmp div base > 0 then print_uint_loop base (tmp div base) (buf @ [c]) else Inr (buf @ [c]))"
    using "1.prems"(3) c(1) by (subst print_uint_loop.simps) simp
  show ?case
  proof (cases "tmp div base > 0")
    case False
    then have z: "unat tmp div unat base = 0" by (simp add: word_less_nat_alt md)
    then have "unat tmp < unat base" using "1.prems"(1) by (auto simp: div_eq_0_iff)
    moreover have "value_rev (unat base) [c] = unat tmp"
      using z c mult_div_mod_eq [of "unat base" "unat tmp"] by simp
    moreover have "print_uint_loop base tmp buf = Inr (buf @ [c])" using step False by simp
    ultimately show ?thesis using cb "1.prems"(3) by (intro exI [of _ "[c]"]) auto
  next
    case True
    then have pos: "0 < unat tmp div unat base" by (simp add: word_less_nat_alt md)
    note room = digits_room [OF "1.prems"(1,3,4) pos]
    have less: "unat (tmp div base) < 2 ^ (64 - length (buf @ [c]))" using room(1) by (simp add: md)
    have len: "length (buf @ [c]) < 64" using room(2) by simp
    from "1.IH" [OF _ c(1) True "1.prems"(1,2) len less] "1.prems"(3) obtain ds where
      ds: "print_uint_loop base (tmp div base) (buf @ [c]) = Inr ((buf @ [c]) @ ds)"
      "length (buf @ [c]) + length ds \<le> 64" "value_rev (unat base) ds = unat (tmp div base)" "ds \<noteq> []"
      "\<forall>c \<in> set ds. digit_val c < unat base" "digit_val (last ds) = 0 \<longrightarrow> length ds = 1"
      by auto
    have nz: "digit_val (last ds) \<noteq> 0"
    proof
      assume "digit_val (last ds) = 0"
      moreover from this ds(6) obtain d where "ds = [d]" by (metis length_Suc_conv length_0_conv One_nat_def)
      ultimately have "value_rev (unat base) ds = 0" by simp
      with ds(3) pos show False by (simp add: md)
    qed
    have "value_rev (unat base) (c # ds) = unat tmp"
      using ds(3) c md mult_div_mod_eq [of "unat base" "unat tmp"] by simp
    moreover have "print_uint_loop base tmp buf = Inr (buf @ c # ds)" using step True ds(1) by simp
    ultimately show ?thesis using cb nz ds(2,4,5) by (intro exI [of _ "c # ds"]) auto
  qed
qed

lemma print_uint_ok:
  assumes "2 \<le> base" "base \<le> 16"
  shows "\<exists>cs. print_uint num base = Inr cs \<and> length cs \<le> 64 \<and> is_number (nat base) cs \<and>
    value_of (nat base) cs = unat num"
proof -
  have b: "unat (word_of_int base :: uint64) = nat base"
    using assms by (simp add: unat_eq_nat_uint unsigned_of_int take_bit_int_eq_self)
  have "unat num < 2 ^ 64" "2 \<le> nat base" "nat base \<le> 16"
    using unat_less_length [of num] assms by simp_all
  with print_uint_loop_ok [of "word_of_int base" "[]" num] assms b obtain ds where
    "print_uint_loop (word_of_int base) num [] = Inr ds" "length ds \<le> 64"
    "value_rev (nat base) ds = unat num" "ds \<noteq> []" "\<forall>c \<in> set ds. digit_val c < nat base"
    "digit_val (last ds) = 0 \<longrightarrow> length ds = 1"
    by auto
  with assms show ?thesis
    by (intro exI [of _ "rev ds"]) (simp add: print_uint_def value_of_def is_number_def hd_rev)
qed

section \<open>Padded numbers\<close>

lemma value_rev_append: "value_rev b (cs @ ds) = value_rev b cs + b ^ length cs * value_rev b ds"
  by (induction cs) (simp_all add: algebra_simps)

lemma value_of_Cons: "value_of b (c # cs) = digit_val c * b ^ length cs + value_of b cs"
  by (simp add: value_of_def value_rev_append)

text \<open>The top \<open>b * (n + 1)\<close> bits of a word: its top \<open>b\<close> bits and the top \<open>b * n\<close> bits of the rest.\<close>

lemma top_bits_nat:
  fixes x :: nat
  assumes "b * Suc n \<le> 64"
  shows "x div 2 ^ (64 - b * Suc n) =
    (x div 2 ^ (64 - b)) * (2 ^ b) ^ n + (x * 2 ^ b mod 2 ^ 64) div 2 ^ (64 - b * n)"
proof -
  define p where "p = 64 - b * Suc n"
  have e: "64 - b = b * n + p" "64 - b * n = b + p" "(64 :: nat) = b + (b * n + p)"
    using assms by (simp_all add: p_def)
  define hi lo where "hi = x div 2 ^ (64 - b)" and "lo = x mod 2 ^ (64 - b)"
  have x: "x = hi * 2 ^ (b * n) * 2 ^ p + lo"
    using div_mult_mod_eq [of x "2 ^ (64 - b)"] by (simp add: hi_def lo_def e(1) power_add mult.assoc)
  have "x * 2 ^ b mod 2 ^ 64 = lo * 2 ^ b"
  proof -
    have "(2 :: nat) ^ 64 = 2 ^ (64 - b) * 2 ^ b" using e(3) e(1) by (metis power_add add.commute)
    then show ?thesis by (simp add: lo_def mult_mod_left)
  qed
  then have "(x * 2 ^ b mod 2 ^ 64) div 2 ^ (64 - b * n) = lo div 2 ^ p"
    by (simp add: e(2) power_add)
  moreover have "x div 2 ^ p = hi * 2 ^ (b * n) + lo div 2 ^ p" by (simp add: x)
  ultimately show ?thesis by (simp only: p_def [symmetric] hi_def power_mult)
qed

lemma top_bits:
  fixes num :: uint64
  assumes "b * Suc n \<le> 64" "0 < b"
  shows "unat (drop_bit (64 - b * Suc n) num) =
    unat (drop_bit (64 - b) num) * (2 ^ b) ^ n + unat (drop_bit (64 - b * n) (push_bit b num))"
proof -
  have d: "unat (drop_bit k w) = unat w div 2 ^ k" for k and w :: uint64
    by (simp only: unat_drop_bit_eq drop_bit_eq_div [of k "unat w"])
  have p: "unat (push_bit b num) = unat num * 2 ^ b mod 2 ^ 64"
    by (simp only: unsigned_push_bit_eq push_bit_eq_mult [of b "unat num"] take_bit_eq_mod) simp
  show ?thesis unfolding d p by (rule top_bits_nat [OF assms(1)])
qed

lemma digit_at_top:
  fixes num :: uint64
  assumes "b = 1 \<or> b = 4"
  shows "\<exists>c. digit_at (drop_bit (nat (64 - b)) num) = Inr c \<and> digit_val c = unat (drop_bit (nat (64 - b)) num) \<and>
    c \<noteq> CHR ''_''"
proof -
  have "unat (drop_bit (nat (64 - b)) num) = unat num div 2 ^ nat (64 - b)"
    by (simp only: unat_drop_bit_eq drop_bit_eq_div [of _ "unat num"])
  also have "\<dots> < 16"
    using unat_less_length [of num] assms by (auto simp: less_mult_imp_div_less)
  finally have small: "drop_bit (nat (64 - b)) num < 16" by (simp add: word_less_nat_alt)
  then obtain c where c: "digit_at (drop_bit (nat (64 - b)) num) = Inr c"
    "digit_val c = unat (drop_bit (nat (64 - b)) num)" using digit_at_small by blast
  moreover have "digit_val CHR ''_'' = 17" by (simp add: digit_val_def digits_def)
  ultimately show ?thesis using small by (auto simp: word_less_nat_alt)
qed

text \<open>The loop writes the top \<open>b * n\<close> bits, \<open>b\<close> bits per character.\<close>

abbreviation no_sep :: "string \<Rightarrow> string" where
  "no_sep cs \<equiv> filter (\<lambda>c. c \<noteq> CHR ''_'') cs"

lemma padded_loop_ok:
  assumes "b = 1 \<or> b = 4" "nat b * n \<le> 64"
  shows "\<exists>out. padded_loop n start b cpb i num = Inr out \<and> length (no_sep out) = n \<and>
    value_of (2 ^ nat b) (no_sep out) = unat (drop_bit (64 - nat b * n) num) \<and>
    (b = 4 \<longrightarrow> no_sep out = out)"
  using assms(2)
proof (induction n arbitrary: i num)
  case 0
  have "drop_bit 64 num = 0" by (rule bit_word_eqI) (auto simp: bit_drop_bit_eq dest: bit_imp_le_length)
  then show ?case by (simp add: value_of_def)
next
  case (Suc n)
  have b: "0 < nat b" "nat b * n \<le> 64" "nat (64 - b) = 64 - nat b" using assms(1) Suc.prems by auto
  obtain out where out: "padded_loop n start b cpb (i + 1) (push_bit (nat b) num) = Inr out"
    "length (no_sep out) = n"
    "value_of (2 ^ nat b) (no_sep out) = unat (drop_bit (64 - nat b * n) (push_bit (nat b) num))"
    "b = 4 \<longrightarrow> no_sep out = out"
    using Suc.IH [OF b(2), of "i + 1" "push_bit (nat b) num"] by blast
  obtain c where c: "digit_at (drop_bit (nat (64 - b)) num) = Inr c"
    "digit_val c = unat (drop_bit (nat (64 - b)) num)" "c \<noteq> CHR ''_''"
    using digit_at_top [OF assms(1)] by blast
  let ?sep = "if i \<noteq> start \<and> b = 1 \<and> i mod cpb = 0 then ''_'' else []"
  have "padded_loop (Suc n) start b cpb i num = Inr (?sep @ c # out)"
    using c(1) out(1) by simp
  moreover have ns: "no_sep (?sep @ c # out) = c # no_sep out" using c(3) by simp
  moreover have "value_of (2 ^ nat b) (c # no_sep out) = unat (drop_bit (64 - nat b * Suc n) num)"
    unfolding value_of_Cons top_bits [OF Suc.prems b(1)] using c(2) out(2,3) b(3) by simp
  moreover have "b = 4 \<longrightarrow> no_sep (?sep @ c # out) = ?sep @ c # out" using out(4) c(3) by auto
  ultimately show ?case using out(2) by (intro exI [of _ "?sep @ c # out"]) (simp del: filter.simps)
qed

lemma bits_in_char: "bits_in_char_loop 2 0 = 1" "bits_in_char_loop 16 0 = 4"
  by (simp_all add: bits_in_char_loop.simps)

lemma unat_shifted:
  fixes num :: uint64
  assumes "k \<le> 64"
  shows "unat (drop_bit (64 - k) (push_bit (64 - k) num)) = unat (take_bit k num)"
proof -
  have "drop_bit (64 - k) (push_bit (64 - k) num) = take_bit k num"
    by (rule bit_word_eqI) (use assms in \<open>auto simp: bit_simps\<close>)
  then show ?thesis by simp
qed

text \<open>
  \<^verbatim>\<open>print_padded\<close> writes exactly the characters of \<open>bytes\<close> bytes, leading zeros included, and they
  read back as the low \<open>bytes\<close> bytes of the number; in base 2 separators split the bytes.
\<close>

lemma print_padded_ok:
  assumes "base = 2 \<or> base = 16" "1 \<le> bytes" "bytes \<le> 8"
  shows "\<exists>out. print_padded num base bytes = Inr out \<and>
    length (no_sep out) = nat (if base = 2 then 8 * bytes else 2 * bytes) \<and>
    value_of (nat base) (no_sep out) = unat (take_bit (nat (8 * bytes)) num) \<and>
    (base = 16 \<longrightarrow> no_sep out = out)"
proof -
  define b where "b = bits_in_char_loop base 0"
  have b: "b = 1 \<and> base = 2 \<or> b = 4 \<and> base = 16" using assms(1) by (auto simp: b_def bits_in_char)
  define start where "start = int_of_u64 ((8 - word_of_int bytes) * word_of_int (8 div b))"
  have set: "bytes \<in> {1, 2, 3, 4, 5, 6, 7, 8}" using assms(2,3) by auto
  have start: "start = (8 - bytes) * (8 div b)"
    using set b unfolding start_def by (elim insertE emptyE disjE conjE; simp add: int_of_u64_def)
  let ?n = "nat (8 * (8 div b) - start)"
  have n: "?n = nat (if base = 2 then 8 * bytes else 2 * bytes)" "nat b * ?n = nat (8 * bytes)"
    "nat b * nat start = 64 - nat (8 * bytes)" "nat (8 * bytes) \<le> 64"
    using b set unfolding start by (elim insertE emptyE disjE conjE; simp)+
  have "print_padded num base bytes =
      padded_loop ?n start b (8 div b) start (push_bit (nat b * nat start) num)"
    using assms(1) by (auto simp: print_padded_def Let_def b_def [symmetric] start_def [symmetric])
  moreover have pre: "b = 1 \<or> b = 4" "nat b * ?n \<le> 64" unfolding n(2) using b n(4) by auto
  moreover obtain out where out:
    "padded_loop ?n start b (8 div b) start (push_bit (nat b * nat start) num) = Inr out"
    "length (no_sep out) = ?n" "b = 4 \<longrightarrow> no_sep out = out"
    "value_of (2 ^ nat b) (no_sep out) = unat (drop_bit (64 - nat b * ?n) (push_bit (nat b * nat start) num))"
    using padded_loop_ok [OF pre, of start "8 div b" start "push_bit (nat b * nat start) num"]
    by (elim exE conjE)
  moreover have "(2 :: nat) ^ nat b = nat base" using b by auto
  moreover have "base = 16 \<longrightarrow> no_sep out = out" using b out(3) by fastforce
  moreover have "unat (drop_bit (64 - nat b * ?n) (push_bit (nat b * nat start) num)) =
      unat (take_bit (nat (8 * bytes)) num)"
    unfolding n(2,3) by (rule unat_shifted [OF n(4)])
  ultimately show ?thesis using out unfolding n(1) by (intro exI [of _ out]) (simp only: simp_thms)
qed

section \<open>What \<^verbatim>\<open>printf\<close> prints\<close>

text \<open>Text without percent signs is printed as it is.\<close>

lemma printf_loop_text:
  assumes "\<forall>c \<in> set cs. c \<noteq> CHR ''%'' \<and> c \<noteq> CHR 0x00"
  shows "printf_loop (pre @ cs @ post) (length pre) ap u =
    bindE (printf_loop (pre @ cs @ post) (length pre + length cs) ap u) (\<lambda>(out, u). Inr (cs @ out, u))"
  using assms
proof (induction cs arbitrary: pre)
  case Nil
  show ?case by (cases "printf_loop (pre @ post) (length pre) ap u") auto
next
  case (Cons c cs)
  have "fmt_at (pre @ (c # cs) @ post) (length pre) = Inr c" by (simp add: fmt_at_def nth_append)
  then have "printf_loop (pre @ (c # cs) @ post) (length pre) ap u =
      bindE (printf_loop (pre @ (c # cs) @ post) (length pre + 1) ap u) (\<lambda>(out, u). Inr (c # out, u))"
    using Cons.prems by (subst printf_loop.simps) simp
  also have "printf_loop (pre @ (c # cs) @ post) (length pre + 1) ap u =
      bindE (printf_loop (pre @ (c # cs) @ post) (length pre + 1 + length cs) ap u)
        (\<lambda>(out, u). Inr (cs @ out, u))"
    using Cons.IH [of "pre @ [c]"] Cons.prems by simp
  finally show ?case
    by (cases "printf_loop (pre @ (c # cs) @ post) (length pre + 1 + length cs) ap u") auto
qed

abbreviation plain :: "string \<Rightarrow> bool" where
  "plain cs \<equiv> \<forall>c \<in> set cs. c \<noteq> CHR ''%'' \<and> c \<noteq> CHR 0x00"

lemma printf_loop_end: "printf_loop fmt (length fmt) ap u = Inr ([], u)"
  by (subst printf_loop.simps) (simp add: fmt_at_def)

lemma printf_loop_directive:
  assumes "directive (pre @ CHR ''%'' # post) (length pre + 1) ap = Inr (out, ap', unk, j)"
  shows "printf_loop (pre @ CHR ''%'' # post) (length pre) ap u =
    bindE (printf_loop (pre @ CHR ''%'' # post) j ap' (u \<or> unk)) (\<lambda>(rest, u). Inr (out @ rest, u))"
  using assms by (subst printf_loop.simps) (simp add: fmt_at_def nth_append)

lemma printf_plain:
  assumes "plain cs" "locked lk = 0"
  shows "printf lk (Some cs) ap = Inr (cs, lk)"
proof -
  have "printf_loop cs 0 ap False = Inr (cs, False)"
    using printf_loop_text [OF assms(1), of "[]" "[]" ap False] printf_loop_end [of cs ap False] by simp
  with assms(2) show ?thesis by (simp add: printf_def Let_def)
qed

text \<open>One directive between plain text: what is printed is what its \<^verbatim>\<open>decide_type\<close> prints.\<close>

lemma printf_one:
  assumes "plain pre" "plain post" "locked lk = 0"
    and "directive (pre @ CHR ''%'' # dir @ post) (length pre + 1) ap =
      Inr (out, ap', unk, length pre + 1 + length dir)"
  shows "printf lk (Some (pre @ CHR ''%'' # dir @ post)) ap =
    (if unk then Inl (Panic ''unknown specifier'') else Inr (pre @ out @ post, lk))"
proof -
  let ?fmt = "pre @ CHR ''%'' # dir @ post"
  have "printf_loop ?fmt (length (pre @ CHR ''%'' # dir)) ap' unk = Inr (post, unk)"
    using printf_loop_text [OF assms(2), of "pre @ CHR ''%'' # dir" "[]" ap' unk]
      printf_loop_end [of ?fmt ap' unk] by (simp add: algebra_simps)
  then have "printf_loop ?fmt (length pre) ap False = Inr (out @ post, unk)"
    using printf_loop_directive [OF assms(4), of False] by (simp add: algebra_simps)
  then have "printf_loop ?fmt 0 ap False = Inr (pre @ out @ post, unk)"
    using printf_loop_text [OF assms(1), of "[]" "CHR ''%'' # dir @ post" ap False] by simp
  then show ?thesis using assms(3) by (simp add: printf_def acquire_def release_def Let_def)
qed

lemma directive_ld:
  "directive (pre @ CHR ''%'' # ''ld'' @ post) (length pre + 1) (Va_word w # ap) =
     bindE (PRINT_INT w 10 8) (\<lambda>out. Inr (out, ap, False, length pre + 1 + length ''ld''))"
  by (simp add: directive_def decide_format_def decide_length_def decide_type_def fmt_at_def nth_append
      bindE_def split: sum.split)

definition signed_value :: "string \<Rightarrow> int" where
  "signed_value cs = (if cs \<noteq> [] \<and> hd cs = CHR ''-'' then - int (value_of 10 (tl cs)) else int (value_of 10 cs))"

lemma digit_val_minus: "digit_val CHR ''-'' = 17"
  by (simp add: digit_val_def digits_def)

text \<open>
  Signed decimal output of 8, 16, 32 and 64 bit numbers reads back, with the exception of the least
  number of each width.
\<close>

lemma PRINT_INT_ok:
  assumes "len \<in> {1, 2, 4, 8}"
    and "signed_take_bit (nat (8 * len) - 1) (uint arg) \<noteq> - (2 ^ (nat (8 * len) - 1))"
  shows "\<exists>out. PRINT_INT arg 10 len = Inr out \<and>
    signed_value out = signed_take_bit (nat (8 * len) - 1) (uint arg) \<and> length out \<le> 65"
proof -
  let ?k = "nat (8 * len) - 1"
  define var where "var = signed_take_bit ?k (uint arg)"
  have unfold: "PRINT_INT arg 10 len =
      (if var < 0 then if 32 \<le> nat (8 * len) \<and> var = - (2 ^ ?k) then Inl (Undefined ''signed overflow'')
         else bindE (print_number (word_of_int (signed_take_bit ?k (- var))) 10 len) (\<lambda>out. Inr (CHR ''-'' # out))
       else print_number (word_of_int var) 10 len)"
    by (simp only: PRINT_INT_def Let_def var_def)
  note least = assms(2) [folded var_def]
  have k: "?k \<le> 63" using assms(1) by auto
  have range: "- (2 ^ ?k) \<le> var" "var < 2 ^ ?k"
    unfolding var_def by (rule signed_take_bit_int_greater_eq_minus_exp, rule signed_take_bit_int_less_exp)
  have le: "(2 :: int) ^ ?k \<le> 2 ^ 63" by (rule power_increasing [OF k]) simp
  have nonneg: "\<exists>out. print_number (word_of_int v) 10 len = Inr out \<and> length out \<le> 64 \<and>
      is_number 10 out \<and> int (value_of 10 out) = v" if "0 \<le> v" "v < 2 ^ ?k" for v
  proof -
    have "unat (word_of_int v :: uint64) = nat v"
      using that le by (simp add: unat_eq_nat_uint unsigned_of_int take_bit_int_eq_self)
    then show ?thesis using print_uint_ok [of 10 "word_of_int v"] that by (auto simp: print_number_def)
  qed
  show ?thesis
  proof (cases "var < 0")
    case True
    have "- var < 2 ^ ?k" using least range(1) by linarith
    then obtain out where out: "print_number (word_of_int (- var)) 10 len = Inr out" "length out \<le> 64"
      "int (value_of 10 out) = - var" using nonneg [of "- var"] True by auto
    have "signed_take_bit ?k (- var) = - var"
      by (rule signed_take_bit_int_eq_self) (use \<open>- var < 2 ^ ?k\<close> True in auto)
    with out True least have "PRINT_INT arg 10 len = Inr (CHR ''-'' # out)"
      unfolding unfold by (simp only: if_True if_False simp_thms bindE_Inr)
    with out show ?thesis unfolding var_def [symmetric]
      by (intro exI [of _ "CHR ''-'' # out"]) (simp add: signed_value_def)
  next
    case False
    then obtain out where out: "print_number (word_of_int var) 10 len = Inr out" "length out \<le> 64"
      "is_number 10 out" "int (value_of 10 out) = var" using nonneg [of var] range by auto
    have "hd out \<noteq> CHR ''-''" using out(3) digit_val_minus by (cases out) (auto simp: is_number_def)
    moreover have "PRINT_INT arg 10 len = Inr out" unfolding unfold using out(1) False by simp
    ultimately show ?thesis unfolding var_def [symmetric]
      using out by (intro exI [of _ out]) (simp add: signed_value_def)
  qed
qed

end
