(* ===== verification/Pci.thy ===== *)
theory Pci
  imports Layout
begin

text \<open>
  The PCI set-up of \<^verbatim>\<open>src/src/driver/pci.c\<close>: one serial card is switched on at the start of the I/O
  window. The bus is hardware: a pair of functions, the effect of a 16-bit and of a 32-bit write at
  an address. What the code relies on is \<open>pci_hw\<close>: the function at \<open>base\<close> has a command register
  and an I/O base register of which the low bits are fixed by the size of the card's window.
\<close>

section \<open>Operations\<close>

record 'd pci_bus =
  write16 :: "'d \<Rightarrow> uint64 \<Rightarrow> uint16 \<Rightarrow> 'd"
  write32 :: "'d \<Rightarrow> uint64 \<Rightarrow> uint32 \<Rightarrow> 'd"

text \<open>The pointer \<^verbatim>\<open>pci_serial\<close> of the driver; the machine configuration has a device of that name.\<close>

definition pci_serial_ptr :: uint64 where
  "pci_serial_ptr = DTB_PCI + 0x8000"

text \<open>\<^verbatim>\<open>&pci_dev[i]\<close>.\<close>

definition pci_reg :: "uint64 \<Rightarrow> uint64 \<Rightarrow> uint64" where
  "pci_reg pci_dev i = pci_dev + 4 * i"

definition enable_io_access :: "'d pci_bus \<Rightarrow> uint64 \<Rightarrow> 'd \<Rightarrow> 'd" where
  "enable_io_access bus pci_dev d = write16 bus d (pci_reg pci_dev 1) 0x1"

definition set_io_base :: "'d pci_bus \<Rightarrow> uint64 \<Rightarrow> uint64 \<Rightarrow> 'd \<Rightarrow> 'd" where
  "set_io_base bus pci_dev offset d = write32 bus d (pci_reg pci_dev 4) (ucast (offset OR 1))"

definition init_pci :: "'d pci_bus \<Rightarrow> 'd \<Rightarrow> 'd" where
  "init_pci bus d = set_io_base bus pci_serial_ptr 0 (enable_io_access bus pci_serial_ptr d)"

section \<open>The documented behaviour of a card\<close>

record pci_func =
  command :: uint16
  io_bar :: uint32

text \<open>
  A card at \<open>base\<close> that decodes \<open>2 ^ n\<close> bytes of I/O space: of the base address register the low
  \<open>n\<close> bits are not writable, bit 0 reads as one.
\<close>

definition pci_hw :: "'d pci_bus \<Rightarrow> uint64 \<Rightarrow> nat \<Rightarrow> ('d \<Rightarrow> pci_func) \<Rightarrow> bool" where
  "pci_hw bus base n view \<longleftrightarrow> 2 \<le> n \<and>
     (\<forall>d v. view (write16 bus d (base + 4) v) = (view d)\<lparr>command := v\<rparr>) \<and>
     (\<forall>d v. view (write32 bus d (base + 16) v) = (view d)\<lparr>io_bar := push_bit n (drop_bit n v) OR 1\<rparr>)"

definition io_enabled :: "pci_func \<Rightarrow> bool" where
  "io_enabled f \<longleftrightarrow> bit (command f) 0"

text \<open>The two low bits of an I/O base register are no address bits.\<close>

definition io_base :: "pci_func \<Rightarrow> uint32" where
  "io_base f = io_bar f AND NOT 3"

lemma io_bar_base:
  fixes offset :: uint64
  assumes "2 \<le> n"
  shows "(push_bit n (drop_bit n (ucast (offset OR 1))) OR 1) AND NOT 3 =
    (push_bit n (drop_bit n (ucast offset)) :: uint32)"
proof (rule bit_word_eqI)
  fix k assume "k < LENGTH(32)"
  moreover have "bit (3 :: uint32) k \<longleftrightarrow> k < 2"
  proof -
    have "(3 :: uint32) = mask 2" by (simp add: mask_eq_exp_minus_1)
    with \<open>k < LENGTH(32)\<close> show ?thesis by (simp only: bit_mask_iff) simp
  qed
  ultimately show "bit ((push_bit n (drop_bit n (ucast (offset OR 1))) OR 1) AND NOT 3 :: uint32) k \<longleftrightarrow>
      bit (push_bit n (drop_bit n (ucast offset)) :: uint32) k"
    using assms by (auto simp: bit_simps)
qed

text \<open>The window is placed at the offset, rounded down to the size of the card's window.\<close>

lemma set_io_base_effect:
  assumes "pci_hw bus base n view"
  shows "io_base (view (set_io_base bus base offset d)) = push_bit n (drop_bit n (ucast offset))"
  using assms io_bar_base [of n offset] by (simp add: set_io_base_def pci_reg_def pci_hw_def io_base_def)

lemma init_pci_effect:
  assumes hw: "pci_hw bus pci_serial_ptr n view"
  shows "io_enabled (view (init_pci bus d)) \<and> io_base (view (init_pci bus d)) = 0"
proof -
  have "io_base (view (init_pci bus d)) = 0"
    unfolding init_pci_def set_io_base_effect [OF hw] by simp
  moreover have "command (view (init_pci bus d)) = 1"
    using hw by (simp add: init_pci_def set_io_base_def enable_io_access_def pci_reg_def pci_hw_def)
  ultimately show ?thesis by (simp add: io_enabled_def)
qed

text \<open>A card with eight registers.\<close>

definition serial_card :: "pci_func pci_bus" where
  "serial_card =
     \<lparr>write16 = (\<lambda>f a v. if a = pci_serial_ptr + 4 then f\<lparr>command := v\<rparr> else f),
      write32 = (\<lambda>f a v. if a = pci_serial_ptr + 16 then f\<lparr>io_bar := push_bit 3 (drop_bit 3 v) OR 1\<rparr> else f)\<rparr>"

lemma serial_card_hw: "pci_hw serial_card pci_serial_ptr 3 id"
  by (simp add: pci_hw_def serial_card_def)

end
