(* ===== verification/Startup.thy ===== *)
theory Startup
  imports Boot Vm_Run Uart Printf Pci
begin

text \<open>
  The start of the whole system, \<^verbatim>\<open>src/src/core/main.c\<close>: hart 0 initialises the allocator, the serial
  port and the PCI card; every hart builds its kernel page table and initialises its registers;
  hart 0 announces that the per-hart structures are mapped; then every hart runs its virtual machine.
  The calls of \<^verbatim>\<open>wait_barrier\<close> separate the phases.

  The theorems follow the free pages through the phases and show that the configured system starts:
  all page tables can be built, and none of the later ones changes what an earlier one maps.
\<close>

section \<open>The phases of main\<close>

text \<open>The state the phases share: allocator, locks and devices.\<close>

record ('u, 'p) board =
  bkmem :: kmem_state
  uart_lk :: lock
  printf_lk :: lock
  uart_d :: 'u
  pci_d :: 'p
  cpu_mapped :: int

definition main_boot ::
  "linker \<Rightarrow> 'u byte_dev \<Rightarrow> 'p pci_bus \<Rightarrow> uint64 \<Rightarrow> ('u, 'p) board \<Rightarrow> ('u, 'p) board outcome" where
  "main_boot L udev bus hartid b =
     (if hartid = 0
      then let b = b\<lparr>bkmem := init_kmem (dynamic_start L) (bkmem b), uart_d := init_uart udev (uart_d b)\<rparr> in
           bindE (printf (printf_lk b) (Some (''Booting!'' @ [CHR 0x0A])) []) (\<lambda>(out, lk).
           bindE (uart_puts udev out (uart_lk b, uart_d b)) (\<lambda>(ulk, d).
             Inr (b\<lparr>printf_lk := lk, uart_lk := ulk, uart_d := d, pci_d := init_pci bus (pci_d b)\<rparr>)))
      else Inr b)"

definition main_setup ::
  "linker \<Rightarrow> uint64 \<Rightarrow> uint64 \<Rightarrow> hart \<times> ('u, 'p) board \<Rightarrow> (hart \<times> ('u, 'p) board) outcome" where
  "main_setup L vec hartid = (\<lambda>(h, b).
     bindE (init_vmem L (cpu_mapped b) hartid (bkmem b)) (\<lambda>(pgtable, k).
       Inr (init_hart L (cpu_mapped b) hartid vec pgtable h, b\<lparr>bkmem := k\<rparr>)))"

definition main_mapped :: "uint64 \<Rightarrow> ('u, 'p) board \<Rightarrow> ('u, 'p) board" where
  "main_mapped hartid b = (if hartid = 0 then b\<lparr>cpu_mapped := 1\<rparr> else b)"

section \<open>The number of free pages\<close>

lemma free_pages:
  assumes L: "linker_layout L"
  shows "65536 - koff (dynamic_start L) div 4096 \<le> card {p. valid_address (dynamic_start L) p}"
proof -
  let ?D = "koff (dynamic_start L)" and ?f = "\<lambda>i :: nat. VAS_RAM + of_nat (4096 * i)"
  note n = linker_numbers [OF L]
  obtain d where d: "?D = 4096 * d" using n(18) by (auto simp: mod_eq_0_iff_dvd elim!: dvdE)
  have u: "unat (?f i) = 0xffffffe000000000 + 4096 * i" if "i < 65536" for i
    using that by (simp add: layout_defs unat_word_ariths unat_of_nat)
  have "?f ` {d ..< 65536} \<subseteq> {p. valid_address (dynamic_start L) p}"
  proof clarify
    fix i assume i: "i \<in> {d ..< 65536}"
    have "unat (KVA2KPA (dynamic_start L)) \<le> unat (?f i)"
      using KVA2PA_koff(2) [OF n(5,13)] u [of i] i d by simp
    moreover have "take_bit 12 (?f i) = 0" unfolding aligned_unat_mod using u [of i] i by simp
    ultimately show "valid_address (dynamic_start L) (?f i)"
      using u [of i] i by (simp add: valid_address_iff word_le_nat_alt word_less_nat_alt)
  qed
  moreover have "inj_on ?f {d ..< 65536}"
  proof (rule inj_onI)
    fix i j assume i: "i \<in> {d ..< 65536}" "j \<in> {d ..< 65536}" and "?f i = ?f j"
    then have "unat (?f i) = unat (?f j)" by simp
    then show "i = j" using u [of i] u [of j] i by simp
  qed
  ultimately have "card {d ..< 65536} \<le> card {p. valid_address (dynamic_start L) p}"
    by (metis card_image card_mono finite_code)
  then show ?thesis by (simp add: d)
qed

section \<open>Several page tables\<close>

text \<open>The pages that hold a table's entries; tables on different pages are disjoint.\<close>

definition pages_of :: "bool \<Rightarrow> (uint64 \<rightharpoonup> uint64 list) \<Rightarrow> uint64 set" where
  "pages_of x4 own = {PGROUNDDOWN (entry_addr p i) | p path i. own p = Some path \<and> i < entries x4 path}"

lemma pages_ofI: "own p = Some path \<Longrightarrow> i < entries x4 path \<Longrightarrow> PGROUNDDOWN (entry_addr p i) \<in> pages_of x4 own"
  unfolding pages_of_def by blast

lemma pages_disjoint:
  assumes "pages_of x4 own \<inter> pages_of x4' own2 = {}"
  shows "tables_disjoint x4 own x4' own2"
  unfolding tables_disjoint_def
proof (intro allI impI)
  fix p q path path' i j
  assume "own p = Some path" "own2 q = Some path'" "i < entries x4 path" "j < entries x4' path'"
  then have "PGROUNDDOWN (entry_addr p i) \<in> pages_of x4 own" "PGROUNDDOWN (entry_addr q j) \<in> pages_of x4' own2"
    by (simp_all add: pages_ofI)
  with assms show "entry_addr p i \<noteq> entry_addr q j" by auto
qed

lemma pages_of_mapped:
  assumes "pt_mapped dynamic x4 root s own F s' own' F'"
  shows "pages_of x4 own' \<subseteq> pages_of x4 own \<union> F"
proof
  fix q assume "q \<in> pages_of x4 own'"
  then obtain p path i where p: "own' p = Some path" "i < entries x4 path" "q = PGROUNDDOWN (entry_addr p i)"
    by (auto simp: pages_of_def)
  from assms p(1) have "own p = Some path \<or> p \<in> F \<and> take_bit 12 p = 0 \<and> path \<noteq> []"
    unfolding pt_mapped_def by blast
  then show "q \<in> pages_of x4 own \<union> F"
  proof
    assume "own p = Some path"
    then show ?thesis using p by (simp add: pages_ofI)
  next
    assume "p \<in> F \<and> take_bit 12 p = 0 \<and> path \<noteq> []"
    then show ?thesis using p entry_page(1) [of p i] by (simp add: entries_def)
  qed
qed

lemma pages_of_free: "pt_state dynamic x4 root s own F \<Longrightarrow> pages_of x4 own \<inter> F = {}"
  using pt_tree_entry(2) [OF pt_state_root(1)] by (fastforce simp: pages_of_def)

lemma pages_of_kernel_root:
  assumes "take_bit 12 root = 0"
  shows "pages_of False [root \<mapsto> []] \<subseteq> {root}"
  using entry_page(1) [OF assms] by (auto simp: pages_of_def entries_def split: if_splits)

text \<open>The four pages of a guest's root table.\<close>

definition root_pages :: "uint64 \<Rightarrow> uint64 set" where
  "root_pages root = {p. drop_bit 14 p = drop_bit 14 root}"

lemma drop_14_page: "drop_bit 14 (PGROUNDDOWN a) = drop_bit 14 a"
  by (rule bit_word_eqI) (auto simp: PGROUNDDOWN_def page_mask_eq bit_simps dest: bit_imp_le_length)

lemma pages_of_guest_root:
  assumes "root \<noteq> 0" "take_bit 14 root = 0"
  shows "pages_of True [root \<mapsto> []] \<subseteq> root_pages root"
proof -
  have "drop_bit 14 (entry_addr root i) = drop_bit 14 root" if "i < entries True []" for i
    using root_entry(3) [of root True i] assms that
    by (simp add: entry_addr_def layout_defs aligned_add_drop_bit [of 14])
  then show ?thesis by (auto simp: pages_of_def root_pages_def drop_14_page split: if_splits)
qed

text \<open>Building a kernel table keeps every table that exists.\<close>

lemma init_vmem_other:
  assumes q: "kmalloc s = Inr (root, s1)"
    and m: "pt_mapped dynamic False root s1 [root \<mapsto> []] (F - {root}) s' own' F'"
    and st: "pt_state dynamic x4 root2 s own2 F"
  shows "pt_state dynamic x4 root2 s' own2 F'"
    "translation (load64 (mem s')) x4 2 root2 va = translation (load64 (mem s)) x4 2 root2 va"
proof -
  note al = pt_state_alloc [OF st q]
  have "take_bit 12 root = 0" using free_set_ram al(2) st by (auto simp: pt_state_def)
  then have "pages_of False [root \<mapsto> []] \<inter> pages_of x4 own2 = {}"
    using pages_of_kernel_root pages_of_free [OF st] al(2) by blast
  note o = pt_mapped_other [OF m al(1) pages_disjoint [OF this]]
  show "pt_state dynamic x4 root2 s' own2 F'" by (rule o(1))
  show "translation (load64 (mem s')) x4 2 root2 va = translation (load64 (mem s)) x4 2 root2 va"
    using o(2) al(3) by simp
qed

lemma regions_mapped_cong:
  "(\<And>va. translation ld' x4 2 root va = translation ld x4 2 root va) \<Longrightarrow>
     regions_mapped x4 root rs ld' \<longleftrightarrow> regions_mapped x4 root rs ld"
  by (simp add: regions_mapped_def)

section \<open>The configured machines\<close>

text \<open>
  What the configuration of \<^verbatim>\<open>src/src/guest/vm_config.c\<close> needs of the linker: an image that fits into
  the guest's 16 MiB, and a root table of four aligned pages in the kernel image.
\<close>

definition vm_placed :: "vm_config \<Rightarrow> bool" where
  "vm_placed vm \<longleftrightarrow>
     memory_base vm = 0x80100000 \<and> memory_size vm = 0x1000000 \<and> image_size vm \<le> 0x1000000 \<and>
     image_base vm \<noteq> 0 \<and> VAS_KERNEL \<le> vm_pgtable vm \<and> vm_pgtable vm < VAS_KERNEL + DTB_MEMORY_SIZE \<and>
     take_bit 14 (vm_pgtable vm) = 0 \<and>
     map device_row (device_list (devices vm)) = [(0x10000000, 0x1000), (0xc000000, 0x600000), (0x10001000, 0x1000)] \<and>
     (\<forall>d \<in> set (device_list (devices vm)). phys_base d \<noteq> 0) \<and> None \<in> set (devices vm)"

lemma None_device_array: "length ds < 10 \<Longrightarrow> None \<in> set (device_array ds)"
  by (simp add: device_array_def MAX_DEVS_def)

lemma vm_placed_configured:
  assumes "vm \<in> set (config_table x xe y ye p0 p1)" "image_size vm \<le> 0x1000000" "image_base vm \<noteq> 0"
    "\<forall>p \<in> {p0, p1}. VAS_KERNEL \<le> p \<and> p < VAS_KERNEL + DTB_MEMORY_SIZE \<and> take_bit 14 p = 0"
  shows "vm_placed vm"
  using assms
  by (auto simp: vm_placed_def config_table_def device_list_array device_row_def serial_def emulated_plic_def
      virtio_disk_1_def virtio_disk_2_def pci_serial_def layout_defs None_device_array)

lemma guest_placed:
  assumes "vm_placed vm"
  shows "placed True {0, 2} [] (guest_rows vm)" "pages (memory_size vm - image_size vm) \<le> 4096"
proof -
  let ?i = "image_size vm" and ?n = "unat (image_size vm) div 4096"
  have c: "memory_base vm = 0x80100000" "memory_size vm = 0x1000000" "unat ?i \<le> 0x1000000"
    "map device_row (device_list (devices vm)) = [(0x10000000, 0x1000), (0xc000000, 0x600000), (0x10001000, 0x1000)]"
    using assms by (simp_all add: vm_placed_def word_le_nat_alt)
  have al: "take_bit 12 ?i = 0" by (simp add: image_size_def)
  then have mod: "unat ?i mod 4096 = 0" unfolding aligned_unat_mod .
  have n: "?n \<le> 4096" using div_le_mono [OF c(3), of 4096] by simp
  have num: "pages 0x1000 = 1" "pages 0x600000 = 0x600" "vpn True 0x10000000 = 0x10000"
    "vpn True 0xc000000 = 0xc000" "vpn True 0x10001000 = 0x10001" "vpn True 0x80100000 = 0x80100"
    by (simp_all add: pages_eq vpn_def vpn_count_def)
  have pi: "pages ?i = ?n" unfolding pages_def PGROUNDUP_id [OF al] ..
  have "unat (0x1000000 - ?i) = 0x1000000 - unat ?i" using c(3) unat_sub [of ?i "0x1000000"] by (simp add: word_le_nat_alt)
  then have "pages (0x1000000 - ?i) = (0x1000000 - unat ?i + 4095) div 4096" by (subst pages_eq) simp_all
  also have "\<dots> = 4096 - ?n"
  proof -
    obtain m where m: "unat ?i = 4096 * m" using mod by (auto simp: mod_eq_0_iff_dvd elim!: dvdE)
    then have "(0x1000000 - unat ?i + 4095) = 4096 * (4096 - m) + 4095" using c(3) by simp
    then show ?thesis using m by simp
  qed
  finally have pr: "pages (0x1000000 - ?i) = 4096 - ?n" .
  have vi: "vpn True (0x80100000 + ?i) = 0x80100 + ?n"
    using vpn_add [OF al, of True "0x80100000"] n by (simp add: num vpn_count_def)
  show "placed True {0, 2} [] (guest_rows vm)"
    using n by (simp add: guest_rows_def c place_def fits_def num pi pr vi vpn_count_def)
  show "pages (memory_size vm - image_size vm) \<le> 4096" using n by (simp add: c pr)
qed

lemma guest_root_away:
  assumes "vm_placed vm" "F \<subseteq> {p. VAS_RAM \<le> p}"
  shows "root_pages (vm_pgtable vm) \<inter> F = {}" "root_ok (vm_pgtable vm) F"
proof -
  let ?r = "vm_pgtable vm"
  have r: "VAS_KERNEL \<le> ?r" "?r < VAS_KERNEL + DTB_MEMORY_SIZE" "take_bit 14 ?r = 0" using assms(1) by (simp_all add: vm_placed_def)
  have dr: "unat (drop_bit 14 w) = unat w div 16384" for w :: uint64
    by (simp only: unat_drop_bit_eq drop_bit_eq_div [of _ "unat w"]) simp
  show away: "root_pages ?r \<inter> F = {}"
  proof (rule ccontr)
    assume "root_pages ?r \<inter> F \<noteq> {}"
    then obtain p where p: "drop_bit 14 p = drop_bit 14 ?r" "VAS_RAM \<le> p" using assms(2) by (auto simp: root_pages_def)
    then have "unat p div 16384 = unat ?r div 16384" by (metis dr)
    moreover have "0xffffffe000000000 div 16384 \<le> unat p div 16384"
      by (rule div_le_mono) (use p(2) in \<open>simp add: layout_defs word_le_nat_alt\<close>)
    moreover have "unat ?r div 16384 \<le> 0xffffffc010000000 div 16384"
      by (rule div_le_mono) (use r(2) in \<open>simp add: layout_defs word_less_nat_alt\<close>)
    ultimately show False by simp
  qed
  have nz: "?r \<noteq> 0" using r(1) by (auto simp: layout_defs)
  have "PGROUNDDOWN (entry_addr ?r i) \<in> root_pages ?r" if "i < 2048" for i
    using pages_of_guest_root [OF nz r(3)] pages_ofI [of "[?r \<mapsto> []]" ?r "[]" i True] that by (auto simp: entries_def)
  with away nz r(3) show "root_ok ?r F" by (auto simp: root_ok_def)
qed

section \<open>The system starts\<close>

text \<open>Building a guest's table, with its regions, and what happens to another table.\<close>

lemma guest_built:
  assumes lk: "linker_ok dynamic" and fs: "free_set dynamic s F" and vm: "vm_placed vm"
    and enough: "5122 + k \<le> card F"
  obtains s' F' own' g where "init_hs_pgtable vm s = Inr s'" "free_set dynamic s' F'" "k \<le> card F'"
    "pt_state dynamic True (vm_pgtable vm) s' own' F'"
    "regions_mapped True (vm_pgtable vm) (guest_regions vm g) (load64 (mem s'))"
    "pages_of True own' \<subseteq> root_pages (vm_pgtable vm) \<union> F" "F' \<subseteq> F"
    "fresh_backing (page_offsets 0 (memory_size vm - image_size vm)) F F' own' g"
proof -
  have ram: "F \<subseteq> {p. VAS_RAM \<le> p}" using free_set_ram [OF lk fs] by blast
  have ok: "vm_ok vm F" using guest_root_away(2) [OF vm ram] vm by (simp add: vm_ok_def vm_placed_def)
  have c: "513 * card {0 :: nat, 2} + (k + pages (memory_size vm - image_size vm)) \<le> card F"
    using guest_placed(2) [OF vm] enough by simp
  have none: "None \<in> set (devices vm)" using vm by (simp add: vm_placed_def)
  obtain s' F1 where r: "init_hs_pgtable vm s = Inr s'" "free_set dynamic s' F1" "k \<le> card F1"
    using init_hs_pgtable_total [OF lk fs ok _ guest_placed(1) [OF vm] none c] by auto
  obtain own' F' g m where m: "memset (mem s) (vm_pgtable vm) 0 (uint PAGE_SIZE * 4) = Inr m"
    "pt_mapped dynamic True (vm_pgtable vm) (s\<lparr>mem := m\<rparr>) [vm_pgtable vm \<mapsto> []] F s' own' F'"
    "regions_mapped True (vm_pgtable vm) (guest_regions vm g) (load64 (mem s'))"
    "fresh_backing (page_offsets 0 (memory_size vm - image_size vm)) F F' own' g"
    by (rule init_hs_pgtable_map [OF lk fs ok r(1) refl])
  have st: "pt_state dynamic True (vm_pgtable vm) s' own' F'" "F' \<subseteq> F" using m(2) by (simp_all add: pt_mapped_def)
  then have "free_set dynamic s' F'" by (simp add: pt_state_def)
  then have F: "F' = F1" using r(2) by (rule free_set_unique)
  have "pages_of True own' \<subseteq> root_pages (vm_pgtable vm) \<union> F"
    using pages_of_mapped [OF m(2)] pages_of_guest_root [of "vm_pgtable vm"] vm ok
    by (auto simp: vm_ok_def root_ok_def)
  with r m st F that show thesis by blast
qed

lemma guest_keeps:
  assumes lk: "linker_ok dynamic" and fs: "free_set dynamic s F" and vm: "vm_placed vm"
    and run: "init_hs_pgtable vm s = Inr s'" and fs': "free_set dynamic s' F'"
    and st: "pt_state dynamic x4 root2 s own2 F" and d: "root_pages (vm_pgtable vm) \<inter> pages_of x4 own2 = {}"
  shows "pt_state dynamic x4 root2 s' own2 F'"
    "regions_mapped x4 root2 rs (load64 (mem s')) \<longleftrightarrow> regions_mapped x4 root2 rs (load64 (mem s))"
proof -
  have ram: "F \<subseteq> {p. VAS_RAM \<le> p}" using free_set_ram [OF lk fs] by blast
  have ok: "vm_ok vm F" using guest_root_away(2) [OF vm ram] vm by (simp add: vm_ok_def vm_placed_def)
  have "pages_of True [vm_pgtable vm \<mapsto> []] \<inter> pages_of x4 own2 = {}"
    using pages_of_guest_root [of "vm_pgtable vm"] d ok by (auto simp: vm_ok_def root_ok_def)
  note o = init_hs_pgtable_other [OF lk fs ok run st pages_disjoint [OF this]]
  from o(2) obtain F1 where F1: "pt_state dynamic x4 root2 s' own2 F1" by blast
  then have "free_set dynamic s' F1" by (simp add: pt_state_def)
  then have "F1 = F'" using fs' by (rule free_set_unique)
  with F1 show "pt_state dynamic x4 root2 s' own2 F'" by simp
  show "regions_mapped x4 root2 rs (load64 (mem s')) \<longleftrightarrow> regions_mapped x4 root2 rs (load64 (mem s))"
    by (rule regions_mapped_cong) (rule o(1))
qed

lemma kernel_built:
  assumes L: "linker_layout L" and tp: "unat tp < DTB_NR_CPUS" and fs: "free_set (dynamic_start L) s F"
    and enough: "2053 + k \<le> card F"
  obtains root s1 s' own' F' where "init_vmem L 0 tp s = Inr (root, s')" "kmalloc s = Inr (root, s1)"
    "pt_mapped (dynamic_start L) False root s1 [root \<mapsto> []] (F - {root}) s' own' F'"
    "pt_state (dynamic_start L) False root s' own' F'" "free_set (dynamic_start L) s' F'" "k \<le> card F'"
    "regions_mapped False root (kernel_regions L 0 tp) (load64 (mem s'))" "pages_of False own' \<subseteq> F" "F' \<subseteq> F"
proof -
  obtain root s1 s' own' F' where r: "init_vmem L 0 tp s = Inr (root, s')" "kmalloc s = Inr (root, s1)"
    "pt_mapped (dynamic_start L) False root s1 [root \<mapsto> []] (F - {root}) s' own' F'"
    "regions_mapped False root (kernel_regions L 0 tp) (load64 (mem s'))" "k \<le> card F'"
    using init_vmem_ok [OF L tp fs enough] by blast
  have "root \<in> F" "take_bit 12 root = 0" using ka.alloc_free [OF fs r(2)] by simp_all
  then have "pages_of False own' \<subseteq> F" using pages_of_mapped [OF r(3)] pages_of_kernel_root [of root] by blast
  moreover have "pt_state (dynamic_start L) False root s' own' F'" "F' \<subseteq> F" using r(3) by (auto simp: pt_mapped_def)
  ultimately show thesis using that r by (auto simp: pt_state_def)
qed

text \<open>
  The four tables of the configured system, built one after the other: the kernel tables of both
  harts and the tables of both machines. All four constructions succeed, all four tables map
  exactly their regions at the end, and no page of RAM given to one machine is given to the other
  or holds a table of the kernel.
\<close>

definition tables_built ::
  "linker \<Rightarrow> vm_config \<Rightarrow> vm_config \<Rightarrow> kmem_state \<Rightarrow> kmem_state \<Rightarrow> bool" where
  "tables_built L vm0 vm1 s s4 \<longleftrightarrow>
     (\<exists>r0 r1 s1 s2 s3 own0 own1 F g0 g1.
        init_vmem L 0 0 s = Inr (r0, s1) \<and> init_vmem L 0 1 s1 = Inr (r1, s2) \<and>
        init_hs_pgtable vm0 s2 = Inr s3 \<and> init_hs_pgtable vm1 s3 = Inr s4 \<and>
        pt_state (dynamic_start L) False r0 s4 own0 F \<and> pt_state (dynamic_start L) False r1 s4 own1 F \<and>
        regions_mapped False r0 (kernel_regions L 0 0) (load64 (mem s4)) \<and>
        regions_mapped False r1 (kernel_regions L 0 1) (load64 (mem s4)) \<and>
        regions_mapped True (vm_pgtable vm0) (guest_regions vm0 g0) (load64 (mem s4)) \<and>
        regions_mapped True (vm_pgtable vm1) (guest_regions vm1 g1) (load64 (mem s4)) \<and>
        (let J0 = page_offsets 0 (memory_size vm0 - image_size vm0);
             J1 = page_offsets 0 (memory_size vm1 - image_size vm1)
         in inj_on g0 J0 \<and> inj_on g1 J1 \<and> g0 ` J0 \<inter> g1 ` J1 = {} \<and>
            (g0 ` J0 \<union> g1 ` J1) \<inter> (pages_of False own0 \<union> pages_of False own1) = {}))"

text \<open>
  Several tables at once: each given by its format, root, pages and regions. Building one more table
  keeps the others.
\<close>

type_synonym table = "bool \<times> uint64 \<times> (uint64 \<rightharpoonup> uint64 list) \<times> region list"

definition tables :: "uint64 \<Rightarrow> table list \<Rightarrow> kmem_state \<Rightarrow> uint64 set \<Rightarrow> bool" where
  "tables dynamic ts s F \<longleftrightarrow> free_set dynamic s F \<and>
     (\<forall>(x4, root, own, rs) \<in> set ts. pt_state dynamic x4 root s own F \<and> regions_mapped x4 root rs (load64 (mem s)))"

lemma kernel_added:
  assumes L: "linker_layout L" and tp: "unat tp < DTB_NR_CPUS" and ts: "tables (dynamic_start L) ts s F"
    and enough: "2053 + k \<le> card F"
  obtains root own' s' F' where "init_vmem L 0 tp s = Inr (root, s')" "F' \<subseteq> F" "k \<le> card F'"
    "pages_of False own' \<subseteq> F"
    "tables (dynamic_start L) ((False, root, own', kernel_regions L 0 tp) # ts) s' F'"
proof -
  have fs: "free_set (dynamic_start L) s F" using ts by (simp add: tables_def)
  obtain root s1 s' own' F' where r: "init_vmem L 0 tp s = Inr (root, s')" "kmalloc s = Inr (root, s1)"
    "pt_mapped (dynamic_start L) False root s1 [root \<mapsto> []] (F - {root}) s' own' F'"
    "pt_state (dynamic_start L) False root s' own' F'" "free_set (dynamic_start L) s' F'" "k \<le> card F'"
    "regions_mapped False root (kernel_regions L 0 tp) (load64 (mem s'))" "pages_of False own' \<subseteq> F" "F' \<subseteq> F"
    by (rule kernel_built [OF L tp fs enough])
  have "pt_state (dynamic_start L) x4 root2 s' own2 F' \<and> regions_mapped x4 root2 rs (load64 (mem s'))"
    if "(x4, root2, own2, rs) \<in> set ts" for x4 root2 own2 rs
  proof -
    have st: "pt_state (dynamic_start L) x4 root2 s own2 F" "regions_mapped x4 root2 rs (load64 (mem s))"
      using ts that by (auto simp: tables_def)
    with init_vmem_other [OF r(2,3) st(1)] regions_mapped_cong show ?thesis by blast
  qed
  then have "tables (dynamic_start L) ((False, root, own', kernel_regions L 0 tp) # ts) s' F'"
    using r(4,5,7) by (auto simp: tables_def)
  with that r show thesis by blast
qed

lemma guest_added:
  assumes lk: "linker_ok dynamic" and ts: "tables dynamic ts s F" and vm: "vm_placed vm" and enough: "5122 + k \<le> card F"
    and away: "\<forall>(x4, root, own, rs) \<in> set ts. root_pages (vm_pgtable vm) \<inter> pages_of x4 own = {}"
  obtains s' F' own' g where "init_hs_pgtable vm s = Inr s'" "F' \<subseteq> F" "k \<le> card F'"
    "pages_of True own' \<subseteq> root_pages (vm_pgtable vm) \<union> F"
    "fresh_backing (page_offsets 0 (memory_size vm - image_size vm)) F F' own' g"
    "tables dynamic ((True, vm_pgtable vm, own', guest_regions vm g) # ts) s' F'"
proof -
  have fs: "free_set dynamic s F" using ts by (simp add: tables_def)
  obtain s' F' own' g where r: "init_hs_pgtable vm s = Inr s'" "free_set dynamic s' F'" "k \<le> card F'"
    "pt_state dynamic True (vm_pgtable vm) s' own' F'"
    "regions_mapped True (vm_pgtable vm) (guest_regions vm g) (load64 (mem s'))"
    "pages_of True own' \<subseteq> root_pages (vm_pgtable vm) \<union> F" "F' \<subseteq> F"
    "fresh_backing (page_offsets 0 (memory_size vm - image_size vm)) F F' own' g"
    by (rule guest_built [OF lk fs vm enough])
  have "pt_state dynamic x4 root2 s' own2 F' \<and> regions_mapped x4 root2 rs (load64 (mem s'))"
    if t: "(x4, root2, own2, rs) \<in> set ts" for x4 root2 own2 rs
  proof -
    have st: "pt_state dynamic x4 root2 s own2 F" "regions_mapped x4 root2 rs (load64 (mem s))"
      using ts t by (auto simp: tables_def)
    moreover have "root_pages (vm_pgtable vm) \<inter> pages_of x4 own2 = {}" using away t by auto
    ultimately show ?thesis using guest_keeps [OF lk fs vm r(1,2)] by blast
  qed
  then have "tables dynamic ((True, vm_pgtable vm, own', guest_regions vm g) # ts) s' F'"
    using r(2,4,5) by (auto simp: tables_def)
  with that r show thesis by blast
qed

lemma root_pages_apart:
  assumes "vm_placed vm" "vm_placed vm'" "vm_pgtable vm \<noteq> vm_pgtable vm'"
  shows "root_pages (vm_pgtable vm) \<inter> root_pages (vm_pgtable vm') = {}"
proof -
  have "take_bit 14 (vm_pgtable vm) = 0" "take_bit 14 (vm_pgtable vm') = 0" using assms by (simp_all add: vm_placed_def)
  then have "drop_bit 14 (vm_pgtable vm) \<noteq> drop_bit 14 (vm_pgtable vm')"
    using bits_split [of 14 "vm_pgtable vm"] bits_split [of 14 "vm_pgtable vm'"] assms(3) by auto
  then show ?thesis by (auto simp: root_pages_def)
qed

lemma system_tables:
  assumes L: "linker_layout L" and small: "koff (dynamic_start L) \<le> 0xC000000"
    and fs: "free_set (dynamic_start L) s {p. valid_address (dynamic_start L) p}"
    and vm: "vm_placed vm0" "vm_placed vm1" "vm_pgtable vm0 \<noteq> vm_pgtable vm1"
  shows "\<exists>s4. tables_built L vm0 vm1 s s4"
proof -
  let ?dyn = "dynamic_start L" and ?F0 = "{p. valid_address (dynamic_start L) p}"
  let ?J0 = "page_offsets 0 (memory_size vm0 - image_size vm0)" and ?J1 = "page_offsets 0 (memory_size vm1 - image_size vm1)"
  have lk: "linker_ok ?dyn" using L by (simp add: linker_layout_def)
  have "koff ?dyn div 4096 \<le> 0xC000" using div_le_mono [OF small, of 4096] by simp
  then have c0: "2053 + (2053 + (5122 + (5122 + 0))) \<le> card ?F0" using free_pages [OF L] by simp
  have t: "unat (0 :: uint64) < DTB_NR_CPUS" "unat (1 :: uint64) < DTB_NR_CPUS" by (simp_all add: layout_defs)
  have "?F0 \<subseteq> {p. VAS_RAM \<le> p}" using free_set_ram [OF lk fs] by blast
  note away = guest_root_away(1) [OF vm(1) this] guest_root_away(1) [OF vm(2) this] root_pages_apart [OF vm]
  have t0: "tables ?dyn [] s ?F0" using fs by (simp add: tables_def)
  obtain r0 own0 s1 F1 where k0: "init_vmem L 0 0 s = Inr (r0, s1)" "F1 \<subseteq> ?F0"
    "2053 + (5122 + (5122 + 0)) \<le> card F1" "pages_of False own0 \<subseteq> ?F0"
    "tables ?dyn [(False, r0, own0, kernel_regions L 0 0)] s1 F1"
    by (rule kernel_added [OF L t(1) t0 c0])
  obtain r1 own1 s2 F2 where k1: "init_vmem L 0 1 s1 = Inr (r1, s2)" "F2 \<subseteq> F1"
    "5122 + (5122 + 0) \<le> card F2" "pages_of False own1 \<subseteq> F1"
    "tables ?dyn [(False, r1, own1, kernel_regions L 0 1), (False, r0, own0, kernel_regions L 0 0)] s2 F2"
    by (rule kernel_added [OF L t(2) k0(5,3)])
  let ?ts = "[(False, r1, own1, kernel_regions L 0 1), (False, r0, own0, kernel_regions L 0 0)]"
  have "\<forall>(x4, root, own, rs) \<in> set ?ts. root_pages (vm_pgtable vm0) \<inter> pages_of x4 own = {}"
    using away(1) k0(2,4) k1(4) by auto
  then obtain s3 F3 own2 g0 where v0: "init_hs_pgtable vm0 s2 = Inr s3" "F3 \<subseteq> F2" "5122 + 0 \<le> card F3"
    "pages_of True own2 \<subseteq> root_pages (vm_pgtable vm0) \<union> F2" "fresh_backing ?J0 F2 F3 own2 g0"
    "tables ?dyn ((True, vm_pgtable vm0, own2, guest_regions vm0 g0) # ?ts) s3 F3"
    by (rule guest_added [OF lk k1(5) vm(1) k1(3)])
  have "\<forall>(x4, root, own, rs) \<in> set ((True, vm_pgtable vm0, own2, guest_regions vm0 g0) # ?ts).
      root_pages (vm_pgtable vm1) \<inter> pages_of x4 own = {}"
    using away(2,3) k0(2,4) k1(2,4) v0(4) by simp blast
  then obtain s4 F4 own3 g1 where v1: "init_hs_pgtable vm1 s3 = Inr s4" "F4 \<subseteq> F3" "0 \<le> card F4"
    "pages_of True own3 \<subseteq> root_pages (vm_pgtable vm1) \<union> F3" "fresh_backing ?J1 F3 F4 own3 g1"
    "tables ?dyn ((True, vm_pgtable vm1, own3, guest_regions vm1 g1) #
       (True, vm_pgtable vm0, own2, guest_regions vm0 g0) # ?ts) s4 F4"
    by (rule guest_added [OF lk v0(6) vm(2) v0(3)])
  have tab: "pages_of False own0 \<inter> F2 = {}" "pages_of False own1 \<inter> F2 = {}"
    by (rule pages_of_free [of ?dyn False r0 s2], use k1(5) in \<open>simp add: tables_def\<close>,
        rule pages_of_free [of ?dyn False r1 s2], use k1(5) in \<open>simp add: tables_def\<close>)
  have fresh: "inj_on g0 ?J0" "inj_on g1 ?J1" "g0 ` ?J0 \<subseteq> F2 - F3" "g1 ` ?J1 \<subseteq> F3"
    using v0(5) v1(5) by (auto simp: fresh_backing_def)
  have apart: "g0 ` ?J0 \<inter> g1 ` ?J1 = {}" "(g0 ` ?J0 \<union> g1 ` ?J1) \<inter> (pages_of False own0 \<union> pages_of False own1) = {}"
    using fresh(3,4) tab v0(2) by blast+
  have st: "pt_state ?dyn False r0 s4 own0 F4" "pt_state ?dyn False r1 s4 own1 F4"
    and maps: "regions_mapped False r0 (kernel_regions L 0 0) (load64 (mem s4))"
    "regions_mapped False r1 (kernel_regions L 0 1) (load64 (mem s4))"
    "regions_mapped True (vm_pgtable vm0) (guest_regions vm0 g0) (load64 (mem s4))"
    "regions_mapped True (vm_pgtable vm1) (guest_regions vm1 g1) (load64 (mem s4))"
    using v1(6) by (simp_all add: tables_def)
  have "tables_built L vm0 vm1 s s4"
    unfolding tables_built_def Let_def
    by (rule exI [of _ r0], rule exI [of _ r1], rule exI [of _ s1], rule exI [of _ s2], rule exI [of _ s3],
        rule exI [of _ own0], rule exI [of _ own1], rule exI [of _ F4], rule exI [of _ g0], rule exI [of _ g1])
       (intro conjI k0(1) k1(1) v0(1) v1(1) st maps fresh(1,2) apart)
  then show ?thesis by blast
qed

section \<open>Faults on the emulated controller\<close>

text \<open>
  With the table that was built for its machine, a guest's access to the controller's window faults
  (the window has no permissions) at the physical address of the same register.
\<close>

lemma plic_fault_address:
  assumes st: "pt_state dynamic True (vm_pgtable vm) (kmem s) own F"
    and rm: "regions_mapped True (vm_pgtable vm) (guest_regions vm g) (load64 (mem (kmem s)))"
    and dev: "emulated_plic \<in> set (device_list (devices vm))"
    and ht: "push_bit 2 (htval (csr s)) = DTB_PLIC + x" "x < DTB_PLIC_SIZE"
  shows "get_pa (vm_pgtable vm) s = Inr (DTB_PLIC + x)"
proof -
  let ?fl = "int_of_u64 (0 OR PTE_U)"
  have "(DTB_PLIC, ?fl, page_offsets 0 DTB_PLIC_SIZE, \<lambda>j. DTB_PLIC + j) \<in> set (guest_regions vm g)"
    using dev by (force simp: guest_regions_def device_region_def emulated_plic_def)
  moreover have "take_bit 12 DTB_PLIC = 0" "x < PGROUNDUP DTB_PLIC_SIZE"
    using ht(2) by (simp_all add: layout_defs PGROUNDUP_def)
  moreover have "u64_of_int ?fl < 1024" by (subst small_flags) (simp_all add: layout_defs)
  ultimately have "convert_va_to_pa (vm_pgtable vm) (DTB_PLIC + x) True (kmem s) = Inr (DTB_PLIC + x)"
    by (intro region_convert [OF st rm])
  then show ?thesis by (simp add: get_pa_def ht(1))
qed

section \<open>Booting hart 0\<close>

lemma main_boot_ok:
  assumes hw: "uart_hw udev view delay" and L: "linker_layout L"
    and b: "freelist (bkmem b) = 0" "locked (kmem_lk (bkmem b)) = 0" "locked (printf_lk b) = 0" "locked (uart_lk b) = 0"
  shows "\<exists>b'. main_boot L udev bus 0 b = Inr b' \<and>
    free_set (dynamic_start L) (bkmem b') {p. valid_address (dynamic_start L) p} \<and>
    ns_sent (view (uart_d b')) = ns_sent (view (uart_d b)) @ map of_char (''Booting!'' @ [CHR 0x0A]) \<and>
    pci_d b' = init_pci bus (pci_d b) \<and> cpu_mapped b' = cpu_mapped b"
proof -
  let ?t = "''Booting!'' @ [CHR 0x0A]"
  have lk: "linker_ok (dynamic_start L)" using L by (simp add: linker_layout_def)
  have fs: "free_set (dynamic_start L) (init_kmem (dynamic_start L) (bkmem b)) {p. valid_address (dynamic_start L) p}"
    using init_kmem_ok [OF lk b(1,2)] by (auto simp: free_set_def)
  let ?d = "init_uart udev (uart_d b)"
  have u: "ns_lcr (view ?d) = 3" "ns_sent (view ?d) = ns_sent (view (uart_d b))"
    using init_uart_view [OF hw, of "uart_d b"] by (simp_all add: Let_def)
  have "\<not> dlab (view ?d)" by (simp add: dlab_def u(1) bit_iff_odd)
  then obtain d' where d': "uart_puts udev ?t (uart_lk b, ?d) = Inr (uart_lk b, d')"
    "ns_sent (view d') = ns_sent (view ?d) @ map of_char ?t"
    using uart_puts_sends [OF hw b(4), of ?d ?t] by blast
  have "printf (printf_lk b) (Some ?t) [] = Inr (?t, printf_lk b)" by (rule printf_plain) (simp_all add: b(3))
  with d' fs u show ?thesis by (simp add: main_boot_def Let_def)
qed

end
