(* ===== verification/Main_Phases.thy ===== *)
theory Main_Phases
  imports Rounds Startup
begin

text \<open>
  The function \<^verbatim>\<open>main\<close> of \<^verbatim>\<open>src/src/core/main.c\<close> on all harts at the same time: its phases, defined
  in \<open>Startup\<close>, separated by three calls of \<^verbatim>\<open>wait_barrier\<close> on one barrier, whose steps are those of
  \<open>Barrier\<close>. A phase is one step; the accesses to the allocator within the set-up phases of several
  harts are interleaved in \<open>Kmem_Parallel\<close>.

  The lemmas show that in every interleaving of the two configured harts no phase fails and a hart that
  gets to \<^verbatim>\<open>vm_run\<close> finds every hart on its own finished page table.
\<close>

section \<open>The phases of all harts\<close>

definition main_act ::
  "linker \<Rightarrow> 'u byte_dev \<Rightarrow> 'p pci_bus \<Rightarrow> uint64 \<Rightarrow> ((nat \<Rightarrow> hart) \<times> ('u, 'p) board) action" where
  "main_act L udev bus vec p h = (\<lambda>(hs, b).
     if p = 0 then bindE (main_boot L udev bus (of_nat h) b) (\<lambda>b. Inr (hs, b))
     else if p = 1 then bindE (main_setup L vec (of_nat h) (hs h, b)) (\<lambda>(x, b). Inr (hs(h := x), b))
     else if p = 2 then Inr (hs, main_mapped (of_nat h) b)
     else Inr (hs, b))"

text \<open>A hart that has returned from the third barrier is in \<^verbatim>\<open>vm_run\<close>.\<close>

definition at_vm_run :: "'b phase_state \<Rightarrow> nat \<Rightarrow> bool" where
  "at_vm_run s h \<longleftrightarrow> wpc (bars s) h = Returned \<and> calls s h = 3"

lemma main_boot_mapped: "main_boot L udev bus hartid b = Inr b' \<Longrightarrow> cpu_mapped b' = cpu_mapped b"
  by (auto simp: main_boot_def Let_def split: if_splits)

lemma main_act_mapped:
  assumes "main_act L udev bus vec p h (hs, b) = Inr (hs', b')" "h < 2 ^ 64"
  shows "cpu_mapped b' = (if p = 2 \<and> h = 0 then 1 else cpu_mapped b)"
proof -
  have "(of_nat h :: uint64) = 0 \<longleftrightarrow> h = 0"
    using assms(2) by (simp add: word_of_nat_eq_0_iff nat_dvd_not_less dvd_imp_le linorder_not_less) (auto dest: dvd_imp_le)
  with assms(1) show ?thesis
    by (auto simp: main_act_def main_setup_def main_mapped_def dest: main_boot_mapped split: if_splits)
qed

lemma run_acts_mapped:
  assumes "run_acts (main_act L udev bus vec) tr (hs, b) = Inr (hs', b')" "\<forall>(p, h) \<in> set tr. h < 2 ^ 64"
  shows "cpu_mapped b' = (if (2, 0) \<in> set tr then 1 else cpu_mapped b)"
  using assms
proof (induction tr arbitrary: hs b)
  case (Cons x tr)
  obtain p h where x: "x = (p, h)" by (cases x)
  then obtain hs1 b1 where s: "main_act L udev bus vec p h (hs, b) = Inr (hs1, b1)"
    "run_acts (main_act L udev bus vec) tr (hs1, b1) = Inr (hs', b')" using Cons.prems(1) by auto
  have "cpu_mapped b1 = (if p = 2 \<and> h = 0 then 1 else cpu_mapped b)"
    using main_act_mapped [OF s(1)] Cons.prems(2) x by simp
  with Cons.IH [OF s(2)] Cons.prems(2) x show ?case by auto
qed simp

section \<open>Starting both harts\<close>

text \<open>
  The initial values of the global variables: an empty free list, open locks, no hart structure mapped.
  \<open>e\<close> counts the phases of each hart. Before hart 0 has booted nothing has changed. Afterwards the
  harts that have executed their set-up run on tables that map the kernel, and enough pages
  are free for the others.
\<close>

definition fresh_board :: "('u, 'p) board \<Rightarrow> bool" where
  "fresh_board b \<longleftrightarrow> freelist (bkmem b) = 0 \<and> locked (kmem_lk (bkmem b)) = 0 \<and>
     locked (printf_lk b) = 0 \<and> locked (uart_lk b) = 0 \<and> cpu_mapped b = 0"

definition set_up :: "linker \<Rightarrow> (nat \<Rightarrow> nat) \<Rightarrow> (nat \<Rightarrow> hart) \<Rightarrow> kmem_state \<Rightarrow> table list \<Rightarrow> uint64 set \<Rightarrow> bool" where
  "set_up L e hs k ts F \<longleftrightarrow> tables (dynamic_start L) ts k F \<and> 2053 * card {h. h < 2 \<and> e h < 2} \<le> card F \<and>
     (\<forall>h < 2. 2 \<le> e h \<longrightarrow> (\<exists>root own. (False, root, own, kernel_regions L 0 (of_nat h)) \<in> set ts \<and>
        satp (hcsr (hs h)) = drop_bit 12 (KPA2PA root) OR ATP_MODE_SV39))"

definition start_inv ::
  "linker \<Rightarrow> ('u, 'p) board \<Rightarrow> (nat \<Rightarrow> nat) \<Rightarrow> (nat \<Rightarrow> hart) \<times> ('u, 'p) board \<Rightarrow> bool" where
  "start_inv L b0 e = (\<lambda>(hs, b).
     if e 0 = 0 then b = b0
     else cpu_mapped b = (if 3 \<le> e 0 then 1 else 0) \<and> (\<exists>ts F. set_up L e hs (bkmem b) ts F))"

lemma start_invI:
  "e 0 \<noteq> 0 \<Longrightarrow> cpu_mapped b = (if 3 \<le> e 0 then 1 else 0) \<Longrightarrow> set_up L e hs (bkmem b) ts F \<Longrightarrow> start_inv L b0 e (hs, b)"
  unfolding start_inv_def by (simp only: prod.case if_False) blast

lemma start_invE:
  assumes "start_inv L b0 e (hs, b)" "e 0 \<noteq> 0"
  obtains ts F where "cpu_mapped b = (if 3 \<le> e 0 then 1 else 0)" "set_up L e hs (bkmem b) ts F"
  using assms unfolding start_inv_def by (simp only: prod.case if_False) blast

lemma set_up_cong:
  assumes "set_up L e hs k ts F" "\<And>h. h < 2 \<Longrightarrow> e' h < 2 \<longleftrightarrow> e h < 2"
  shows "set_up L e' hs k ts F"
proof -
  have "{h. h < 2 \<and> e' h < 2} = {h. h < 2 \<and> e h < 2}" using assms(2) by auto
  moreover have "2 \<le> e' h \<longleftrightarrow> 2 \<le> e h" if "h < 2" for h using assms(2) [OF that] by linarith
  ultimately show ?thesis using assms(1) by (simp add: set_up_def)
qed

lemma few_harts: "h < (2 :: nat) \<Longrightarrow> h = 0 \<or> h = 1"
  by linarith

lemma start_boot:
  assumes hw: "uart_hw udev view delay" and L: "linker_layout L" "koff (dynamic_start L) \<le> 0xC000000"
    and fresh: "fresh_board b0"
    and e: "\<And>k. k < 2 \<Longrightarrow> e k \<le> 1" "e h = 0" "h < 2" and i: "start_inv L b0 e (hs, b)"
  shows "\<exists>x. main_act L udev bus vec 0 h (hs, b) = Inr x \<and> start_inv L b0 (e(h := 1)) x"
proof (cases "h = 0")
  case True
  have b: "freelist (bkmem b0) = 0" "locked (kmem_lk (bkmem b0)) = 0" "locked (printf_lk b0) = 0"
    "locked (uart_lk b0) = 0" "cpu_mapped b0 = 0" using fresh by (simp_all add: fresh_board_def)
  have b': "b = b0" using i e(2) True by (simp add: start_inv_def)
  obtain b1 where b1: "main_boot L udev bus 0 b0 = Inr b1"
    "free_set (dynamic_start L) (bkmem b1) {p. valid_address (dynamic_start L) p}" "cpu_mapped b1 = 0"
    using main_boot_ok [OF hw L(1) b(1-4)] b(5) by metis
  have "koff (dynamic_start L) div 4096 \<le> 0xC000" using div_le_mono [OF L(2), of 4096] by simp
  then have "2053 * 2 \<le> card {p. valid_address (dynamic_start L) p}" using free_pages [OF L(1)] by simp
  moreover have "card {k. k < 2 \<and> (e(h := 1)) k < 2} \<le> card {..<2 :: nat}" by (rule card_mono) auto
  ultimately have "2053 * card {k. k < 2 \<and> (e(h := 1)) k < 2} \<le> card {p. valid_address (dynamic_start L) p}" by simp
  moreover have "\<not> 2 \<le> (e(h := 1)) k" if "k < 2" for k using e(1) [OF that] by simp
  ultimately have "set_up L (e(h := 1)) hs (bkmem b1) [] {p. valid_address (dynamic_start L) p}"
    using b1(2) by (auto simp: set_up_def tables_def)
  then have "start_inv L b0 (e(h := 1)) (hs, b1)" using True b1(3) by (intro start_invI) simp_all
  with b1(1) True show ?thesis by (simp add: main_act_def b')
next
  case False
  with e(3) have "h = 1" by linarith
  then have "main_act L udev bus vec 0 h (hs, b) = Inr (hs, b)" by (simp add: main_act_def main_boot_def)
  moreover have "start_inv L b0 (e(h := 1)) (hs, b)"
  proof (cases "e 0 = 0")
    case True
    with i False show ?thesis by (simp add: start_inv_def)
  next
    case nz: False
    obtain ts F where i': "cpu_mapped b = (if 3 \<le> e 0 then 1 else 0)" "set_up L e hs (bkmem b) ts F"
      by (rule start_invE [OF i nz])
    have "set_up L (e(h := 1)) hs (bkmem b) ts F" by (rule set_up_cong [OF i'(2)]) (use e(2) in auto)
    with i'(1) nz False show ?thesis by (intro start_invI) simp_all
  qed
  ultimately show ?thesis by blast
qed

lemma start_setup:
  assumes L: "linker_layout L" and e: "\<And>k. k < 2 \<Longrightarrow> 1 \<le> e k \<and> e k \<le> 2" "e h = 1" "h < 2"
    and i: "start_inv L b0 e (hs, b)"
  shows "\<exists>x. main_act L udev bus vec 1 h (hs, b) = Inr x \<and> start_inv L b0 (e(h := 2)) x"
proof -
  let ?e = "e(h := 2)"
  have e0: "1 \<le> e 0" "e 0 \<le> 2" using e(1) [of 0] by simp_all
  obtain ts F where ts: "tables (dynamic_start L) ts (bkmem b) F" "2053 * card {k. k < 2 \<and> e k < 2} \<le> card F"
    "\<And>k. k < 2 \<Longrightarrow> 2 \<le> e k \<Longrightarrow> \<exists>root own. (False, root, own, kernel_regions L 0 (of_nat k)) \<in> set ts \<and>
        satp (hcsr (hs k)) = drop_bit 12 (KPA2PA root) OR ATP_MODE_SV39" and m: "cpu_mapped b = 0"
    by (rule start_invE [OF i]) (use e0 in \<open>auto simp: set_up_def\<close>)
  have "{k. k < 2 \<and> e k < 2} = insert h {k. k < 2 \<and> ?e k < 2}" using e(2,3) by auto
  then have "card {k. k < 2 \<and> e k < 2} = Suc (card {k. k < 2 \<and> ?e k < 2})" by simp
  then have enough: "2053 + 2053 * card {k. k < 2 \<and> ?e k < 2} \<le> card F" using ts(2) by simp
  have tp: "unat (of_nat h :: uint64) < DTB_NR_CPUS" using few_harts [OF e(3)] by (auto simp: layout_defs)
  obtain root own k F' where k: "init_vmem L 0 (of_nat h) (bkmem b) = Inr (root, k)" "F' \<subseteq> F"
    "2053 * card {k. k < 2 \<and> ?e k < 2} \<le> card F'" "pages_of False own \<subseteq> F"
    "tables (dynamic_start L) ((False, root, own, kernel_regions L 0 (of_nat h)) # ts) k F'"
    by (rule kernel_added [OF L tp ts(1) enough])
  let ?hs = "hs(h := init_hart L 0 (of_nat h) vec root (hs h))"
  have "set_up L ?e ?hs k ((False, root, own, kernel_regions L 0 (of_nat h)) # ts) F'"
    unfolding set_up_def
  proof (intro conjI allI impI k(3,5))
    fix j assume "j < (2 :: nat)" "2 \<le> ?e j"
    then show "\<exists>root' own'. (False, root', own', kernel_regions L 0 (of_nat j))
        \<in> set ((False, root, own, kernel_regions L 0 (of_nat h)) # ts) \<and>
        satp (hcsr (?hs j)) = drop_bit 12 (KPA2PA root') OR ATP_MODE_SV39"
      using ts(3) [of j] init_hart_registers(1) [of "?hs h"] by (cases "j = h") auto
  qed
  then have "start_inv L b0 ?e (?hs, b\<lparr>bkmem := k\<rparr>)" using e0 m by (intro start_invI) simp_all
  moreover have "main_act L udev bus vec 1 h (hs, b) = Inr (?hs, b\<lparr>bkmem := k\<rparr>)"
    by (simp add: main_act_def main_setup_def m k(1))
  ultimately show ?thesis by blast
qed

lemma start_mapped:
  assumes e: "\<And>k. k < 2 \<Longrightarrow> 2 \<le> e k" "e h = 2" "h < 2" and i: "start_inv L b0 e (hs, b)"
  shows "\<exists>x. main_act L udev bus vec 2 h (hs, b) = Inr x \<and> start_inv L b0 (e(h := 3)) x"
proof -
  have e0: "2 \<le> e 0" using e(1) by simp
  obtain ts F where i': "cpu_mapped b = (if 3 \<le> e 0 then 1 else 0)" "set_up L e hs (bkmem b) ts F"
    by (rule start_invE [OF i]) (use e0 in simp)
  have "set_up L (e(h := 3)) hs (bkmem b) ts F" by (rule set_up_cong [OF i'(2)]) (use e(2) in auto)
  then have "start_inv L b0 (e(h := 3)) (hs, main_mapped (of_nat h) b)"
    using i'(1) few_harts [OF e(3)] e0 by (intro start_invI) (auto simp: main_mapped_def)
  then show ?thesis by (simp add: main_act_def)
qed

lemma start_next:
  assumes hw: "uart_hw udev view delay" and L: "linker_layout L" "koff (dynamic_start L) \<le> 0xC000000"
    and fresh: "fresh_board b0" and i: "start_inv L b0 e (hs, b)"
    and e: "\<forall>k < 2. p \<le> e k \<and> e k \<le> Suc p" "e h = p" "h < 2" and p: "p < 3"
  shows "\<exists>hs' b'. main_act L udev bus vec p h (hs, b) = Inr (hs', b') \<and> start_inv L b0 (e(h := Suc p)) (hs', b')"
proof -
  have "\<exists>x. main_act L udev bus vec p h (hs, b) = Inr x \<and> start_inv L b0 (e(h := Suc p)) x"
  proof -
    from p consider "p = 0" | "p = 1" | "p = 2" by linarith
    then show ?thesis
    proof cases
      case 1
      with e start_boot [OF hw L fresh _ _ e(3) i] show ?thesis by simp
    next
      case 2
      with e start_setup [OF L(1) _ _ e(3) i] show ?thesis by (simp add: numeral_2_eq_2)
    next
      case 3
      with e start_mapped [OF _ _ e(3) i] show ?thesis by simp
    qed
  qed
  then show ?thesis by (metis surj_pair)
qed

lemma start_reach:
  assumes hw: "uart_hw udev view delay" and L: "linker_layout L" "koff (dynamic_start L) \<le> 0xC000000"
    and fresh: "fresh_board b0" and s: "pa.reach 2 (hs, b0) (main_act L udev bus vec) 3 s"
  shows "start_inv L b0 (executed s) (shared s) \<and> (\<forall>h. \<not> stopped s h)"
  using s
proof (rule pa.reach_invariant)
  fix s s' let ?act = "main_act L udev bus vec"
  assume reach: "pa.reach 2 (hs, b0) ?act 3 s" and i: "start_inv L b0 (executed s) (shared s) \<and> (\<forall>h. \<not> stopped s h)"
    and "all_steps 2 ?act 3 s s'"
  then obtain h where h: "h < 2" "s' = phase_step ?act 3 h s" by (auto simp: all_steps_def)
  have ok: "\<exists>x. ?act (calls s h) h (shared s) = Inr x \<and> start_inv L b0 ((executed s)(h := Suc (calls s h))) x"
    if p: "wpc (bars s) h = Returned" "calls s h < 3"
  proof -
    have "\<not> blocked 2 (bars s)" using p(1) h(1) by (auto simp: blocked_def)
    then obtain r where "in_round 2 r s" using pair_ordered [OF reach] by blast
    note e = in_round_executed [OF this]
    have "start_inv L b0 (executed s) (fst (shared s), snd (shared s))" using i by simp
    from start_next [OF hw L fresh this, of "calls s h" h] e h(1) p show ?thesis by (fastforce simp: executed_def)
  qed
  have "stopped s' = stopped s"
    using ok i unfolding h(2) phase_step_def Let_def by (auto split: sum.splits)
  moreover have "start_inv L b0 (executed s') (shared s')"
  proof (cases rule: phase_step_cases [of ?act 3 h s])
    case idle
    then have "executed s' = executed s" "shared s' = shared s" by (auto simp: h(2) executed_def fun_eq_iff)
    with i show ?thesis by simp
  next
    case (enter b)
    have "executed s' = (executed s)(h := Suc (calls s h))" "shared s' = b"
      unfolding h(2) enter(3) by (auto simp: executed_def fun_eq_iff)
    with ok [OF enter(1,4)] enter(2) show ?thesis by simp
  next
    case call
    have "executed s' = executed s" "shared s' = shared s"
      unfolding h(2) using call_executed [OF call(1)] by (simp_all add: call(2) fun_eq_iff)
    with i show ?thesis by simp
  qed
  ultimately show "start_inv L b0 (executed s') (shared s') \<and> (\<forall>h. \<not> stopped s' h)" using i by simp
qed (simp add: phase_init_def phase_start_def start_inv_def executed_def)

lemma started_harts:
  assumes hw: "uart_hw udev view delay" and L: "linker_layout L" "koff (dynamic_start L) \<le> 0xC000000"
    and fresh: "fresh_board b0" and s: "pa.reach 2 (hs, b0) (main_act L udev bus vec) 3 s"
    and h: "h < 2" "at_vm_run s h" and k: "k < 2"
  obtains root own F hs' b where "shared s = (hs', b)" "cpu_mapped b = 1"
    "satp (hcsr (hs' k)) = drop_bit 12 (KPA2PA root) OR ATP_MODE_SV39"
    "pt_state (dynamic_start L) False root (bkmem b) own F"
    "regions_mapped False root (kernel_regions L 0 (of_nat k)) (load64 (mem (bkmem b)))"
proof -
  obtain hs' b where sh: "shared s = (hs', b)" by (cases "shared s")
  have e: "3 \<le> executed s j" if "j < 2" for j
    using phases_ordered(2) [OF _ h(1) _ that] s h(2) unfolding at_vm_run_def by (metis (no_types, lifting))
  have "start_inv L b0 (executed s) (hs', b)" using start_reach [OF hw L fresh s] sh by simp
  then obtain ts F where i: "cpu_mapped b = 1" "set_up L (executed s) hs' (bkmem b) ts F"
    by (rule start_invE) (use e [of 0] in auto)
  have "2 \<le> executed s k" using e [OF k] by simp
  with i(2) k obtain root own where r: "(False, root, own, kernel_regions L 0 (of_nat k)) \<in> set ts"
    "satp (hcsr (hs' k)) = drop_bit 12 (KPA2PA root) OR ATP_MODE_SV39" "tables (dynamic_start L) ts (bkmem b) F"
    unfolding set_up_def by blast
  then have "pt_state (dynamic_start L) False root (bkmem b) own F"
    "regions_mapped False root (kernel_regions L 0 (of_nat k)) (load64 (mem (bkmem b)))"
    by (auto simp: tables_def)
  with that sh i(1) r(2) show thesis by blast
qed

text \<open>The phases succeed one after the other, so an interleaving without races starts both harts.\<close>

lemma main_runs:
  assumes hw: "uart_hw udev view delay" and L: "linker_layout L" "koff (dynamic_start L) \<le> 0xC000000"
    and fresh: "fresh_board b0"
  shows "\<exists>x. run_acts (main_act L udev bus vec) [(0, 0), (0, 1), (1, 0), (1, 1), (2, 0), (2, 1)] (hs, b0) = Inr x"
proof -
  let ?act = "main_act L udev bus vec" and ?z = "\<lambda>_ :: nat. 0 :: nat"
  note step = start_next [OF hw L fresh, where bus = bus and vec = vec]
  have 0: "start_inv L b0 ?z (hs, b0)" by (simp add: start_inv_def)
  obtain hs1 b1 where 1: "?act 0 0 (hs, b0) = Inr (hs1, b1)" "start_inv L b0 (?z(0 := Suc 0)) (hs1, b1)"
    using step [OF 0, of 0 0] by auto
  obtain hs2 b2 where 2: "?act 0 1 (hs1, b1) = Inr (hs2, b2)" "start_inv L b0 (?z(0 := Suc 0, 1 := Suc 0)) (hs2, b2)"
    using step [OF 1(2), of 0 1] by (auto simp: less_2_cases_iff)
  obtain hs3 b3 where 3: "?act 1 0 (hs2, b2) = Inr (hs3, b3)"
    "start_inv L b0 (?z(0 := Suc 0, 1 := Suc 0, 0 := Suc 1)) (hs3, b3)"
    using step [OF 2(2), of 1 0] by (auto simp: less_2_cases_iff)
  obtain hs4 b4 where 4: "?act 1 1 (hs3, b3) = Inr (hs4, b4)"
    "start_inv L b0 (?z(0 := Suc 0, 1 := Suc 0, 0 := Suc 1, 1 := Suc 1)) (hs4, b4)"
    using step [OF 3(2), of 1 1] by (auto simp: less_2_cases_iff)
  obtain hs5 b5 where 5: "?act 2 0 (hs4, b4) = Inr (hs5, b5)"
    "start_inv L b0 (?z(0 := Suc 0, 1 := Suc 0, 0 := Suc 1, 1 := Suc 1, 0 := Suc 2)) (hs5, b5)"
    using step [OF 4(2), of 2 0] by (auto simp: less_2_cases_iff)
  obtain hs6 b6 where 6: "?act 2 1 (hs5, b5) = Inr (hs6, b6)"
    using step [OF 5(2), of 2 1] by (auto simp: less_2_cases_iff)
  show ?thesis using 1(1) 2(1) 3(1) 4(1) 5(1) 6 by simp
qed

end
