(* ===== verification/Keygrab.thy ===== *)
theory Keygrab
  imports Vplic Uart
begin

text \<open>
  The guest \<^verbatim>\<open>keygrab\<close>, which echoes characters of a serial line: its drivers
  \<^verbatim>\<open>src/src/guest/keygrab/driver/plic.c\<close> and \<^verbatim>\<open>src/src/guest/keygrab/driver/uart.c\<close>, and the entry code
  and trap handler of \<^verbatim>\<open>src/src/guest/keygrab/core/main.S\<close>. Inside a virtual machine the interrupt controller
  of the guest is the emulated one: \<open>virt_plic\<close> is the device a guest sees, made of the
  hypervisor's handlers.

  The lemmas compose both sides: what the guest's driver does to its controller is what the
  physical controller does for the interrupt of the machine, and an interrupt that the hypervisor
  injects is claimed by the guest, completed at the physical controller and withdrawn.
\<close>

section \<open>The interrupt controller driver\<close>

definition guest_plic_set_priority :: "'d mmio \<Rightarrow> int \<Rightarrow> uint32 \<Rightarrow> 'd \<Rightarrow> 'd" where
  "guest_plic_set_priority dev interrupt_source priority d =
     (if interrupt_source < 1 \<or> 1023 < interrupt_source then d
      else mmio_write dev d (plic_addr interrupt_source) priority)"

text \<open>The update of the enable word is a read and a write.\<close>

definition guest_plic_set_enabled :: "'d mmio \<Rightarrow> int \<Rightarrow> int \<Rightarrow> int \<Rightarrow> 'd \<Rightarrow> 'd" where
  "guest_plic_set_enabled dev context interrupt_source enable d =
     (if interrupt_source < 1 \<or> 1023 < interrupt_source then d
      else let source_offset = interrupt_source div 32;
               source_mask = push_bit (nat (interrupt_source mod 32)) 1
           in if context < 0 \<or> 15871 < context then d
              else let context_offset = 1024 div 32;
                       offset = 0x2000 div 4 + context_offset * context + source_offset;
                       (v, d) = mmio_read dev d (plic_addr offset)
                   in mmio_write dev d (plic_addr offset)
                        (if enable = 0 then v AND NOT source_mask else v OR source_mask))"

definition guest_plic_set_threshold :: "'d mmio \<Rightarrow> int \<Rightarrow> uint32 \<Rightarrow> 'd \<Rightarrow> 'd" where
  "guest_plic_set_threshold dev context threshold d =
     (if context < 0 \<or> 15871 < context then d
      else mmio_write dev d (plic_addr (0x200000 div 4 + 0x1000 div 4 * context)) threshold)"

definition guest_plic_claim :: "'d mmio \<Rightarrow> int \<Rightarrow> 'd \<Rightarrow> uint32 \<times> 'd" where
  "guest_plic_claim dev context d =
     (if context < 0 \<or> 15871 < context then (0, d)
      else mmio_read dev d (plic_addr (0x200004 div 4 + 0x1000 div 4 * context)))"

definition guest_plic_complete :: "'d mmio \<Rightarrow> int \<Rightarrow> uint32 \<Rightarrow> 'd \<Rightarrow> 'd" where
  "guest_plic_complete dev context interrupt_id d =
     (if context < 0 \<or> 15871 < context then d
      else mmio_write dev d (plic_addr (0x200004 div 4 + 0x1000 div 4 * context)) interrupt_id)"

section \<open>The serial port driver\<close>

text \<open>The guest's own \<^verbatim>\<open>DTB_SERIAL\<close>; the register numbers are those of the hypervisor's driver.\<close>

definition GUEST_DTB_SERIAL :: uint64 where
  "GUEST_DTB_SERIAL = 2 * 0x10000000"

definition guest_R_REG :: "'d byte_dev \<Rightarrow> uint64 \<Rightarrow> 'd \<Rightarrow> uint8 \<times> 'd" where
  "guest_R_REG dev reg d = byte_read dev d (GUEST_DTB_SERIAL + reg)"

definition guest_W_REG :: "'d byte_dev \<Rightarrow> uint64 \<Rightarrow> uint8 \<Rightarrow> 'd \<Rightarrow> 'd" where
  "guest_W_REG dev reg val d = byte_write dev d (GUEST_DTB_SERIAL + reg) val"

partial_function (option) guest_wait_thr_empty :: "'d byte_dev \<Rightarrow> 'd \<Rightarrow> 'd option" where
  "guest_wait_thr_empty dev d =
     (case guest_R_REG dev LSR d of
        (v, d') \<Rightarrow> if v AND LSR_THR_EMPTY = 0 then guest_wait_thr_empty dev d' else Some d')"

definition guest_uartputc :: "'d byte_dev \<Rightarrow> uint8 \<Rightarrow> 'd \<Rightarrow> 'd outcome" where
  "guest_uartputc dev c d =
     (case guest_wait_thr_empty dev d of
        None \<Rightarrow> Inl Spin_forever
      | Some d \<Rightarrow> Inr (guest_W_REG dev THR c d))"

definition guest_init_uart :: "'d byte_dev \<Rightarrow> 'd \<Rightarrow> 'd" where
  "guest_init_uart dev d =
     (let d = guest_W_REG dev IER 0 d;
          d = guest_W_REG dev LCR LCR_DLAB d;
          d = guest_W_REG dev DLL DLL_38400 d;
          d = guest_W_REG dev DLM DLM_38400 d;
          d = guest_W_REG dev LCR LCR_EIGHT_BITS d;
          d = guest_W_REG dev FCR (FCR_ENABLE_FIFO OR FCR_CLEAR_RECEIVE_FIFO OR FCR_CLEAR_TRANSMIT_FIFO) d;
          d = guest_W_REG dev MCR 0 d
      in guest_W_REG dev IER IER_RECEIVED_DATA_AVAILABLE d)"

section \<open>Entry and trap handler\<close>

text \<open>The registers of a hart as a guest sees them, as far as the guests set them.\<close>

record guest_hart =
  g_tp :: uint64
  g_sp :: uint64
  g_stvec :: uint64
  g_sstatus :: uint64
  g_sie :: uint64

definition DTB_SERIAL_IRQ_NUM :: int where
  "DTB_SERIAL_IRQ_NUM = 11"

text \<open>
  The entry \<^verbatim>\<open>_start\<close> up to the loop \<^verbatim>\<open>suspend\<close>: registers, serial port and the letter D, then the
  interrupt of the serial port at the controller, for the context of the hart whose number is in
  \<^verbatim>\<open>a0\<close>. The context is passed as an \<^verbatim>\<open>int\<close>.
\<close>

definition keygrab_start ::
  "'p mmio \<Rightarrow> 'u byte_dev \<Rightarrow> uint64 \<Rightarrow> uint64 \<Rightarrow> guest_hart \<times> 'p \<times> 'u \<Rightarrow>
     (guest_hart \<times> 'p \<times> 'u) outcome" where
  "keygrab_start pdev udev trap_vec a0 = (\<lambda>(g, p, u).
     let g = g\<lparr>g_tp := a0, g_stvec := trap_vec, g_sp := 0x80100ff8\<rparr>;
         g = g\<lparr>g_sstatus := CSRS (g_sstatus g) (push_bit 1 1)\<rparr>;
         g = g\<lparr>g_sie := CSRS (g_sie g) (push_bit 9 1)\<rparr>;
         u = guest_init_uart udev u
     in bindE (guest_uartputc udev 0x44 u) (\<lambda>u.
          let p = guest_plic_set_priority pdev DTB_SERIAL_IRQ_NUM 1 p;
              context = int_of_u64 (push_bit 1 (g_tp g) + 1);
              p = guest_plic_set_enabled pdev context DTB_SERIAL_IRQ_NUM 1 p;
              p = guest_plic_set_threshold pdev context 0 p
          in Inr (g, p, u)))"

text \<open>
  The handler \<^verbatim>\<open>trap\<close> on hart \<open>tp\<close>, as its sequence of calls: claim, echo the received character,
  complete, and start a new line.
\<close>

definition keygrab_trap ::
  "'p mmio \<Rightarrow> 'u byte_dev \<Rightarrow> int \<Rightarrow> 'p \<times> 'u \<Rightarrow> ('p \<times> 'u) outcome" where
  "keygrab_trap pdev udev tp = (\<lambda>(p, u).
     let (claimed, p) = guest_plic_claim pdev (2 * tp + 1) p in
     if claimed = 0 then Inr (p, u)
     else let (c, u) = byte_read udev u GUEST_DTB_SERIAL in
          bindE (guest_uartputc udev c u) (\<lambda>u.
            let p = guest_plic_complete pdev (2 * tp + 1) claimed p in
            bindE (guest_uartputc udev 10 u) (\<lambda>u. Inr (p, u))))"

section \<open>The guest's view of the emulated controller\<close>

text \<open>
  The device a guest on a hart sees: the registers of the emulated controller, without the effect
  of the access on the guest's own registers and program counter.
\<close>

definition virt_plic :: "'d mmio \<Rightarrow> uint64 \<Rightarrow> 'd hv mmio" where
  "virt_plic dev hartid =
     \<lparr>mmio_read = (\<lambda>s a.
        let vcpu = vcpus s ! unat hartid in
        case load_value dev vcpu (devices (config s ! conf vcpu)) (a - DTB_PLIC)
               (2 * vhartid vcpu + 1) (2 * hartid + 1) (plic s) of
          Inl _ \<Rightarrow> (0, s) | Inr (val, d) \<Rightarrow> (val, s\<lparr>plic := d\<rparr>)),
      mmio_write = (\<lambda>s a val.
        let vcpu = vcpus s ! unat hartid in
        case store_effect dev (unat hartid) (a - DTB_PLIC) (2 * vhartid vcpu + 1) (2 * hartid + 1) val s of
          Inl _ \<Rightarrow> s | Inr s \<Rightarrow> s)\<rparr>"

text \<open>An emulated instruction accesses this device, and otherwise only steps over itself.\<close>

lemma emulate_load_virt:
  assumes "emulate_load dev hartid i s = Inr s'" "mmio_read (virt_plic dev hartid) s (addr i) = (val, s1)"
  shows "s' = s1\<lparr>vcpus := (vcpus s1)[unat hartid := (vcpus s1 ! unat hartid)\<lparr>regs :=
        write_rd i val (regs (vcpus s1 ! unat hartid))\<rparr>],
      csr := (csr s1)\<lparr>sepc := next_pc i (sepc (csr s1))\<rparr>\<rparr>"
  using assms
  by (auto simp: emulate_load_def virt_plic_def get_vcpu_def Let_def split: if_splits sum.splits)

lemma emulate_store_virt:
  assumes "emulate_store dev hartid i s = Inr s'"
    and "s1 = mmio_write (virt_plic dev hartid) s (addr i) (ucast (regs (vcpus s ! unat hartid) ! unat (rs2 i)))"
  shows "s' = s1\<lparr>csr := (csr s1)\<lparr>sepc := next_pc i (sepc (csr s1))\<rparr>\<rparr>"
  using assms
  by (auto simp: emulate_store_def virt_plic_def get_vcpu_def Let_def split: if_splits sum.splits)

lemma guest_enable_addr:
  assumes "vctx < 15872" "0 \<le> x" "x < 1024"
  shows "plic_addr (0x2000 div 4 + 1024 div 32 * uint vctx + x div 32) - DTB_PLIC =
    virt_enable_offset vctx (word_of_int (x div 32))"
proof -
  have "word_of_int (2048 + 32 * uint vctx + x div 32) = (2048 + 32 * vctx + word_of_int (x div 32) :: uint64)"
    by (simp only: of_int_add of_int_mult of_int_numeral word_of_int_uint)
  then show ?thesis by (simp add: plic_addr_def virt_enable_offset_def)
qed

text \<open>
  Enabling a virtual interrupt through the guest's driver enables or disables the physical
  interrupt it stands for, in the physical context of the hart, and nothing else.
\<close>

lemma enable_bits:
  fixes w :: uint32
  shows "bit (if e = (0 :: int) then w AND NOT (push_bit k 1) else w OR push_bit k 1) n \<longleftrightarrow>
    n < 32 \<and> (if n = k then e \<noteq> 0 else bit w n)"
  using bit_imp_le_length [of w n] by (auto simp: bit_simps)

lemma same_mod: "nat (y mod 32) = nat (x mod 32) \<longleftrightarrow> y = x" if "y div 32 = x div 32" for x y :: int
proof -
  have "y = 32 * (x div 32) + y mod 32" "x = 32 * (x div 32) + x mod 32"
    using mult_div_mod_eq [of 32 y] mult_div_mod_eq [of 32 x] that by simp_all
  moreover have "nat (y mod 32) = nat (x mod 32) \<longleftrightarrow> y mod 32 = x mod 32" by (simp add: eq_nat_nat_iff)
  ultimately show ?thesis by linarith
qed

lemma guest_set_enabled_effect:
  assumes hw: "enable_regs_hw dev peek impl" and ok: "irqs_ok (devs_of hartid s)"
    and im: "\<And>p. p \<in> own_irqs (devs_of hartid s) \<Longrightarrow> good (pctx_of hartid) p \<Longrightarrow> implemented impl (pctx_of hartid) p"
    and c: "\<not> bad_context (pctx_of hartid)" "vctx_of hartid s < 15872" and x: "\<not> bad_source x"
    and g': "good c' x'"
  shows "enabled dev c' x' (plic (guest_plic_set_enabled (virt_plic dev hartid) (uint (vctx_of hartid s)) x e s)) \<longleftrightarrow>
    (if c' = pctx_of hartid \<and> x' = virt_to_phys_irq (devs_of hartid s) x then e \<noteq> 0 else enabled dev c' x' (plic s))"
proof -
  let ?vc = "vctx_of hartid s" and ?pc = "2 * hartid + 1" and ?devs = "devs_of hartid s"
  define g :: uint64 where "g = word_of_int (x div 32)"
  have xr: "0 \<le> x" "x < 1024" using x by (auto simp: bad_source_def)
  have ug: "uint g = x div 32" using xr by (simp add: g_def unsigned_of_int take_bit_int_eq_self)
  have g: "g < 32" using xr ug by (simp add: word_less_def)
  have vc: "?vc < 0x3fc0" using c(2) by (simp add: word_less_nat_alt)
  have uvc: "uint ?vc \<le> 15871" "0 \<le> uint ?vc" using c(2) by (simp_all add: word_less_def)
  note off = virt_enable_offset [OF g vc]
  from handle_enable_regs_load_effect [OF hw g vc, of ?devs ?pc "plic s"] obtain w where
    w: "handle_enable_regs_load dev ?devs (virt_enable_offset ?vc g) ?vc ?pc (plic s) = (w, plic s)"
    "\<And>i. bit w i \<longleftrightarrow> i < 32 \<and> enabled dev (pctx_of hartid) (virt_to_phys_irq ?devs (uint g * 32 + int i)) (plic s)"
    by (auto simp: pctx_of_def)
  have addr: "plic_addr (0x2000 div 4 + 1024 div 32 * uint ?vc + x div 32) - DTB_PLIC = virt_enable_offset ?vc g"
    unfolding g_def by (rule guest_enable_addr [OF c(2) xr])
  define a where "a = plic_addr (0x2000 div 4 + 1024 div 32 * uint ?vc + x div 32)"
  define val where "val = (if e = 0 then w AND NOT (push_bit (nat (x mod 32)) 1) else w OR push_bit (nat (x mod 32)) 1)"
  have rd: "mmio_read (virt_plic dev hartid) s a = (w, s)"
    using w(1) off addr by (simp add: virt_plic_def load_value_def Let_def a_def vctx_of_def devs_of_def)
  have wr: "plic (mmio_write (virt_plic dev hartid) s a val) =
      handle_enable_regs_store dev ?devs (virt_enable_offset ?vc g) val ?vc ?pc (plic s)"
    using off addr by (simp add: virt_plic_def store_effect_def Let_def a_def vctx_of_def devs_of_def)
  have "guest_plic_set_enabled (virt_plic dev hartid) (uint ?vc) x e s = mmio_write (virt_plic dev hartid) s a val"
    using x uvc rd by (simp add: guest_plic_set_enabled_def bad_source_def a_def [symmetric] val_def Let_def
        a_def [simplified, symmetric])
  then have "enabled dev c' x' (plic (guest_plic_set_enabled (virt_plic dev hartid) (uint ?vc) x e s)) \<longleftrightarrow>
      (if c' = pctx_of hartid \<and> x' \<in> own_irqs ?devs \<and> phys_to_virt_irq ?devs x' div 32 = uint g
       then bit val (nat (phys_to_virt_irq ?devs x' mod 32)) else enabled dev c' x' (plic s))"
    using handle_enable_regs_store_effect [OF hw ok im [unfolded pctx_of_def] c(1) [unfolded pctx_of_def] g' g vc, of val "plic s"] wr
    by (simp add: pctx_of_def)
  also have "\<dots> \<longleftrightarrow> (if c' = pctx_of hartid \<and> x' = virt_to_phys_irq ?devs x then e \<noteq> 0 else enabled dev c' x' (plic s))"
  proof -
    note tr = irq_translation_devs [OF ok]
    have hit: "x' = virt_to_phys_irq ?devs x \<longleftrightarrow> x' \<in> own_irqs ?devs \<and> phys_to_virt_irq ?devs x' = x"
      using irq_translation.to_phys_eq_iff [OF tr, of x' x] g' irq_translation.to_phys_range [OF tr, of x]
      by (auto simp: good_def bad_source_def)
    let ?y = "phys_to_virt_irq ?devs x'"
    have "bit val (nat (?y mod 32)) \<longleftrightarrow> (if ?y = x then e \<noteq> 0 else enabled dev c' x' (plic s))"
      if y: "c' = pctx_of hartid" "x' \<in> own_irqs ?devs" "?y div 32 = uint g"
    proof -
      have "nat (?y mod 32) = nat (x mod 32) \<longleftrightarrow> ?y = x"
        by (rule same_mod) (simp add: y(3) ug)
      moreover have "uint g * 32 + int (nat (?y mod 32)) = ?y" using y(3) div_mult_mod_eq [of ?y 32] by simp
      moreover have "virt_to_phys_irq ?devs ?y = x'" by (rule irq_translation.phys_virt [OF tr y(2)])
      ultimately show ?thesis unfolding val_def enable_bits using y(1) w(2) [of "nat (?y mod 32)"] by auto
    qed
    with hit ug show ?thesis by auto
  qed
  finally show ?thesis .
qed

section \<open>Delivering an interrupt\<close>

lemma guest_claim_addr:
  "plic_addr (0x200004 div 4 + 0x1000 div 4 * uint vctx) - DTB_PLIC = virt_claim_offset vctx"
proof -
  have "word_of_int (0x80001 + 0x400 * uint vctx) = (0x80001 + 0x400 * vctx :: uint64)"
    by (simp only: of_int_add of_int_mult of_int_numeral word_of_int_uint)
  then show ?thesis by (simp add: plic_addr_def virt_claim_offset_def)
qed

lemma guest_claims:
  assumes "vctx_of hartid s < 15872"
  shows "guest_plic_claim (virt_plic dev hartid) (uint (vctx_of hartid s)) s =
    (word_of_int (phys_to_virt_irq (devs_of hartid s) (sint (last_claimed_irq_id (vcpus s ! unat hartid)))), s)"
proof -
  have "uint (vctx_of hartid s) \<le> 15871" "0 \<le> uint (vctx_of hartid s)" using assms by (simp_all add: word_less_def)
  then have "guest_plic_claim (virt_plic dev hartid) (uint (vctx_of hartid s)) s =
      mmio_read (virt_plic dev hartid) s (plic_addr (0x200004 div 4 + 0x1000 div 4 * uint (vctx_of hartid s)))"
    by (simp add: guest_plic_claim_def)
  also have "\<dots> = (word_of_int (phys_to_virt_irq (devs_of hartid s) (sint (last_claimed_irq_id (vcpus s ! unat hartid)))), s)"
    using claim_load [OF assms, of dev "vcpus s ! unat hartid" "devs_of hartid s" "2 * hartid + 1" "plic s"]
    by (simp only: virt_plic_def mmio.simps Let_def guest_claim_addr)
      (simp add: vctx_of_def devs_of_def)
  finally show ?thesis .
qed

lemma guest_completes:
  assumes "vctx_of hartid s < 15872"
  shows "guest_plic_complete (virt_plic dev hartid) (uint (vctx_of hartid s)) val s =
    (let v = unat hartid; vc = vcpus s ! v in
     if word_of_int (virt_to_phys_irq (devs_of hartid s) (sint val)) = last_claimed_irq_id vc
     then s\<lparr>vcpus := (vcpus s)[v := vc\<lparr>last_claimed_irq_id := 0\<rparr>],
            plic := plic_complete dev (pctx_of hartid) (last_claimed_irq_id vc) (plic s),
            csr := (csr s)\<lparr>hvip := CSRC (hvip (csr s)) HVIP_VSEIP\<rparr>\<rparr>
     else s)"
proof -
  have "uint (vctx_of hartid s) \<le> 15871" "0 \<le> uint (vctx_of hartid s)" using assms by (simp_all add: word_less_def)
  then have "guest_plic_complete (virt_plic dev hartid) (uint (vctx_of hartid s)) val s =
      mmio_write (virt_plic dev hartid) s (plic_addr (0x200004 div 4 + 0x1000 div 4 * uint (vctx_of hartid s))) val"
    by (simp add: guest_plic_complete_def)
  then show ?thesis
    using complete_store [OF assms refl refl, of dev "unat hartid" "2 * hartid + 1" val]
    by (simp only: virt_plic_def mmio.simps Let_def guest_claim_addr)
      (simp add: vctx_of_def devs_of_def pctx_of_def)
qed

text \<open>The guest's port behaves like the hypervisor's, at another address.\<close>

definition guest_port :: "'d byte_dev \<Rightarrow> 'd byte_dev" where
  "guest_port dev =
     \<lparr>byte_read = (\<lambda>d a. byte_read dev d (a - DTB_SERIAL + GUEST_DTB_SERIAL)),
      byte_write = (\<lambda>d a. byte_write dev d (a - DTB_SERIAL + GUEST_DTB_SERIAL))\<rparr>"

lemma guest_reg_port:
  "guest_R_REG dev = R_REG (guest_port dev)" "guest_W_REG dev = W_REG (guest_port dev)"
  by (intro ext, simp add: guest_R_REG_def R_REG_def REG_def guest_W_REG_def W_REG_def guest_port_def add.commute)+

lemma guest_init_uart_port: "guest_init_uart dev = init_uart (guest_port dev)"
  by (intro ext) (simp add: guest_init_uart_def init_uart_def guest_reg_port)

lemma guest_wait_ends:
  assumes hw: "uart_hw (guest_port dev) view delay"
  shows "\<exists>d'. guest_wait_thr_empty dev d = Some d' \<and> view d' = (view d)\<lparr>ns_busy := 0\<rparr>"
proof (induction "ns_busy (view d)" arbitrary: d)
  case 0
  obtain v d' where r: "R_REG (guest_port dev) LSR d = (v, d')" by fastforce
  have "v AND LSR_THR_EMPTY \<noteq> 0"
    using uart_hw_lsr(1) [OF hw r] 0 by (simp add: thr_empty_bit)
  with r uart_hw_lsr(2) [OF hw r] 0 show ?case by (subst guest_wait_thr_empty.simps) (simp add: guest_reg_port)
next
  case (Suc n)
  obtain v d' where r: "R_REG (guest_port dev) LSR d = (v, d')" by fastforce
  have "v AND LSR_THR_EMPTY = 0"
    using uart_hw_lsr(1) [OF hw r] Suc.hyps(2) by (simp add: thr_empty_bit)
  moreover have "n = ns_busy (view d')" using uart_hw_lsr(2) [OF hw r] Suc.hyps(2) by simp
  ultimately show ?case using r uart_hw_lsr(2) [OF hw r] Suc.hyps(1) [of d']
    by (subst guest_wait_thr_empty.simps) (auto simp: guest_reg_port)
qed

lemma guest_uartputc_sends:
  assumes hw: "uart_hw (guest_port dev) view delay" and "\<not> dlab (view d)"
  shows "\<exists>d'. guest_uartputc dev c d = Inr d' \<and> ns_sent (view d') = ns_sent (view d) @ [c] \<and>
    ns_lcr (view d') = ns_lcr (view d)"
proof -
  obtain d1 where d1: "guest_wait_thr_empty dev d = Some d1" "view d1 = (view d)\<lparr>ns_busy := 0\<rparr>"
    using guest_wait_ends [OF hw] by blast
  moreover have "view (W_REG (guest_port dev) THR c d1) = ns_write THR c (delay d1) (view d1)"
    by (rule uart_hw_write [OF hw]) (simp add: THR_def)
  ultimately show ?thesis using assms(2) by (simp add: guest_uartputc_def guest_reg_port ns_write_def THR_def dlab_def)
qed

text \<open>
  An interrupt of the machine, from the physical claim by the hypervisor to the physical completion
  on behalf of the guest: the guest echoes the received character, the hypervisor completes exactly
  the interrupt it claimed, and the virtual interrupt is withdrawn.
\<close>

lemma interrupt_delivered:
  assumes h: "unat hartid < length (vcpus s)" and ctx: "vctx_of hartid s < 15872" "uint (vctx_of hartid s) = 2 * tp + 1"
    and irqs: "irqs_ok (devs_of hartid s)" "irqs_small (devs_of hartid s)"
    and claim: "plic_claim dev (pctx_of hartid) (plic s) = (irq, d1)" "sint irq \<in> own_irqs (devs_of hartid s)"
    and port: "uart_hw (guest_port udev) view delay" "\<not> dlab (view u1)" and rbr: "byte_read udev u GUEST_DTB_SERIAL = (c, u1)"
  shows "\<exists>s1 s2 u2. vplic_handle_interrupt dev hartid s = Inr s1 \<and> bit (hvip (csr s1)) 10 \<and>
    keygrab_trap (virt_plic dev hartid) udev tp (s1, u) = Inr (s2, u2) \<and>
    ns_sent (view u2) = ns_sent (view u1) @ [c, 10] \<and> \<not> bit (hvip (csr s2)) 10 \<and>
    last_claimed_irq_id (vcpus s2 ! unat hartid) = 0 \<and> plic s2 = plic_complete dev (pctx_of hartid) irq d1"
proof -
  let ?v = "unat hartid" and ?devs = "devs_of hartid s"
  have nz: "irq \<noteq> 0" using claim(2) by (auto simp: own_irqs_def)
  define s1 where "s1 = s\<lparr>plic := d1, vcpus := (vcpus s)[?v := (vcpus s ! ?v)\<lparr>last_claimed_irq_id := irq\<rparr>],
    csr := (csr s)\<lparr>hvip := CSRS (hvip (csr s)) HVIP_VSEIP\<rparr>\<rparr>"
  have s1: "vplic_handle_interrupt dev hartid s = Inr s1"
    using h nz claim(1) by (simp add: vplic_handle_interrupt_def get_vcpu_def s1_def pctx_of_def)
  have f: "vctx_of hartid s1 = vctx_of hartid s" "devs_of hartid s1 = ?devs" "plic s1 = d1"
    "last_claimed_irq_id (vcpus s1 ! ?v) = irq" "?v < length (vcpus s1)"
    using h by (simp_all add: s1_def vctx_of_def devs_of_def)
  define vi :: uint32 where "vi = word_of_int (phys_to_virt_irq ?devs (sint irq))"
  note cv = claimed_virt [OF irqs claim(2)]
  have "phys_to_virt_irq ?devs (sint irq) \<in> own_virts ?devs"
    by (rule irq_translation.to_virt_in [OF irq_translation_devs [OF irqs(1)] claim(2)])
  then have vnz: "vi \<noteq> 0" using cv(1) by (auto simp: vi_def own_virts_def)
  have gc: "guest_plic_claim (virt_plic dev hartid) (2 * tp + 1) s1 = (vi, s1)"
    using guest_claims [of hartid s1 dev] ctx f by (simp add: vi_def)
  obtain u2 where u2: "guest_uartputc udev c u1 = Inr u2" "ns_sent (view u2) = ns_sent (view u1) @ [c]"
    "ns_lcr (view u2) = ns_lcr (view u1)"
    using guest_uartputc_sends [OF port] by blast
  then have "\<not> dlab (view u2)" using port(2) by (simp add: dlab_def)
  then obtain u3 where u3: "guest_uartputc udev 10 u2 = Inr u3" "ns_sent (view u3) = ns_sent (view u2) @ [10]"
    using guest_uartputc_sends [OF port(1)] by blast
  define s2 where "s2 = s1\<lparr>vcpus := (vcpus s1)[?v := (vcpus s1 ! ?v)\<lparr>last_claimed_irq_id := 0\<rparr>],
    plic := plic_complete dev (pctx_of hartid) irq d1, csr := (csr s1)\<lparr>hvip := CSRC (hvip (csr s1)) HVIP_VSEIP\<rparr>\<rparr>"
  have gd: "guest_plic_complete (virt_plic dev hartid) (2 * tp + 1) vi s1 = s2"
    using guest_completes [of hartid s1 dev vi] ctx f cv by (simp add: vi_def s2_def Let_def)
  have "keygrab_trap (virt_plic dev hartid) udev tp (s1, u) = Inr (s2, u3)"
    using gc vnz rbr u2(1) gd u3(1) by (simp add: keygrab_trap_def)
  moreover have "bit (hvip (csr s1)) 10" "\<not> bit (hvip (csr s2)) 10"
    by (simp_all add: s1_def s2_def CSRC_CSRS_bit csr_defs bit_push_bit_iff)
  moreover have "last_claimed_irq_id (vcpus s2 ! ?v) = 0" "plic s2 = plic_complete dev (pctx_of hartid) irq d1"
    using f(5) by (simp_all add: s2_def)
  ultimately show ?thesis using s1 u2(2) u3(2) by auto
qed

text \<open>
  The hypervisor remembers one claimed interrupt per hart. When a second interrupt arrives before
  the guest has completed the first, completing the first has no effect: the physical controller
  never learns of it.
\<close>

lemma completion_lost:
  assumes h: "unat hartid < length (vcpus s)" and ctx: "vctx_of hartid s < 15872"
    and irqs: "irqs_ok (devs_of hartid s)" "irqs_small (devs_of hartid s)"
    and fst_claim: "plic_claim dev (pctx_of hartid) (plic s) = (a, d1)" "sint a \<in> own_irqs (devs_of hartid s)"
    and snd_claim: "plic_claim dev (pctx_of hartid) d1 = (b, d2)" "b \<noteq> a" "b \<noteq> 0"
  shows "\<exists>s1 s2. vplic_handle_interrupt dev hartid s = Inr s1 \<and> vplic_handle_interrupt dev hartid s1 = Inr s2 \<and>
    plic s2 = d2 \<and>
    guest_plic_complete (virt_plic dev hartid) (uint (vctx_of hartid s))
      (word_of_int (phys_to_virt_irq (devs_of hartid s) (sint a))) s2 = s2"
proof -
  let ?v = "unat hartid"
  have nz: "a \<noteq> 0" using fst_claim(2) by (auto simp: own_irqs_def)
  define s1 where "s1 = s\<lparr>plic := d1, vcpus := (vcpus s)[?v := (vcpus s ! ?v)\<lparr>last_claimed_irq_id := a\<rparr>],
    csr := (csr s)\<lparr>hvip := CSRS (hvip (csr s)) HVIP_VSEIP\<rparr>\<rparr>"
  define s2 where "s2 = s1\<lparr>plic := d2, vcpus := (vcpus s1)[?v := (vcpus s1 ! ?v)\<lparr>last_claimed_irq_id := b\<rparr>],
    csr := (csr s1)\<lparr>hvip := CSRS (hvip (csr s1)) HVIP_VSEIP\<rparr>\<rparr>"
  have 1: "vplic_handle_interrupt dev hartid s = Inr s1"
    using h nz fst_claim(1) by (simp add: vplic_handle_interrupt_def get_vcpu_def s1_def pctx_of_def)
  have 2: "vplic_handle_interrupt dev hartid s1 = Inr s2"
    using h snd_claim by (simp add: vplic_handle_interrupt_def get_vcpu_def s2_def pctx_of_def s1_def)
  have f: "vctx_of hartid s2 = vctx_of hartid s" "devs_of hartid s2 = devs_of hartid s" "plic s2 = d2"
    "last_claimed_irq_id (vcpus s2 ! ?v) = b"
    using h by (simp_all add: s2_def s1_def vctx_of_def devs_of_def)
  have "guest_plic_complete (virt_plic dev hartid) (uint (vctx_of hartid s))
      (word_of_int (phys_to_virt_irq (devs_of hartid s) (sint a))) s2 = s2"
    using guest_completes [of hartid s2 dev] ctx f snd_claim(2) claimed_virt [OF irqs fst_claim(2)]
    by (simp add: Let_def)
  with 1 2 f(3) show ?thesis by blast
qed

section \<open>Starting the guest\<close>

lemma guest_sets_priority:
  assumes x: "1 \<le> x" "x \<le> 1023"
  shows "guest_plic_set_priority (virt_plic dev hartid) x prio s =
    s\<lparr>plic := plic_set_priority dev (virt_to_phys_irq (devs_of hartid s) x) prio (plic s)\<rparr>"
proof -
  define o4 :: uint64 where "o4 = 4 * word_of_int x"
  have ux: "uint (word_of_int x :: uint64) = x" using x by (simp add: uint_word_of_int_eq take_bit_int_eq_self)
  then have u4: "uint o4 = 4 * x" using x by (simp add: o4_def uint_word_ariths)
  then have o4: "o4 < 0x1000" using x by (simp add: word_less_def)
  have "o4 div 4 = word_of_int x" using ux u4 by (simp add: word_uint_eq_iff uint_div)
  moreover have "int_of_u64 (word_of_int x) = x"
    using int_of_u64_small [of "word_of_int x"] ux x by (simp add: word_less_def)
  ultimately have irq: "int_of_u64 (o4 div 4) = x" by simp
  have "plic_addr x - DTB_PLIC = o4" by (simp add: plic_addr_def o4_def)
  with x o4 irq show ?thesis
    by (simp add: guest_plic_set_priority_def virt_plic_def store_effect_def is_access_to_priority_reg_def
        handle_priority_reg_store_def devs_of_def Let_def)
qed

lemma guest_sets_threshold:
  assumes c: "vctx_of hartid s < 15872"
  shows "guest_plic_set_threshold (virt_plic dev hartid) (uint (vctx_of hartid s)) t s =
    s\<lparr>plic := plic_set_threshold dev (pctx_of hartid) t (plic s)\<rparr>"
proof -
  let ?vc = "vctx_of hartid s"
  define o4 :: uint64 where "o4 = 0x200000 + 0x1000 * ?vc"
  have b: "unat ?vc < 15872" using c by (simp add: word_less_nat_alt)
  then have u: "unat o4 = 0x200000 + 0x1000 * unat ?vc" by (simp add: o4_def unat_word_ariths)
  have m: "unat o4 mod 4096 = 0" unfolding u by presburger
  have acc: "is_access_to_threshold_reg o4" "\<not> is_access_to_priority_reg o4" "\<not> is_access_to_pending_regs o4"
    "\<not> is_access_to_enable_regs o4"
    unfolding is_access_to_threshold_reg_iff using u m b
    by (simp_all add: is_access_to_enable_regs_def is_access_to_priority_reg_def is_access_to_pending_regs_def
        word_le_nat_alt word_less_nat_alt)
  have ctx: "(o4 - 0x200000) div 0x1000 = ?vc"
    using b by (simp add: o4_def word_unat_eq_iff unat_div unat_word_ariths)
  have "plic_addr (0x200000 div 4 + 0x1000 div 4 * uint ?vc) - DTB_PLIC = o4"
  proof -
    have "word_of_int (0x80000 + 0x400 * uint ?vc) = (0x80000 + 0x400 * ?vc :: uint64)"
      by (simp only: of_int_add of_int_mult of_int_numeral word_of_int_uint)
    then show ?thesis by (simp add: plic_addr_def o4_def)
  qed
  moreover have "uint ?vc \<le> 15871" "0 \<le> uint ?vc" using c by (simp_all add: word_less_def)
  moreover have "ucast (ucast t :: uint64) = t" by (rule bit_word_eqI) (simp add: bit_simps)
  then have "store_effect dev (unat hartid) o4 ?vc (2 * hartid + 1) t s =
      Inr (s\<lparr>plic := plic_set_threshold dev (pctx_of hartid) t (plic s)\<rparr>)"
    by (simp add: store_effect_def acc handle_threshold_reg_store_def ctx pctx_of_def Let_def)
  ultimately show ?thesis
    by (simp add: guest_plic_set_threshold_def virt_plic_def vctx_of_def)
qed

lemma guest_set_enabled_frame:
  assumes c: "vctx_of hartid s < 15872" and x: "\<not> bad_source x"
  shows "\<exists>d. guest_plic_set_enabled (virt_plic dev hartid) (uint (vctx_of hartid s)) x e s = s\<lparr>plic := d\<rparr>"
proof -
  let ?vc = "vctx_of hartid s"
  define g :: uint64 where "g = word_of_int (x div 32)"
  define a where "a = plic_addr (0x2000 div 4 + 1024 div 32 * uint ?vc + x div 32)"
  have xr: "0 \<le> x" "x < 1024" using x by (auto simp: bad_source_def)
  have "uint g = x div 32" using xr by (simp add: g_def unsigned_of_int take_bit_int_eq_self)
  then have g: "g < 32" using xr by (simp add: word_less_def)
  have vc: "?vc < 0x3fc0" using c by (simp add: word_less_nat_alt)
  have uvc: "uint ?vc \<le> 15871" "0 \<le> uint ?vc" using c by (simp_all add: word_less_def)
  have addr: "a - DTB_PLIC = virt_enable_offset ?vc g"
    unfolding a_def g_def by (rule guest_enable_addr [OF c xr])
  have rd: "\<exists>w d. mmio_read (virt_plic dev hartid) s a = (w, s\<lparr>plic := d\<rparr>)"
    by (auto simp: virt_plic_def Let_def split: sum.splits intro: exI [of _ "plic s"])
  then obtain w d where w: "mmio_read (virt_plic dev hartid) s a = (w, s\<lparr>plic := d\<rparr>)" by blast
  have "\<exists>d'. mmio_write (virt_plic dev hartid) (s\<lparr>plic := d\<rparr>) a v = s\<lparr>plic := d'\<rparr>" for v
    using virt_enable_offset [OF g vc] addr by (simp add: virt_plic_def store_effect_def Let_def) blast
  then show ?thesis using x uvc w
    by (simp add: guest_plic_set_enabled_def bad_source_def Let_def a_def [simplified, symmetric])
qed

text \<open>
  The guest starts on a hart of its machine: it greets on its port, and the physical controller gets
  the priority, the enable bit and the threshold for the interrupt and the context of the machine.
\<close>

lemma keygrab_starts_up:
  assumes hw: "enable_regs_hw dev peek impl" and ok: "irqs_ok (devs_of hartid s)"
    and im: "\<And>p. p \<in> own_irqs (devs_of hartid s) \<Longrightarrow> good (pctx_of hartid) p \<Longrightarrow> implemented impl (pctx_of hartid) p"
    and c: "\<not> bad_context (pctx_of hartid)" "vctx_of hartid s < 15872"
    and port: "uart_hw (guest_port udev) view delay"
    and tp: "tp = vhartid (vcpus s ! unat hartid)"
  defines "irq \<equiv> virt_to_phys_irq (devs_of hartid s) 11"
  shows "\<exists>g' s' u' d. keygrab_start (virt_plic dev hartid) udev vec tp (g, s, u) = Inr (g', s', u') \<and>
    ns_sent (view u') = ns_sent (view u) @ [0x44] \<and> g_tp g' = tp \<and> bit (g_sstatus g') 1 \<and> bit (g_sie g') 9 \<and>
    plic s' = plic_set_threshold dev (pctx_of hartid) 0 d \<and>
    (\<forall>c y. good c y \<longrightarrow> (enabled dev c y d \<longleftrightarrow> (c = pctx_of hartid \<and> y = irq) \<or>
       enabled dev c y (plic_set_priority dev irq 1 (plic s))))"
proof -
  let ?vc = "vctx_of hartid s"
  have ctx: "int_of_u64 (push_bit 1 tp + 1) = uint ?vc"
  proof -
    have "?vc < 0x80000000" using c(2) by (rule order_less_trans) simp
    moreover have "push_bit 1 tp + 1 = ?vc" by (simp add: vctx_of_def tp push_bit_eq_mult mult.commute)
    ultimately show ?thesis using int_of_u64_small by metis
  qed
  define s1 where "s1 = s\<lparr>plic := plic_set_priority dev irq 1 (plic s)\<rparr>"
  have s1: "guest_plic_set_priority (virt_plic dev hartid) 11 1 s = s1"
    unfolding s1_def irq_def by (rule guest_sets_priority) simp_all
  have f1: "vctx_of hartid s1 = ?vc" "devs_of hartid s1 = devs_of hartid s"
    by (simp_all add: s1_def vctx_of_def devs_of_def)
  have src: "\<not> bad_source 11" by (simp add: bad_source_def)
  from guest_set_enabled_frame [of hartid s1 11 dev 1] c(2) f1 src obtain d where
    d: "guest_plic_set_enabled (virt_plic dev hartid) (uint ?vc) 11 1 s1 = s1\<lparr>plic := d\<rparr>" by auto
  have en: "enabled dev k y d \<longleftrightarrow> (k = pctx_of hartid \<and> y = irq) \<or> enabled dev k y (plic s1)" if "good k y" for k y
    using guest_set_enabled_effect [OF hw, of hartid s1 11 k y 1] ok im c src that d by (auto simp: f1 irq_def)
  have f2: "vctx_of hartid (s1\<lparr>plic := d\<rparr>) = ?vc" by (simp add: s1_def vctx_of_def)
  have th: "guest_plic_set_threshold (virt_plic dev hartid) (uint ?vc) 0 (s1\<lparr>plic := d\<rparr>) =
      s1\<lparr>plic := plic_set_threshold dev (pctx_of hartid) 0 d\<rparr>"
    using guest_sets_threshold [of hartid "s1\<lparr>plic := d\<rparr>" dev 0] c(2) f2 by simp
  let ?u = "guest_init_uart udev u"
  have v: "ns_lcr (view ?u) = 3" "ns_sent (view ?u) = ns_sent (view u)"
    using init_uart_view [OF port, of u] by (simp_all add: guest_init_uart_port Let_def)
  then have "\<not> dlab (view ?u)" by (simp add: dlab_def bit_iff_odd)
  then obtain u' where u': "guest_uartputc udev 0x44 ?u = Inr u'" "ns_sent (view u') = ns_sent (view ?u) @ [0x44]"
    using guest_uartputc_sends [OF port] by blast
  have "keygrab_start (virt_plic dev hartid) udev vec tp (g, s, u) =
      Inr (g\<lparr>g_tp := tp, g_stvec := vec, g_sp := 0x80100ff8, g_sstatus := CSRS (g_sstatus g) (push_bit 1 1),
             g_sie := CSRS (g_sie g) (push_bit 9 1)\<rparr>,
        s1\<lparr>plic := plic_set_threshold dev (pctx_of hartid) 0 d\<rparr>, u')"
    using u'(1) s1 ctx d th by (simp add: keygrab_start_def DTB_SERIAL_IRQ_NUM_def Let_def)
  with u'(2) v en show ?thesis
    by (auto simp: s1_def CSRC_CSRS_bit bit_push_bit_iff intro!: exI [of _ d])
qed

end
