(* ===== verification/Linker_Script.thy ===== *)
theory Linker_Script
  imports Boot
begin

text \<open>
  The linker script, \<^verbatim>\<open>src/src/helper/linkerscript.c\<close>: where it places the sections of the image, for
  given section sizes. Boot code is linked at its load address; from \<^verbatim>\<open>.text\<close> on a section runs in
  the kernel's window and is loaded at \<^verbatim>\<open>phys_base + offset\<close>, the variable \<^verbatim>\<open>offset\<close> being advanced
  beside the location counter.

  The lemmas show that the addresses have the layout the kernel's page table relies on, and that
  the load address of every section is the physical address the kernel computes for it.
\<close>

section \<open>The script\<close>

record section_sizes =
  boottext_size :: uint64
  bootdata_size :: uint64
  bsp_size :: uint64
  text_size :: uint64
  rodata_size :: uint64
  data_size :: uint64
  cpu_structs_size :: uint64
  vm_images_size :: uint64

definition phys_base_sym :: uint64 where
  "phys_base_sym = DTB_MEMORY + FIRMWARE_SIZE"

definition kernel_base :: uint64 where
  "kernel_base = PA2KVA phys_base_sym"

text \<open>\<^verbatim>\<open>ALIGN(PAGE_SIZE)\<close> of the location counter, as the address of a section.\<close>

definition boot_section :: "uint64 \<Rightarrow> uint64 \<Rightarrow> uint64" where
  "boot_section sz dot = PGROUNDUP dot + sz"

text \<open>The offset of the first section of the kernel, after the boot sections.\<close>

definition boot_offset :: "section_sizes \<Rightarrow> uint64" where
  "boot_offset z =
     PGROUNDUP (boot_section (bsp_size z) (boot_section (bootdata_size z)
       (boot_section (boottext_size z) phys_base_sym))) - phys_base_sym"

text \<open>
  A section of the kernel: its address, load address and end, from the location counter and
  \<^verbatim>\<open>offset\<close>; the sections that follow continue at its end, with the offset advanced by its size.
\<close>

fun kernel_section_list :: "uint64 \<Rightarrow> uint64 \<Rightarrow> uint64 list \<Rightarrow> (uint64 \<times> uint64 \<times> uint64) list" where
  "kernel_section_list dot offset [] = []"
| "kernel_section_list dot offset (sz # rest) =
     (let vma = PGROUNDUP dot in
      (vma, phys_base_sym + offset, vma + sz) #
        kernel_section_list (vma + sz) (PGROUNDUP (offset + sz)) rest)"

definition placed_sections :: "section_sizes \<Rightarrow> (uint64 \<times> uint64 \<times> uint64) list" where
  "placed_sections z =
     kernel_section_list (kernel_base + boot_offset z) (boot_offset z)
       [text_size z, rodata_size z, data_size z, cpu_structs_size z, vm_images_size z]"

text \<open>The symbols the kernel uses.\<close>

definition link_image :: "section_sizes \<Rightarrow> linker" where
  "link_image z =
     (let s = placed_sections z; start = (\<lambda>i. fst (s ! i)); finish = (\<lambda>i. snd (snd (s ! i))) in
      \<lparr>text_start = start 0, etext = finish 0, rodata = start 1, erodata = finish 1,
       data_start = start 2, edata = finish 2, cpu_structs = start 3,
       dynamic_start = PGROUNDUP (finish 4)\<rparr>)"

section \<open>Load addresses\<close>

lemma PGROUNDUP_add: "take_bit 12 a = 0 \<Longrightarrow> PGROUNDUP (a + b) = a + PGROUNDUP b"
proof -
  assume a: "take_bit 12 a = 0"
  let ?x = "b + 4095"
  have "?x = PGROUNDDOWN ?x + take_bit 12 ?x" unfolding PGROUNDDOWN_eq by (rule bits_ident [symmetric])
  then have "a + b + 4095 = (a + PGROUNDDOWN ?x) + take_bit 12 ?x" by (simp add: algebra_simps)
  moreover have "take_bit 12 (a + PGROUNDDOWN ?x) = 0" by (rule take_bit_add_aligned [OF a]) simp
  moreover have "take_bit 12 ?x < 4096" using take_bit_less_two_power [of 12 ?x] by simp
  ultimately show ?thesis unfolding PGROUNDUP_eq by (metis PGROUNDDOWN_aligned_add)
qed

text \<open>The kernel's window and the load addresses stay a constant apart.\<close>

lemma KVA2PA_shift: "take_bit 12 (DTB_MEMORY - VAS_KERNEL) = 0" "KVA2PA a = (DTB_MEMORY - VAS_KERNEL) + a"
  by (simp_all add: layout_defs KVA2PA_def)

lemma sections_in_sync:
  assumes "take_bit 12 offset = 0" "KVA2PA (PGROUNDUP dot) = phys_base_sym + offset"
    "(vma, lma, end) \<in> set (kernel_section_list dot offset szs)"
  shows "KVA2PA vma = lma"
  using assms
proof (induction dot offset szs rule: kernel_section_list.induct)
  case (2 dot offset sz rest)
  have pb: "take_bit 12 phys_base_sym = 0" by (simp add: phys_base_sym_def layout_defs)
  have "KVA2PA (PGROUNDUP (PGROUNDUP dot + sz)) = KVA2PA (PGROUNDUP dot) + PGROUNDUP sz"
    by (simp add: PGROUNDUP_add KVA2PA_def)
  also have "\<dots> = phys_base_sym + PGROUNDUP (offset + sz)"
    using "2.prems"(1,2) by (simp add: PGROUNDUP_add)
  finally show ?case using "2.prems" "2.IH" [OF refl] by (auto simp: Let_def)
qed simp

lemma placed_in_sync: "(vma, lma, end) \<in> set (placed_sections z) \<Longrightarrow> KVA2PA vma = lma"
proof -
  have pb: "take_bit 12 phys_base_sym = 0" "take_bit 12 kernel_base = 0"
    by (simp_all add: phys_base_sym_def kernel_base_def PA2KVA_def layout_defs)
  have "take_bit 12 (boot_offset z) = 0"
    unfolding boot_offset_def diff_conv_add_uminus
    by (rule take_bit_add_aligned) (simp_all add: phys_base_sym_def layout_defs)
  moreover from this have "KVA2PA (PGROUNDUP (kernel_base + boot_offset z)) = phys_base_sym + boot_offset z"
    using pb(2) by (simp add: PGROUNDUP_add PGROUNDUP_id KVA2PA_def kernel_base_def PA2KVA_def)
  ultimately show "(vma, lma, end) \<in> set (placed_sections z) \<Longrightarrow> KVA2PA vma = lma"
    unfolding placed_sections_def by (rule sections_in_sync)
qed

section \<open>The layout\<close>

text \<open>The sections fit into memory, each with up to a page of padding before it.\<close>

definition sizes_ok :: "section_sizes \<Rightarrow> bool" where
  "sizes_ok z \<longleftrightarrow>
     cpu_structs_size z = of_nat DTB_NR_CPUS * CPU_SIZE \<and>
     (\<Sum>n \<leftarrow> [boottext_size z, bootdata_size z, bsp_size z, text_size z, rodata_size z, data_size z,
         cpu_structs_size z, vm_images_size z]. unat n + 4096) + unat FIRMWARE_SIZE + 8192 \<le> unat DTB_MEMORY_SIZE"

lemma PGROUNDUP_unat:
  assumes "unat a + 4096 \<le> 2 ^ 64"
  shows "unat a \<le> unat (PGROUNDUP a)" "unat (PGROUNDUP a) \<le> unat a + 4095"
proof -
  have u: "unat (a + 4095) = unat a + 4095" using assms by (simp add: unat_word_ariths)
  have "unat (PGROUNDUP a) = unat (a + 4095) div 4096 * 4096"
    unfolding PGROUNDUP_eq PGROUNDDOWN_eq
    by (subst push_bit_eq_mult) (simp add: drop_bit_eq_div unat_div unat_word_ariths)
  also have "\<dots> = (unat a + 4095) div 4096 * 4096" by (simp only: u)
  finally have e: "unat (PGROUNDUP a) = (unat a + 4095) div 4096 * 4096" .
  have "(unat a + 4095) mod 4096 < 4096" by simp
  moreover have "(unat a + 4095) div 4096 * 4096 + (unat a + 4095) mod 4096 = unat a + 4095" by (rule div_mult_mod_eq)
  ultimately show "unat a \<le> unat (PGROUNDUP a)" "unat (PGROUNDUP a) \<le> unat a + 4095" unfolding e by linarith+
qed

lemma section_step:
  assumes "unat dot + unat sz + 4096 \<le> 0xffffffd000000000"
  shows "unat dot \<le> unat (PGROUNDUP dot)" "unat (PGROUNDUP dot + sz) = unat (PGROUNDUP dot) + unat sz"
    "unat (PGROUNDUP dot + sz) \<le> unat dot + (unat sz + 4096)"
proof -
  note p = PGROUNDUP_unat [of dot]
  show a: "unat dot \<le> unat (PGROUNDUP dot)" "unat (PGROUNDUP dot + sz) = unat (PGROUNDUP dot) + unat sz"
    using p assms by (simp_all add: unat_word_ariths)
  show "unat (PGROUNDUP dot + sz) \<le> unat dot + (unat sz + 4096)" unfolding a using p assms by simp
qed

text \<open>The layout of the image, for every choice of section sizes that fits.\<close>

lemma boot_offset_unat:
  assumes "unat (boottext_size z) + unat (bootdata_size z) + unat (bsp_size z) + 16384 \<le> 0x10000000"
  shows "unat (boot_offset z) \<le> unat (boottext_size z) + unat (bootdata_size z) + unat (bsp_size z) + 16384"
proof -
  define d1 where "d1 = boot_section (boottext_size z) phys_base_sym"
  define d2 where "d2 = boot_section (bootdata_size z) d1"
  define d3 where "d3 = boot_section (bsp_size z) d2"
  have p: "unat phys_base_sym = 0x80100000" by (simp add: phys_base_sym_def layout_defs)
  have 1: "unat d1 \<le> unat phys_base_sym + (unat (boottext_size z) + 4096)" "unat phys_base_sym \<le> unat d1"
    using section_step [of phys_base_sym "boottext_size z"] assms p by (simp_all add: d1_def boot_section_def)
  have 2: "unat d2 \<le> unat d1 + (unat (bootdata_size z) + 4096)" "unat d1 \<le> unat d2"
    using section_step [of d1 "bootdata_size z"] assms p 1 by (simp_all add: d2_def boot_section_def)
  have 3: "unat d3 \<le> unat d2 + (unat (bsp_size z) + 4096)" "unat d2 \<le> unat d3"
    using section_step [of d2 "bsp_size z"] assms p 1 2 by (simp_all add: d3_def boot_section_def)
  have 4: "unat (PGROUNDUP d3) \<le> unat d3 + 4095" "unat d3 \<le> unat (PGROUNDUP d3)"
    using PGROUNDUP_unat [of d3] assms p 1 2 3 by simp_all
  have "phys_base_sym \<le> PGROUNDUP d3" unfolding word_le_nat_alt using 1 2 3 4 by linarith
  then have "unat (boot_offset z) = unat (PGROUNDUP d3) - unat phys_base_sym"
    unfolding boot_offset_def d1_def [symmetric] d2_def [symmetric] d3_def [symmetric] by (rule unat_sub)
  with 1 2 3 4 show ?thesis by linarith
qed

lemma link_image_layout:
  assumes z: "sizes_ok z"
  shows "linker_layout (link_image z)"
proof -
  have cs: "unat (cpu_structs_size z) = 0x6000"
    using z by (simp add: sizes_ok_def CPU_SIZE_eq layout_defs)
  have tot: "unat (boottext_size z) + unat (bootdata_size z) + unat (bsp_size z) + unat (text_size z) +
      unat (rodata_size z) + unat (data_size z) + unat (vm_images_size z) + 0x6000 + 40960 \<le> 0xff00000"
    using z cs by (simp add: sizes_ok_def layout_defs)
  define dot where "dot = kernel_base + boot_offset z"
  define t where "t = PGROUNDUP dot"
  define r where "r = PGROUNDUP (t + text_size z)"
  define d where "d = PGROUNDUP (r + rodata_size z)"
  define c where "c = PGROUNDUP (d + data_size z)"
  define v where "v = PGROUNDUP (c + cpu_structs_size z)"
  define e where "e = PGROUNDUP (v + vm_images_size z)"
  have L: "link_image z = \<lparr>text_start = t, etext = t + text_size z, rodata = r, erodata = r + rodata_size z,
      data_start = d, edata = d + data_size z, cpu_structs = c, dynamic_start = e\<rparr>"
    by (simp add: link_image_def placed_sections_def Let_def t_def r_def d_def c_def v_def e_def dot_def)
  have kb: "unat kernel_base = 0xffffffc000100000" by (simp add: kernel_base_def phys_base_sym_def PA2KVA_def layout_defs)
  have bo: "unat (boot_offset z) \<le> unat (boottext_size z) + unat (bootdata_size z) + unat (bsp_size z) + 16384"
    by (rule boot_offset_unat) (use tot in linarith)
  have dot: "unat dot = 0xffffffc000100000 + unat (boot_offset z)"
    unfolding dot_def using kb bo tot by (simp add: unat_word_ariths)
  have 1: "unat dot \<le> unat t" "unat (t + text_size z) = unat t + unat (text_size z)"
    "unat (t + text_size z) \<le> unat dot + (unat (text_size z) + 4096)"
    unfolding t_def by (rule section_step [of dot "text_size z"], use dot bo tot in linarith)+
  have 2: "unat (t + text_size z) \<le> unat r" "unat (r + rodata_size z) = unat r + unat (rodata_size z)"
    "unat (r + rodata_size z) \<le> unat (t + text_size z) + (unat (rodata_size z) + 4096)"
    unfolding r_def by (rule section_step [of "t + text_size z" "rodata_size z"], use dot bo tot 1 in linarith)+
  have 3: "unat (r + rodata_size z) \<le> unat d" "unat (d + data_size z) = unat d + unat (data_size z)"
    "unat (d + data_size z) \<le> unat (r + rodata_size z) + (unat (data_size z) + 4096)"
    unfolding d_def by (rule section_step [of "r + rodata_size z" "data_size z"], use dot bo tot 1 2 in linarith)+
  have 4: "unat (d + data_size z) \<le> unat c" "unat (c + cpu_structs_size z) = unat c + unat (cpu_structs_size z)"
    "unat (c + cpu_structs_size z) \<le> unat (d + data_size z) + (unat (cpu_structs_size z) + 4096)"
    unfolding c_def by (rule section_step [of "d + data_size z" "cpu_structs_size z"], use dot bo tot cs 1 2 3 in linarith)+
  have 5: "unat (c + cpu_structs_size z) \<le> unat v" "unat (v + vm_images_size z) = unat v + unat (vm_images_size z)"
    "unat (v + vm_images_size z) \<le> unat (c + cpu_structs_size z) + (unat (vm_images_size z) + 4096)"
    unfolding v_def by (rule section_step [of "c + cpu_structs_size z" "vm_images_size z"], use dot bo tot cs 1 2 3 4 in linarith)+
  have 6: "unat (v + vm_images_size z) \<le> unat e" "unat e \<le> unat (v + vm_images_size z) + 4095"
    unfolding e_def by (rule PGROUNDUP_unat, use dot bo tot cs 1 2 3 4 5 in simp)+
  have k: "unat VAS_KERNEL = 0xffffffc000000000" "unat (VAS_KERNEL + DTB_MEMORY_SIZE) = 0xffffffc010000000"
    "DTB_NR_CPUS * unat CPU_SIZE = 0x6000"
    by (simp_all add: layout_defs CPU_SIZE_eq)
  have al: "take_bit 12 t = 0" "take_bit 12 r = 0" "take_bit 12 d = 0" "take_bit 12 c = 0" "take_bit 12 e = 0"
    by (simp_all add: t_def r_def d_def c_def e_def)
  show ?thesis
    unfolding linker_layout_def linker_ok_def L linker.simps word_le_nat_alt k
    by (intro conjI al; use dot bo tot cs 1 2 3 4 5 6 in linarith)
qed

end
