(* ===== verification/Kmem_Parallel.thy ===== *)
theory Kmem_Parallel
  imports Kmem Transition
begin

text \<open>
  The page allocator of \<^verbatim>\<open>src/src/mem/kmem.c\<close> called by any number of harts at the same time. Every
  access of \<open>kmalloc\<close>, \<open>kfree\<close> and \<^verbatim>\<open>memset\<close> to shared memory is one step of one hart, in any
  order; between its calls a hart writes the pages it was given and hands pages over to other harts.
  Taking the lock is one step, as the refinement of the spinlock justifies.

  The ghost field \<open>powner\<close> records which hart a page was handed to. The invariant shows that the free
  list holds exactly the pages nobody owns, that a page that \<open>kmalloc\<close> returns belongs to one hart
  and is still cleared, and the simulation shows that the allocator implements a map from pages to
  their owners. A hart that runs alone computes the sequential \<open>kmalloc\<close> and \<open>kfree\<close>.
\<close>

section \<open>The steps\<close>

text \<open>
  Where a hart is: outside the allocator, stopped by \<^verbatim>\<open>panic\<close> or by a trap, in \<open>kmalloc\<close> (\<open>K_\<dots>\<close>)
  or in \<open>kfree\<close> (\<open>F_\<dots>\<close>). The values of local variables are arguments of the constructors.
\<close>

datatype kmem_pc =
    Idle | Halted
  | K_acquire | K_head | K_test uint64 | K_next uint64 | K_set uint64 uint64 | K_release uint64
  | K_memset uint64 int | K_return uint64
  | F_check uint64 | F_acquire uint64 | F_read uint64 | F_next uint64 uint64 | F_head uint64
  | F_release

record kmem_par =
  kst :: kmem_state
  kpc :: "nat \<Rightarrow> kmem_pc"
  powner :: "uint64 \<Rightarrow> nat option"

definition jump :: "nat \<Rightarrow> kmem_pc \<Rightarrow> kmem_par \<Rightarrow> kmem_par" where
  "jump h pc s = s\<lparr>kpc := (kpc s)(h := pc)\<rparr>"

definition set_kst :: "(kmem_state \<Rightarrow> kmem_state) \<Rightarrow> kmem_par \<Rightarrow> kmem_par" where
  "set_kst f s = s\<lparr>kst := f (kst s)\<rparr>"

definition set_owner :: "uint64 \<Rightarrow> nat option \<Rightarrow> kmem_par \<Rightarrow> kmem_par" where
  "set_owner p ow s = s\<lparr>powner := (powner s)(p := ow)\<rparr>"

text \<open>One round of the loop of \<^verbatim>\<open>memset\<close>, or its end; a store through the null pointer traps.\<close>

definition memset_step :: "nat \<Rightarrow> uint64 \<Rightarrow> int \<Rightarrow> kmem_par \<Rightarrow> kmem_par" where
  "memset_step h p i s =
     (if \<not> i < uint PAGE_SIZE then jump h (K_return p) s
      else if p = 0 then jump h Halted s
      else jump h (K_memset p (i + 1))
             (set_kst (mem_update (\<lambda>m. m(p + word_of_int i := 0))) s))"

definition kmalloc_step :: "nat \<Rightarrow> kmem_par \<Rightarrow> kmem_par" where
  "kmalloc_step h s =
     (case kpc s h of
        K_acquire \<Rightarrow>
          (case acquire (kmem_lk (kst s)) of
             Inl _ \<Rightarrow> s | Inr lk \<Rightarrow> jump h K_head (set_kst (kmem_lk_update (\<lambda>_. lk)) s))
      | K_head \<Rightarrow> jump h (K_test (freelist (kst s))) s
      | K_test p \<Rightarrow> jump h (if p \<noteq> 0 then K_next p else K_release p) s
      | K_next p \<Rightarrow> jump h (K_set p (load64 (mem (kst s)) p)) s
      | K_set p n \<Rightarrow>
          jump h (K_release p) (set_owner p (Some h) (set_kst (freelist_update (\<lambda>_. n)) s))
      | K_release p \<Rightarrow> jump h (K_memset p 0) (set_kst (kmem_lk_update release) s)
      | K_memset p i \<Rightarrow> memset_step h p i s
      | K_return p \<Rightarrow> jump h Idle s
      | _ \<Rightarrow> s)"

definition kfree_step :: "uint64 \<Rightarrow> nat \<Rightarrow> kmem_par \<Rightarrow> kmem_par" where
  "kfree_step dynamic h s =
     (case kpc s h of
        F_check p \<Rightarrow> jump h (if valid_address dynamic p then F_acquire p else Halted) s
      | F_acquire p \<Rightarrow>
          (case acquire (kmem_lk (kst s)) of
             Inl _ \<Rightarrow> s | Inr lk \<Rightarrow> jump h (F_read p) (set_kst (kmem_lk_update (\<lambda>_. lk)) s))
      | F_read p \<Rightarrow> jump h (F_next p (freelist (kst s))) s
      | F_next p v \<Rightarrow> jump h (F_head p) (set_kst (mem_update (\<lambda>m. store64 m p v)) s)
      | F_head p \<Rightarrow>
          jump h F_release (set_owner p None (set_kst (freelist_update (\<lambda>_. p)) s))
      | F_release \<Rightarrow> jump h Idle (set_kst (kmem_lk_update release) s)
      | _ \<Rightarrow> s)"

text \<open>
  The harts and their clients. The discipline of the callers: a hart frees a page it owns (or an
  address that \<open>kfree\<close> refuses), and writes only its own pages and memory outside the region that
  the allocator manages.
\<close>

inductive par_step :: "uint64 \<Rightarrow> kmem_par \<Rightarrow> kmem_par \<Rightarrow> bool" for dynamic where
  call_kmalloc: "kpc s h = Idle \<Longrightarrow> par_step dynamic s (jump h K_acquire s)"
| call_kfree: "kpc s h = Idle \<Longrightarrow> powner s p = Some h \<or> \<not> valid_address dynamic p \<Longrightarrow>
    par_step dynamic s (jump h (F_check p) s)"
| in_kmalloc: "par_step dynamic s (kmalloc_step h s)"
| in_kfree: "par_step dynamic s (kfree_step dynamic h s)"
| client_write: "kpc s h = Idle \<Longrightarrow>
    powner s (PGROUNDDOWN a) = Some h \<or> \<not> valid_address dynamic (PGROUNDDOWN a) \<Longrightarrow>
    par_step dynamic s (set_kst (mem_update (\<lambda>m. m(a := b))) s)"
| hand_over: "kpc s h = Idle \<Longrightarrow> powner s p = Some h \<Longrightarrow> par_step dynamic s (set_owner p (Some k) s)"

text \<open>The allocator as \<open>init_kmem\<close> leaves it: all pages of the region are free.\<close>

definition par_init :: "uint64 \<Rightarrow> kmem_par \<Rightarrow> bool" where
  "par_init dynamic s \<longleftrightarrow> linker_ok dynamic \<and> free_set dynamic (kst s) {p. valid_address dynamic p} \<and>
     (\<forall>h. kpc s h = Idle) \<and> powner s = Map.empty"

interpretation kp: transition_system "par_init dynamic" "par_step dynamic" for dynamic .

lemma par_simps [simp]:
  "kst (jump h pc s) = kst s" "kpc (jump h pc s) = (kpc s)(h := pc)" "powner (jump h pc s) = powner s"
  "kst (set_kst f s) = f (kst s)" "kpc (set_kst f s) = kpc s" "powner (set_kst f s) = powner s"
  "kst (set_owner p ow s) = kst s" "kpc (set_owner p ow s) = kpc s"
  "powner (set_owner p ow s) = (powner s)(p := ow)"
  by (simp_all add: jump_def set_kst_def set_owner_def)

section \<open>The invariant\<close>

fun in_lock :: "kmem_pc \<Rightarrow> bool" where
  "in_lock K_head = True"
| "in_lock (K_test p) = True"
| "in_lock (K_next p) = True"
| "in_lock (K_set p n) = True"
| "in_lock (K_release p) = True"
| "in_lock (F_read p) = True"
| "in_lock (F_next p v) = True"
| "in_lock (F_head p) = True"
| "in_lock F_release = True"
| "in_lock _ = False"

text \<open>What a hart knows at each point: about the page in its hands and about the list it has read.\<close>

fun pc_ok :: "uint64 \<Rightarrow> kmem_par \<Rightarrow> nat \<Rightarrow> kmem_pc \<Rightarrow> bool" where
  "pc_ok dynamic s h (K_test p) \<longleftrightarrow> p = freelist (kst s)"
| "pc_ok dynamic s h (K_next p) \<longleftrightarrow> p \<noteq> 0 \<and> p = freelist (kst s)"
| "pc_ok dynamic s h (K_set p n) \<longleftrightarrow> p \<noteq> 0 \<and> p = freelist (kst s) \<and> n = load64 (mem (kst s)) p"
| "pc_ok dynamic s h (K_release p) \<longleftrightarrow> p = 0 \<or> powner s p = Some h"
| "pc_ok dynamic s h (K_memset p i) \<longleftrightarrow> 0 \<le> i \<and> i \<le> 4096 \<and>
     (p = 0 \<longrightarrow> i = 0) \<and>
     (p \<noteq> 0 \<longrightarrow> powner s p = Some h \<and> (\<forall>x. uint (x - p) < i \<longrightarrow> mem (kst s) x = 0))"
| "pc_ok dynamic s h (K_return p) \<longleftrightarrow>
     powner s p = Some h \<and> (\<forall>x. PGROUNDDOWN x = p \<longrightarrow> mem (kst s) x = 0)"
| "pc_ok dynamic s h (F_check p) \<longleftrightarrow> powner s p = Some h \<or> \<not> valid_address dynamic p"
| "pc_ok dynamic s h (F_acquire p) \<longleftrightarrow> powner s p = Some h"
| "pc_ok dynamic s h (F_read p) \<longleftrightarrow> powner s p = Some h"
| "pc_ok dynamic s h (F_next p v) \<longleftrightarrow> powner s p = Some h \<and> v = freelist (kst s)"
| "pc_ok dynamic s h (F_head p) \<longleftrightarrow> powner s p = Some h \<and> load64 (mem (kst s)) p = freelist (kst s)"
| "pc_ok dynamic s h _ \<longleftrightarrow> True"

definition lock_ok :: "kmem_par \<Rightarrow> bool" where
  "lock_ok s \<longleftrightarrow>
     (locked (kmem_lk (kst s)) = 0 \<and> (\<forall>h. \<not> in_lock (kpc s h))) \<or>
     (locked (kmem_lk (kst s)) = 1 \<and> (\<exists>h. \<forall>k. in_lock (kpc s k) \<longleftrightarrow> k = h))"

definition list_ok :: "uint64 \<Rightarrow> kmem_par \<Rightarrow> bool" where
  "list_ok dynamic s \<longleftrightarrow> (\<forall>p h. powner s p = Some h \<longrightarrow> valid_address dynamic p) \<and>
     (\<exists>free. bm.chain (mem (kst s)) (freelist (kst s)) free \<and>
        set free = {p. valid_address dynamic p \<and> powner s p = None})"

definition par_inv :: "uint64 \<Rightarrow> kmem_par \<Rightarrow> bool" where
  "par_inv dynamic s \<longleftrightarrow> lock_ok s \<and> list_ok dynamic s \<and> (\<forall>h. pc_ok dynamic s h (kpc s h))"

lemma lock_ok_unique: "lock_ok s \<Longrightarrow> in_lock (kpc s h) \<Longrightarrow> in_lock (kpc s k) \<Longrightarrow> k = h"
  by (auto simp: lock_ok_def)

lemma lock_ok_keep [simp]:
  "lock_ok s \<Longrightarrow> in_lock pc = in_lock (kpc s h) \<Longrightarrow> lock_ok (jump h pc s)"
  "(\<And>k. kmem_lk (f k) = kmem_lk k) \<Longrightarrow> lock_ok (set_kst f s) = lock_ok s"
  "lock_ok (set_owner p ow s) = lock_ok s"
  by (auto simp: lock_ok_def)

lemma lock_ok_acquire:
  "lock_ok s \<Longrightarrow> acquire (kmem_lk (kst s)) = Inr lk \<Longrightarrow> in_lock pc \<Longrightarrow>
     lock_ok (jump h pc (set_kst (kmem_lk_update (\<lambda>_. lk)) s))"
  by (auto simp: lock_ok_def acquire_def split: if_splits)

lemma lock_ok_release:
  "lock_ok s \<Longrightarrow> in_lock (kpc s h) \<Longrightarrow> \<not> in_lock pc \<Longrightarrow>
     lock_ok (jump h pc (set_kst (kmem_lk_update release) s))"
  by (auto simp: lock_ok_def release_def)

lemma load64_same_page:
  assumes "take_bit 12 p = 0" "\<And>a. PGROUNDDOWN a = p \<Longrightarrow> m' a = m a"
  shows "load64 m' p = load64 m p"
proof (rule load64_cong)
  fix i :: uint64 assume "i < 8"
  moreover have "(8 :: uint64) \<le> 4096" by simp
  ultimately have "i < 4096" by (rule order_less_le_trans)
  then have "PGROUNDDOWN (p + i) = p" using page_offset_iff [OF assms(1), of "p + i"] by simp
  then show "m' (p + i) = m (p + i)" by (rule assms(2))
qed

lemma list_ok_head:
  assumes "list_ok dynamic s" "freelist (kst s) \<noteq> 0"
  shows "valid_address dynamic (freelist (kst s))" "powner s (freelist (kst s)) = None"
proof -
  from assms(1) obtain free where "bm.chain (mem (kst s)) (freelist (kst s)) free"
    and free: "set free = {p. valid_address dynamic p \<and> powner s p = None}"
    by (auto simp: list_ok_def)
  with assms(2) have "freelist (kst s) \<in> set free" by (cases free) auto
  with free show "valid_address dynamic (freelist (kst s))" "powner s (freelist (kst s)) = None"
    by simp_all
qed

lemma list_ok_owned: "list_ok dynamic s \<Longrightarrow> powner s p = Some h \<Longrightarrow> valid_address dynamic p"
  by (auto simp: list_ok_def)

lemma list_ok_cong:
  assumes l: "list_ok dynamic s"
    and same: "powner s' = powner s" "freelist (kst s') = freelist (kst s)"
    and m: "\<And>a. valid_address dynamic (PGROUNDDOWN a) \<Longrightarrow> powner s (PGROUNDDOWN a) = None \<Longrightarrow>
      mem (kst s') a = mem (kst s) a"
  shows "list_ok dynamic s'"
proof -
  from l obtain free where c: "bm.chain (mem (kst s)) (freelist (kst s)) free"
    and free: "set free = {p. valid_address dynamic p \<and> powner s p = None}"
    by (auto simp: list_ok_def)
  have "load64 (mem (kst s)) x = load64 (mem (kst s')) x" if "x \<in> set free" for x
    by (rule load64_same_page) (use that free m in \<open>auto simp: valid_address_aligned\<close>)
  then have "bm.chain (mem (kst s')) (freelist (kst s)) free"
    using c bm.chain_cong [of free "mem (kst s)" "mem (kst s')"] by blast
  with l free same show ?thesis by (auto simp: list_ok_def)
qed

text \<open>A step of hart \<open>h\<close> keeps what every other hart knows.\<close>

lemma pc_ok_frame:
  assumes inv: "par_inv dynamic s" and k: "k \<noteq> h"
    and ow: "\<And>q. powner s q = Some k \<Longrightarrow> powner s' q = Some k"
    and fl: "freelist (kst s') = freelist (kst s) \<or> in_lock (kpc s h)"
    and m: "\<And>a. valid_address dynamic (PGROUNDDOWN a) \<Longrightarrow> powner s (PGROUNDDOWN a) \<noteq> Some h \<Longrightarrow>
      mem (kst s') a = mem (kst s) a"
  shows "pc_ok dynamic s' k (kpc s k)"
proof -
  have lk: "lock_ok s" and li: "list_ok dynamic s" and pc: "pc_ok dynamic s k (kpc s k)"
    using inv by (auto simp: par_inv_def)
  have fl': "in_lock (kpc s k) \<Longrightarrow> freelist (kst s') = freelist (kst s)"
    using fl lock_ok_unique [OF lk, of h k] k by auto
  have own: "mem (kst s') a = mem (kst s) a" if "powner s (PGROUNDDOWN a) = Some k" for a
    using m [of a] that k list_ok_owned [OF li that] by auto
  have ld: "load64 (mem (kst s')) p = load64 (mem (kst s)) p" if "powner s p = Some k" for p
    by (rule load64_same_page) (use own that list_ok_owned [OF li that] in \<open>auto simp: valid_address_aligned\<close>)
  have ldh: "load64 (mem (kst s')) (freelist (kst s)) = load64 (mem (kst s)) (freelist (kst s))"
    if nz: "freelist (kst s) \<noteq> 0"
    by (rule load64_same_page)
       (use list_ok_head [OF li nz] in \<open>auto simp: valid_address_aligned intro: m\<close>)
  show ?thesis
  proof (cases "kpc s k")
    case (K_memset p i)
    have "mem (kst s') x = 0" if p: "p \<noteq> 0" and x: "uint (x - p) < i" for x
    proof -
      have ow: "powner s p = Some k" and i: "i \<le> 4096" and z: "mem (kst s) x = 0"
        using pc p x by (simp_all add: K_memset)
      then have "x - p < 4096" using x by (simp add: word_less_def)
      then have "PGROUNDDOWN x = p"
        using page_offset_iff [of p x] list_ok_owned [OF li ow] by (simp add: valid_address_aligned)
      with own ow z show ?thesis by simp
    qed
    with pc ow K_memset show ?thesis by simp
  qed (use pc fl' own ld ldh ow in auto)
qed

lemma par_inv_intro:
  assumes inv: "par_inv dynamic s" and k: "kpc s' = (kpc s)(h := pc)"
    and "lock_ok s'" "list_ok dynamic s'" "pc_ok dynamic s' h pc"
    and "\<And>q k. k \<noteq> h \<Longrightarrow> powner s q = Some k \<Longrightarrow> powner s' q = Some k"
    and "freelist (kst s') = freelist (kst s) \<or> in_lock (kpc s h)"
    and "\<And>a. valid_address dynamic (PGROUNDDOWN a) \<Longrightarrow> powner s (PGROUNDDOWN a) \<noteq> Some h \<Longrightarrow>
      mem (kst s') a = mem (kst s) a"
  shows "par_inv dynamic s'"
proof -
  have "pc_ok dynamic s' j (kpc s' j)" for j
    using assms pc_ok_frame [OF inv, of j h s'] by (cases "j = h") simp_all
  with assms show ?thesis by (simp add: par_inv_def)
qed

text \<open>Most steps change neither the list nor the owners.\<close>

lemma par_inv_local:
  assumes inv: "par_inv dynamic s" and k: "kpc s' = (kpc s)(h := pc)"
    and "lock_ok s'" "pc_ok dynamic s' h pc"
    and ow: "powner s' = powner s" and fl: "freelist (kst s') = freelist (kst s)"
    and m: "\<And>a. valid_address dynamic (PGROUNDDOWN a) \<Longrightarrow> powner s (PGROUNDDOWN a) \<noteq> Some h \<Longrightarrow>
      mem (kst s') a = mem (kst s) a"
  shows "par_inv dynamic s'"
proof (rule par_inv_intro [OF inv k])
  show "list_ok dynamic s'"
    by (rule list_ok_cong [of _ s]) (use inv ow fl in \<open>auto simp: par_inv_def intro: m\<close>)
qed (use assms in auto)

section \<open>Every step keeps the invariant\<close>

lemma memset_step_inv:
  assumes inv: "par_inv dynamic s" and pc: "kpc s h = K_memset p i"
  shows "par_inv dynamic (memset_step h p i s)"
proof -
  have lk: "lock_ok s" and li: "list_ok dynamic s" and ok: "pc_ok dynamic s h (K_memset p i)"
    using inv pc by (auto simp: par_inv_def dest: spec [of _ h])
  have psz: "uint PAGE_SIZE = 4096" by (simp add: layout_defs)
  consider "\<not> i < 4096" | "i < 4096" "p = 0" | "i < 4096" "p \<noteq> 0" by auto
  then show ?thesis
  proof cases
    case 1
    with ok have p: "powner s p = Some h" "i = 4096" "p \<noteq> 0" by auto
    then have al: "take_bit 12 p = 0" using list_ok_owned [OF li p(1)] by (simp add: valid_address_aligned)
    have "pc_ok dynamic s h (K_return p)"
      using ok p page_offset_iff [OF al] by (auto simp: word_less_def)
    with 1 p show ?thesis
      by (intro par_inv_local [OF inv, where h = h and pc = "K_return p"])
         (auto simp: memset_step_def psz pc lk)
  next
    case 2
    then show ?thesis
      by (intro par_inv_local [OF inv, where h = h and pc = Halted])
         (auto simp: memset_step_def psz pc lk)
  next
    case 3
    let ?m = "(mem (kst s))(p + word_of_int i := 0)"
    have i: "0 \<le> i" and p: "powner s p = Some h" using ok 3 by auto
    have al: "take_bit 12 p = 0" using list_ok_owned [OF li p] by (simp add: valid_address_aligned)
    have "(word_of_int i :: uint64) < 4096" using 3 i by (simp add: word_less_def take_bit_int_eq_self uint_word_of_int_eq)
    then have pg: "PGROUNDDOWN (p + word_of_int i) = p" using page_offset_iff [OF al, of "p + word_of_int i"] by simp
    have "?m x = 0" if "uint (x - p) < i + 1" for x
    proof (cases "uint (x - p) < i")
      case True
      with ok 3 show ?thesis by simp
    next
      case False
      with that have "uint (x - p) = i" by simp
      then have "word_of_int i = x - p" by (metis word_of_int_uint)
      then show ?thesis by simp
    qed
    with 3 p i pg show ?thesis
      by (intro par_inv_local [OF inv, where h = h and pc = "K_memset p (i + 1)"])
         (auto simp: memset_step_def psz pc lk split: if_splits)
  qed
qed

text \<open>Taking the head of the list and putting a page in front of it.\<close>

lemma list_ok_take:
  assumes l: "list_ok dynamic s" and p: "p \<noteq> 0" "p = freelist (kst s)"
  shows "list_ok dynamic (set_owner p (Some h) (set_kst (freelist_update (\<lambda>_. load64 (mem (kst s)) p)) s))"
proof -
  from l obtain free where c: "bm.chain (mem (kst s)) p free"
    and free: "set free = {p. valid_address dynamic p \<and> powner s p = None}"
    by (auto simp: list_ok_def p)
  with p(1) obtain rest where r: "free = p # rest" "bm.chain (mem (kst s)) (load64 (mem (kst s)) p) rest"
    by (cases free) auto
  have "p \<notin> set rest" using bm.chain_distinct [OF c] r(1) by simp
  then have "set rest = {q. valid_address dynamic q \<and> ((powner s)(p := Some h)) q = None}"
    using free r(1) by auto
  with l r(2) free r(1) show ?thesis by (auto simp: list_ok_def)
qed

lemma list_ok_put:
  assumes l: "list_ok dynamic s" and v: "valid_address dynamic p" "p \<noteq> 0"
    and n: "load64 (mem (kst s)) p = freelist (kst s)"
  shows "list_ok dynamic (set_owner p None (set_kst (freelist_update (\<lambda>_. p)) s))"
proof -
  from l obtain free where c: "bm.chain (mem (kst s)) (freelist (kst s)) free"
    and free: "set free = {p. valid_address dynamic p \<and> powner s p = None}"
    by (auto simp: list_ok_def)
  have "bm.chain (mem (kst s)) p (p # free)" using c v n by simp
  moreover have "set (p # free) = {q. valid_address dynamic q \<and> ((powner s)(p := None)) q = None}"
    using free v by auto
  moreover have "\<forall>q h. ((powner s)(p := None)) q = Some h \<longrightarrow> valid_address dynamic q"
    using list_ok_owned [OF l] by auto
  ultimately show ?thesis unfolding list_ok_def by (intro conjI exI [of _ "p # free"]) simp_all
qed

lemma kmalloc_step_inv:
  assumes inv: "par_inv dynamic s"
  shows "par_inv dynamic (kmalloc_step h s)"
proof -
  have lk: "lock_ok s" and li: "list_ok dynamic s" and ok: "pc_ok dynamic s h (kpc s h)"
    using inv by (auto simp: par_inv_def)
  show ?thesis
  proof (cases "kpc s h")
    case K_acquire
    show ?thesis
    proof (cases "acquire (kmem_lk (kst s))")
      case (Inr l)
      then have "lock_ok (jump h K_head (set_kst (kmem_lk_update (\<lambda>_. l)) s))"
        by (intro lock_ok_acquire [OF lk]) simp_all
      with Inr K_acquire show ?thesis
        by (intro par_inv_local [OF inv, where h = h and pc = K_head]) (simp_all add: kmalloc_step_def)
    qed (use inv K_acquire in \<open>simp add: kmalloc_step_def\<close>)
  next
    case K_head
    then show ?thesis
      by (intro par_inv_local [OF inv, where h = h and pc = "K_test (freelist (kst s))"])
         (simp_all add: kmalloc_step_def lk)
  next
    case (K_test p)
    then show ?thesis using ok
      by (intro par_inv_local [OF inv, where h = h and pc = "if p \<noteq> 0 then K_next p else K_release p"])
         (simp_all add: kmalloc_step_def lk)
  next
    case (K_next p)
    then show ?thesis using ok
      by (intro par_inv_local [OF inv, where h = h and pc = "K_set p (load64 (mem (kst s)) p)"])
         (auto simp: kmalloc_step_def lk)
  next
    case (K_set p n)
    with ok have p: "p \<noteq> 0" "p = freelist (kst s)" and n: "n = load64 (mem (kst s)) p" by auto
    have "powner s p = None" using list_ok_head(2) [OF li] p by simp
    with K_set n show ?thesis
      using list_ok_take [OF li p, of h] lk
      by (intro par_inv_intro [OF inv, where h = h and pc = "K_release p"])
         (auto simp: kmalloc_step_def list_ok_def)
  next
    case (K_release p)
    then have "lock_ok (jump h (K_memset p 0) (set_kst (kmem_lk_update release) s))"
      by (intro lock_ok_release [OF lk]) simp_all
    with K_release ok show ?thesis
      by (intro par_inv_local [OF inv, where h = h and pc = "K_memset p 0"])
         (auto simp: kmalloc_step_def)
  next
    case (K_memset p i)
    then show ?thesis using memset_step_inv [OF inv K_memset] by (simp add: kmalloc_step_def)
  next
    case (K_return p)
    then show ?thesis
      by (intro par_inv_local [OF inv, where h = h and pc = Idle]) (simp_all add: kmalloc_step_def lk)
  qed (use inv in \<open>simp_all add: kmalloc_step_def\<close>)
qed

lemma kfree_step_inv:
  assumes inv: "par_inv dynamic s" and lo: "linker_ok dynamic"
  shows "par_inv dynamic (kfree_step dynamic h s)"
proof -
  have lk: "lock_ok s" and li: "list_ok dynamic s" and ok: "pc_ok dynamic s h (kpc s h)"
    using inv by (auto simp: par_inv_def)
  show ?thesis
  proof (cases "kpc s h")
    case (F_check p)
    then show ?thesis using ok
      by (intro par_inv_local [OF inv, where h = h
            and pc = "if valid_address dynamic p then F_acquire p else Halted"])
         (auto simp: kfree_step_def lk)
  next
    case (F_acquire p)
    show ?thesis
    proof (cases "acquire (kmem_lk (kst s))")
      case (Inr l)
      then have "lock_ok (jump h (F_read p) (set_kst (kmem_lk_update (\<lambda>_. l)) s))"
        by (intro lock_ok_acquire [OF lk]) simp_all
      with Inr F_acquire ok show ?thesis
        by (intro par_inv_local [OF inv, where h = h and pc = "F_read p"]) (simp_all add: kfree_step_def)
    qed (use inv F_acquire in \<open>simp add: kfree_step_def\<close>)
  next
    case (F_read p)
    then show ?thesis using ok
      by (intro par_inv_local [OF inv, where h = h and pc = "F_next p (freelist (kst s))"])
         (simp_all add: kfree_step_def lk)
  next
    case (F_next p v)
    with ok have p: "powner s p = Some h" "v = freelist (kst s)" by auto
    have al: "take_bit 12 p = 0" using list_ok_owned [OF li p(1)] by (simp add: valid_address_aligned)
    have "store64 m p v a = m a" if "powner s (PGROUNDDOWN a) \<noteq> Some h" for m a
    proof (rule store64_other)
      have "\<not> a - p < 4096" using page_offset_iff [OF al, of a] that p(1) by auto
      then show "\<not> a - p < 8" by (auto simp: not_less intro: order_trans [rotated])
    qed
    with F_next p show ?thesis
      by (intro par_inv_local [OF inv, where h = h and pc = "F_head p"])
         (auto simp: kfree_step_def lk)
  next
    case (F_head p)
    with ok have p: "powner s p = Some h" and n: "load64 (mem (kst s)) p = freelist (kst s)" by auto
    note v = list_ok_owned [OF li p]
    show ?thesis
      using list_ok_put [OF li v valid_address_nonzero [OF lo v] n] lk p F_head
      by (intro par_inv_intro [OF inv, where h = h and pc = F_release])
         (auto simp: kfree_step_def list_ok_def)
  next
    case F_release
    then have "lock_ok (jump h Idle (set_kst (kmem_lk_update release) s))"
      by (intro lock_ok_release [OF lk]) simp_all
    with F_release show ?thesis
      by (intro par_inv_local [OF inv, where h = h and pc = Idle]) (auto simp: kfree_step_def)
  qed (use inv in \<open>simp_all add: kfree_step_def\<close>)
qed

lemma par_inv_init: "par_init dynamic s \<Longrightarrow> par_inv dynamic s"
  by (auto simp: par_init_def par_inv_def lock_ok_def list_ok_def free_set_def kmem_ok_def)

lemma par_inv_step:
  assumes "linker_ok dynamic" and inv: "par_inv dynamic s" and "par_step dynamic s s'"
  shows "par_inv dynamic s'"
  using assms(3)
proof cases
  case (call_kmalloc h)
  then show ?thesis using inv
    by (intro par_inv_local [OF inv, where h = h and pc = K_acquire]) (simp_all add: par_inv_def)
next
  case (call_kfree h p)
  then show ?thesis using inv
    by (intro par_inv_local [OF inv, where h = h and pc = "F_check p"]) (auto simp: par_inv_def)
next
  case (client_write h a b)
  then show ?thesis using inv
    by (intro par_inv_local [OF inv, where h = h and pc = Idle]) (auto simp: par_inv_def)
next
  case (hand_over h p k)
  have li: "list_ok dynamic s" using inv by (simp add: par_inv_def)
  have "{q. valid_address dynamic q \<and> ((powner s)(p := Some k)) q = None} =
      {q. valid_address dynamic q \<and> powner s q = None}" using hand_over by auto
  then have "list_ok dynamic s'" using li list_ok_owned [OF li] hand_over by (auto simp: list_ok_def)
  then show ?thesis using inv hand_over
    by (intro par_inv_intro [OF inv, where h = h and pc = Idle]) (auto simp: par_inv_def)
qed (use assms kmalloc_step_inv kfree_step_inv in auto)

lemma par_inv_reach: "kp.reach dynamic s \<Longrightarrow> linker_ok dynamic \<and> par_inv dynamic s"
  by (erule kp.reach_invariant) (auto simp: par_init_def par_inv_init intro: par_inv_step)

lemma par_reachD:
  assumes "kp.reach dynamic s"
  shows "linker_ok dynamic" "lock_ok s" "list_ok dynamic s" "pc_ok dynamic s h (kpc s h)"
  using par_inv_reach [OF assms] by (simp_all add: par_inv_def)

section \<open>Refinement of a map from pages to owners\<close>

text \<open>The specification: a free page is given to a hart, given back, or handed over.\<close>

inductive page_step :: "uint64 \<Rightarrow> (uint64 \<Rightarrow> nat option) \<Rightarrow> (uint64 \<Rightarrow> nat option) \<Rightarrow> bool"
  for dynamic where
  give: "valid_address dynamic p \<Longrightarrow> ow p = None \<Longrightarrow> page_step dynamic ow (ow(p := Some h))"
| give_back: "ow p = Some h \<Longrightarrow> page_step dynamic ow (ow(p := None))"
| pass_on: "ow p = Some h \<Longrightarrow> page_step dynamic ow (ow(p := Some k))"

interpretation ps: transition_system "\<lambda>ow. ow = Map.empty" "page_step dynamic" for dynamic .

lemma kmalloc_step_owner:
  assumes "list_ok dynamic s" "pc_ok dynamic s h (kpc s h)"
  shows "powner (kmalloc_step h s) = powner s \<or> page_step dynamic (powner s) (powner (kmalloc_step h s))"
proof (cases "\<exists>p n. kpc s h = K_set p n")
  case True
  then obtain p n where pc: "kpc s h = K_set p n" by blast
  with assms have "valid_address dynamic p" "powner s p = None"
    using list_ok_head [OF assms(1)] by auto
  then have "page_step dynamic (powner s) ((powner s)(p := Some h))" by (rule page_step.give)
  then show ?thesis by (simp add: kmalloc_step_def pc)
qed (auto simp: kmalloc_step_def memset_step_def split: kmem_pc.splits sum.splits)

lemma kfree_step_owner:
  assumes "pc_ok dynamic s h (kpc s h)"
  shows "powner (kfree_step dynamic h s) = powner s \<or>
    page_step dynamic (powner s) (powner (kfree_step dynamic h s))"
proof (cases "\<exists>p. kpc s h = F_head p")
  case True
  then obtain p where pc: "kpc s h = F_head p" by blast
  with assms have "powner s p = Some h" by simp
  then have "page_step dynamic (powner s) ((powner s)(p := None))" by (rule page_step.give_back)
  then show ?thesis by (simp add: kfree_step_def pc)
qed (auto simp: kfree_step_def split: kmem_pc.splits sum.splits)

interpretation ks: simulation "par_init dynamic" "par_step dynamic" "\<lambda>ow. ow = Map.empty"
  "page_step dynamic" powner for dynamic
proof
  fix s assume "par_init dynamic s"
  then show "powner s = Map.empty" by (simp add: par_init_def)
next
  fix s s'
  assume r: "kp.reach dynamic s" and st: "par_step dynamic s s'"
  note own = kmalloc_step_owner [OF par_reachD(3) [OF r] par_reachD(4) [OF r]]
    kfree_step_owner [OF par_reachD(4) [OF r]]
  from st show "powner s' = powner s \<or> page_step dynamic (powner s) (powner s')"
    by cases (use own in \<open>auto intro: page_step.pass_on\<close>)
qed

section \<open>What a caller gets\<close>

lemma kmalloc_result:
  assumes r: "kp.reach dynamic s" and h: "kpc s h = K_return p"
  shows "valid_address dynamic p" "powner s p = Some h" "PGROUNDDOWN x = p \<Longrightarrow> mem (kst s) x = 0"
proof -
  have "pc_ok dynamic s h (kpc s h)" using r by (rule par_reachD)
  with h show "powner s p = Some h" "PGROUNDDOWN x = p \<Longrightarrow> mem (kst s) x = 0" by auto
  then show "valid_address dynamic p" using list_ok_owned [OF par_reachD(3) [OF r]] by blast
qed

lemma free_list_unowned:
  assumes "kp.reach dynamic s" "bm.chain (mem (kst s)) (freelist (kst s)) free"
  shows "set free = {p. valid_address dynamic p \<and> powner s p = None}"
proof -
  from par_reachD(3) [OF assms(1)] obtain free'
    where "bm.chain (mem (kst s)) (freelist (kst s)) free'"
      "set free' = {p. valid_address dynamic p \<and> powner s p = None}"
    by (auto simp: list_ok_def)
  with bm.chain_functional [OF assms(2)] show ?thesis by blast
qed

section \<open>A hart that runs alone\<close>

lemma funpow_trans: "(f ^^ n) s = t \<Longrightarrow> (f ^^ m) t = u \<Longrightarrow> (f ^^ (m + n)) s = u"
  by (simp add: funpow_add)

lemma memset_loop_Suc:
  "memset_loop m p c (int (Suc n)) = (memset_loop m p c (int n))(p + of_nat n := c)"
  by (simp add: memset_loop_def nat_add_distrib del: of_nat_Suc)

lemma memset_run:
  assumes "p \<noteq> 0" "n \<le> 4096"
  shows "(kmalloc_step h ^^ n) (jump h (K_memset p 0) s) =
    jump h (K_memset p (int n)) (set_kst (mem_update (\<lambda>m. memset_loop m p 0 (int n))) s)"
  using assms(2)
proof (induction n)
  case 0
  then show ?case by (simp add: set_kst_def memset_loop_def)
next
  case (Suc n)
  have "uint PAGE_SIZE = 4096" by (simp add: layout_defs)
  then have "kmalloc_step h (jump h (K_memset p (int n)) (set_kst (mem_update (\<lambda>m. memset_loop m p 0 (int n))) s)) =
      jump h (K_memset p (int (Suc n))) (set_kst (mem_update (\<lambda>m. memset_loop m p 0 (int (Suc n)))) s)"
    using assms(1) Suc.prems
    by (simp add: kmalloc_step_def memset_step_def jump_def set_kst_def memset_loop_Suc ac_simps del: of_nat_Suc)
       (simp add: ac_simps)
  with Suc show ?case by simp
qed

lemma kmalloc_alone:
  assumes pc: "kpc s h = K_acquire"
  shows "case kmalloc (kst s) of
      Inr (p, k) \<Rightarrow> \<exists>n. (kmalloc_step h ^^ n) s =
        s\<lparr>kst := k, powner := (powner s)(p := Some h), kpc := (kpc s)(h := K_return p)\<rparr>
    | Inl e \<Rightarrow> (e = Spin_forever \<and> kmalloc_step h s = s) \<or>
        (e = Null_deref \<and> (\<exists>n. kpc ((kmalloc_step h ^^ n) s) h = Halted))"
proof -
  have psz: "uint PAGE_SIZE = 4096" by (simp add: layout_defs)
  let ?p = "freelist (kst s)" and ?n = "load64 (mem (kst s)) (freelist (kst s))"
  consider "locked (kmem_lk (kst s)) \<noteq> 0" | "locked (kmem_lk (kst s)) = 0" "?p = 0"
    | "locked (kmem_lk (kst s)) = 0" "?p \<noteq> 0" by blast
  then show ?thesis
  proof cases
    case 1
    then show ?thesis by (simp add: kmalloc_def acquire_def kmalloc_step_def pc)
  next
    case 2
    have "kpc ((kmalloc_step h ^^ 5) s) h = Halted"
      using 2 pc by (simp add: eval_nat_numeral kmalloc_step_def memset_step_def psz)
    with 2 show ?thesis by (auto simp: kmalloc_def memset_def psz)
  next
    case 3
    let ?t = "set_owner ?p (Some h) (set_kst (freelist_update (\<lambda>_. ?n)) s)"
    have "(kmalloc_step h ^^ 6) s = jump h (K_memset ?p 0) ?t"
      using 3 pc
      by (simp add: eval_nat_numeral kmalloc_step_def)
    from funpow_trans [OF this memset_run [OF 3(2) order_refl]]
    have "(kmalloc_step h ^^ (4096 + 6)) s =
      jump h (K_memset ?p 4096) (set_kst (mem_update (\<lambda>m. memset_loop m ?p 0 4096)) ?t)" by simp
    moreover have "(kmalloc_step h ^^ 1) (jump h (K_memset ?p 4096) u) = jump h (K_return ?p) u" for u
      by (simp add: kmalloc_step_def memset_step_def psz jump_def)
    ultimately have "(kmalloc_step h ^^ (1 + (4096 + 6))) s =
      jump h (K_return ?p) (set_kst (mem_update (\<lambda>m. memset_loop m ?p 0 4096)) ?t)"
      by (rule funpow_trans) 
    moreover have "\<dots> = s\<lparr>kst := (kst s)\<lparr>mem := zero_page (mem (kst s)) ?p, freelist := ?n\<rparr>,
        powner := (powner s)(?p := Some h), kpc := (kpc s)(h := K_return ?p)\<rparr>"
      by (simp add: jump_def set_kst_def set_owner_def zero_page_def)
    ultimately show ?thesis using 3 by (auto simp: kmalloc_def memset_page psz Let_def)
  qed
qed

lemma kfree_alone:
  assumes pc: "kpc s h = F_check p"
  shows "case kfree dynamic p (kst s) of
      Inr k \<Rightarrow> \<exists>n. (kfree_step dynamic h ^^ n) s =
        s\<lparr>kst := k, powner := (powner s)(p := None), kpc := (kpc s)(h := Idle)\<rparr>
    | Inl (Panic msg) \<Rightarrow> kpc (kfree_step dynamic h s) h = Halted
    | Inl e \<Rightarrow> e = Spin_forever \<and> kfree_step dynamic h (kfree_step dynamic h s) = kfree_step dynamic h s"
proof -
  consider "\<not> valid_address dynamic p"
    | "valid_address dynamic p" "locked (kmem_lk (kst s)) \<noteq> 0"
    | "valid_address dynamic p" "locked (kmem_lk (kst s)) = 0" by blast
  then show ?thesis
  proof cases
    case 3
    have "(kfree_step dynamic h ^^ 6) s =
      s\<lparr>kst := (kst s)\<lparr>mem := store64 (mem (kst s)) p (freelist (kst s)), freelist := p\<rparr>,
        powner := (powner s)(p := None), kpc := (kpc s)(h := Idle)\<rparr>"
      using 3 pc
      by (simp add: eval_nat_numeral kfree_step_def)
    with 3 show ?thesis by (auto simp: kfree_def)
  qed (simp_all add: kfree_def acquire_def kfree_step_def pc)
qed

section \<open>Progress\<close>

text \<open>A hart inside the lock leaves it within five steps of its own.\<close>

lemma holder_releases:
  assumes "in_lock (kpc s h)"
  shows "\<exists>n \<le> 5. locked (kmem_lk (kst ((kmalloc_step h ^^ n) s))) = 0 \<or>
    locked (kmem_lk (kst ((kfree_step dynamic h ^^ n) s))) = 0"
proof -
  define n :: nat where "n = (case kpc s h of K_head \<Rightarrow> if freelist (kst s) = 0 then 3 else 5
    | K_test p \<Rightarrow> if p = 0 then 2 else 4 | K_next _ \<Rightarrow> 3
    | K_set _ _ \<Rightarrow> 2 | F_read _ \<Rightarrow> 4 | F_next _ _ \<Rightarrow> 3 | F_head _ \<Rightarrow> 2 | _ \<Rightarrow> 1)"
  have "n \<le> 5" by (simp add: n_def split: kmem_pc.splits)
  moreover have "locked (kmem_lk (kst ((kmalloc_step h ^^ n) s))) = 0 \<or>
      locked (kmem_lk (kst ((kfree_step dynamic h ^^ n) s))) = 0"
    using assms
    by (cases "kpc s h")
       (simp_all add: n_def eval_nat_numeral kmalloc_step_def kfree_step_def release_def)
  ultimately show ?thesis by blast
qed

lemma reach_kmalloc_steps: "kp.reach dynamic s \<Longrightarrow> kp.reach dynamic ((kmalloc_step h ^^ n) s)"
  by (induction n) (auto intro: kp.reach_step par_step.in_kmalloc)

text \<open>While a page is free and nobody is inside the lock, a hart that calls \<open>kmalloc\<close> gets one.\<close>

lemma kmalloc_succeeds:
  assumes r: "kp.reach dynamic s" and h: "kpc s h = Idle" and lk: "locked (kmem_lk (kst s)) = 0"
    and p: "valid_address dynamic q" "powner s q = None"
  shows "\<exists>s' p. kp.reach dynamic s' \<and> kpc s' = (kpc s)(h := K_return p) \<and>
    locked (kmem_lk (kst s')) = 0 \<and> powner s' = (powner s)(p := Some h)"
proof -
  let ?s = "jump h K_acquire s"
  have r1: "kp.reach dynamic ?s" using r h by (blast intro: kp.reach_step par_step.call_kmalloc)
  from par_reachD(3) [OF r] obtain free where c: "bm.chain (mem (kst s)) (freelist (kst s)) free"
    and free: "set free = {p. valid_address dynamic p \<and> powner s p = None}" by (auto simp: list_ok_def)
  have "kmem_ok dynamic (kst s) free" using c free lk by (simp add: kmem_ok_def)
  moreover have "free \<noteq> []" using p free by auto
  ultimately obtain p rest where ok: "kmem_ok dynamic (kst s) (p # rest)" by (cases free) auto
  note page = kmalloc_page [OF ok]
  from kmalloc_alone [of ?s h] page(1) obtain n where
    n: "(kmalloc_step h ^^ n) ?s = ?s\<lparr>kst := (kst s)\<lparr>mem := zero_page (mem (kst s)) p,
          freelist := load64 (mem (kst s)) p\<rparr>, powner := (powner s)(p := Some h),
        kpc := (kpc ?s)(h := K_return p)\<rparr>" by auto
  show ?thesis
    using reach_kmalloc_steps [OF r1, of n h] lk by (intro exI [of _ "(kmalloc_step h ^^ n) ?s"]) (auto simp: n)
qed

end
