(* ===== verification/Examples.thy ===== *)
theory Examples
  imports Main_Phases Keygrab Linker_Script Kmem_Parallel
begin

text \<open>
  Concrete states at which the general theorems are instantiated: a memory with three free pages
  threaded into the free list, an allocator state over it and two empty root tables, one of a
  virtual machine (Sv39x4, in the kernel image) and one of the kernel (Sv39); a linked image with the
  configured machines placed in it, and a state of the hypervisor in which both machines run.
\<close>

definition demo_dynamic :: uint64 where "demo_dynamic = 0xffffffc000200000"
definition demo_page1 :: uint64 where "demo_page1 = 0xffffffe000300000"
definition demo_page2 :: uint64 where "demo_page2 = 0xffffffe000301000"
definition demo_page3 :: uint64 where "demo_page3 = 0xffffffe000302000"
definition demo_root :: uint64 where "demo_root = 0xffffffc000100000"
definition demo_root2 :: uint64 where "demo_root2 = 0xffffffc000104000"

definition demo_mem :: memory where
  "demo_mem = store64 (store64 (\<lambda>_. 0) demo_page1 demo_page2) demo_page2 demo_page3"

definition demo_kmem :: kmem_state where
  "demo_kmem = \<lparr>mem = demo_mem, kmem_lk = LOCK_INITIALIZER, freelist = demo_page1\<rparr>"

definition demo_boot :: kmem_state where
  "demo_boot = \<lparr>mem = \<lambda>_. 0, kmem_lk = LOCK_INITIALIZER, freelist = 0\<rparr>"

lemmas demo_defs = demo_dynamic_def demo_page1_def demo_page2_def demo_page3_def demo_root_def
  demo_root2_def

lemma demo_linker_ok: "linker_ok demo_dynamic"
  by (simp add: linker_ok_def demo_defs layout_defs)

lemma load64_zero: "load64 (\<lambda>_. 0) a = 0"
  by (rule bit_word_eqI) (simp add: bit_load64)

lemma demo_load: "take_bit 3 a = 0 \<Longrightarrow> load64 demo_mem a =
    (if a = demo_page2 then demo_page3 else if a = demo_page1 then demo_page2 else 0)"
  by (simp add: demo_mem_def load64_zero demo_defs)

lemma demo_kmem_ok: "kmem_ok demo_dynamic demo_kmem [demo_page1, demo_page2, demo_page3]"
proof -
  have "valid_address demo_dynamic p" if "p \<in> {demo_page1, demo_page2, demo_page3}" for p
    using that by (auto simp: valid_address_iff KVA2KPA_def layout_defs demo_defs)
  moreover have "load64 demo_mem demo_page1 = demo_page2" "load64 demo_mem demo_page2 = demo_page3"
    "load64 demo_mem demo_page3 = 0"
    by (simp_all add: demo_load demo_page1_def demo_page2_def demo_page3_def)
  ultimately show ?thesis
    by (simp add: kmem_ok_def demo_kmem_def LOCK_INITIALIZER_def demo_defs)
qed

abbreviation demo_free :: "uint64 set" where
  "demo_free \<equiv> {demo_page1, demo_page2, demo_page3}"

lemma demo_free_set: "free_set demo_dynamic demo_kmem demo_free"
  using demo_kmem_ok by (auto simp: free_set_def intro!: exI)

lemma demo_card: "card demo_free = 3"
  by (simp add: demo_defs)

lemma demo_pt_state_at:
  assumes r: "root \<in> {demo_root, demo_root2}"
  shows "pt_state demo_dynamic x4 root demo_kmem [root \<mapsto> []] demo_free"
proof -
  have al: "root \<noteq> 0" "take_bit (if x4 then 14 else 12) root = 0" "take_bit 14 root = 0"
    using r by (auto simp: demo_defs)
  have far: "drop_bit 14 (entry_addr root i) = drop_bit 14 root" if i: "i < entries x4 []" for i
  proof -
    have "8 * i < 2 ^ (if x4 then 14 else 12)" by (rule root_entry(3) [OF al(1,2) i])
    then have "8 * i < 2 ^ 14"
      by (auto simp: word_less_nat_alt split: if_splits)
    then show ?thesis by (simp add: entry_addr_def layout_defs aligned_add_drop_bit [OF al(3)])
  qed
  have away: "PGROUNDDOWN (entry_addr root i) \<notin> demo_free \<and> entry_addr root i \<notin> demo_free"
    if i: "i < entries x4 []" for i
  proof -
    have pg: "drop_bit 14 (PGROUNDDOWN a) = drop_bit 14 a" for a :: uint64
      by (rule bit_word_eqI) (auto simp: PGROUNDDOWN_def page_mask_eq bit_simps dest: bit_imp_le_length)
    have d: "drop_bit 14 a \<noteq> drop_bit 14 root" if "a \<in> demo_free" for a
      using that r by (auto simp: demo_defs)
    show ?thesis using d far [OF i] pg by metis
  qed
  have "pt_tree (load64 demo_mem) x4 root [root \<mapsto> []] demo_free"
    by (rule pt_tree_empty_root [OF al(1,2)])
       (use away root_entry(1) [OF al(1,2)] in \<open>auto simp: demo_load\<close>)
  then show ?thesis
    using demo_linker_ok demo_free_set by (simp add: pt_state_def demo_kmem_def)
qed

lemma demo_pt_state: "pt_state demo_dynamic True demo_root demo_kmem [demo_root \<mapsto> []] demo_free"
  by (rule demo_pt_state_at) simp

lemma demo_pt_state2: "pt_state demo_dynamic True demo_root2 demo_kmem [demo_root2 \<mapsto> []] demo_free"
  by (rule demo_pt_state_at) simp

lemma demo_tables_disjoint: "tables_disjoint True [demo_root \<mapsto> []] True [demo_root2 \<mapsto> []]"
proof -
  have "entry_addr demo_root i \<noteq> entry_addr demo_root2 j" if "i < 2048" "j < 2048" for i j
  proof -
    have b: "8 * i < 2 ^ 14" "8 * j < 2 ^ 14"
      using root_entry(3) [of demo_root True i] root_entry(3) [of demo_root2 True j] that
      by (simp_all add: demo_defs entries_def)
    have "take_bit 14 demo_root = 0" "take_bit 14 demo_root2 = 0" "demo_root \<noteq> demo_root2"
      by (simp_all add: demo_defs)
    with b show ?thesis
      using aligned_add_cancel [of 14 demo_root demo_root2 "8 * i" "8 * j"]
      by (auto simp: entry_addr_def layout_defs)
  qed
  then show ?thesis by (auto simp: tables_disjoint_def entries_def)
qed

text \<open>Nothing is mapped yet.\<close>

lemma demo_unmapped:
  assumes "root \<in> {demo_root, demo_root2}"
  shows "translation (load64 (mem demo_kmem)) True 2 root va = None"
proof (rule translation_empty_root)
  fix i assume i: "i < entries True []"
  from assms have al: "root \<noteq> 0" "take_bit (if True then 14 else 12) root = 0" by (auto simp: demo_defs)
  from demo_pt_state_at [OF assms, of True] have t: "pt_tree (load64 demo_mem) True root [root \<mapsto> []] demo_free"
    by (simp add: pt_state_def demo_kmem_def)
  from pt_tree_entry(2) [OF t _ i] have "PGROUNDDOWN (entry_addr root i) \<notin> demo_free" by simp
  then have "entry_addr root i \<notin> demo_free" by (auto simp: demo_defs PGROUNDDOWN_def layout_defs)
  moreover have "take_bit 3 (entry_addr root i) = 0" by (rule root_entry(1) [OF al i])
  ultimately show "load64 (mem demo_kmem) (entry_addr root i) = 0"
    by (simp add: demo_kmem_def demo_load)
qed

text \<open>Mapping one page: by its physical address, as a range, and as a fresh page.\<close>

lemma map_pages_one:
  "map_page root va pa fl x4 s = Inr (0, s') \<Longrightarrow> pa \<noteq> 0 \<Longrightarrow>
     map_pages root va pa 0x1000 fl x4 s = Inr (0, s')"
  by (simp add: map_pages_def map_pages_loop.simps [of root va pa] PGROUNDUP_def layout_defs)

lemma map_pages_one_fresh:
  "kmalloc s = Inr (q, s1) \<Longrightarrow> map_page root va (KPA2PA q) fl x4 s1 = Inr (0, s') \<Longrightarrow>
     map_pages root va 0 0x1000 fl x4 s = Inr (0, s')"
  by (simp add: map_pages_def map_pages_loop.simps [of root va 0] PGROUNDUP_def layout_defs)

lemma demo_map_page: "\<exists>s'. map_page demo_root 0x80100000 0x80300000 6 True demo_kmem = Inr (0, s')"
  by (rule map_page_total [OF demo_pt_state]) (simp_all add: demo_card demo_unmapped)

lemma demo_map_pages:
  "\<exists>s'. map_pages demo_root 0x80100000 0x80300000 0x1000 6 True demo_kmem = Inr (0, s')"
  using demo_map_page map_pages_one by fastforce

lemma demo_map_pages_fresh:
  "\<exists>s'. map_pages demo_root 0x80100000 0 0x1000 6 True demo_kmem = Inr (0, s')"
proof -
  obtain q s1 where q: "kmalloc demo_kmem = Inr (q, s1)"
    using ka.alloc_total [OF demo_free_set] by auto
  note st = pt_state_alloc [OF demo_pt_state q]
  have "card (demo_free - {q}) = 2" using st(2) by (simp add: card_Diff_singleton demo_card)
  moreover have "translation (load64 (mem s1)) True 2 demo_root 0x80100000 = None"
    by (simp add: st(3) demo_unmapped)
  ultimately obtain s' where "map_page demo_root 0x80100000 (KPA2PA q) 6 True s1 = Inr (0, s')"
    using map_page_total [OF st(1)] by (metis order_refl)
  with q show ?thesis using map_pages_one_fresh by blast
qed

section \<open>A linked image\<close>

definition demo_sizes :: section_sizes where
  "demo_sizes = \<lparr>boottext_size = 0x1000, bootdata_size = 0x20, bsp_size = 0x2000, text_size = 0x5a10,
     rodata_size = 0x64e, data_size = 0x14000, cpu_structs_size = 0x6000, vm_images_size = 0x9000\<rparr>"

abbreviation demo_linker :: linker where
  "demo_linker \<equiv> link_image demo_sizes"

lemma demo_sizes_ok: "sizes_ok demo_sizes"
  by (simp add: sizes_ok_def demo_sizes_def CPU_SIZE_eq layout_defs)

lemma demo_layout: "linker_layout demo_linker"
  by (rule link_image_layout [OF demo_sizes_ok])

lemma demo_linker_eq: "demo_linker = \<lparr>text_start = 0xffffffc000104000, etext = 0xffffffc000109a10,
    rodata = 0xffffffc00010a000, erodata = 0xffffffc00010a64e, data_start = 0xffffffc00010b000,
    edata = 0xffffffc00011f000, cpu_structs = 0xffffffc00011f000, dynamic_start = 0xffffffc00012e000\<rparr>"
  by (simp add: link_image_def placed_sections_def Let_def boot_offset_def boot_section_def demo_sizes_def
      kernel_base_def phys_base_sym_def PA2KVA_def PGROUNDUP_def layout_defs)

lemma demo_small: "koff (dynamic_start demo_linker) \<le> 0xC000000"
  by (simp add: demo_linker_eq koff_def)

text \<open>The allocator after its initialisation.\<close>

definition demo_ready :: kmem_state where
  "demo_ready = init_kmem (dynamic_start demo_linker) demo_boot"

lemma demo_ready_free:
  "free_set (dynamic_start demo_linker) demo_ready {p. valid_address (dynamic_start demo_linker) p}"
proof -
  have "linker_ok (dynamic_start demo_linker)" using demo_layout by (simp add: linker_layout_def)
  from init_kmem_ok [OF this, of demo_boot] show ?thesis
    by (auto simp: free_set_def demo_ready_def demo_boot_def LOCK_INITIALIZER_def)
qed

lemma demo_ready_card: "0xC000 \<le> card {p. valid_address (dynamic_start demo_linker) p}"
  using free_pages [OF demo_layout] by (simp add: demo_linker_eq koff_def)

text \<open>The configured machines, with root tables in the data section.\<close>

definition demo_config :: "vm_config list" where
  "demo_config = config_table 0xffffffc000125000 0xffffffc000127c00 0xffffffc000128000 0xffffffc00012ac00
     0xffffffc00010c000 0xffffffc000114000"

lemma demo_placed: "vm \<in> set demo_config \<Longrightarrow> vm_placed vm"
proof -
  assume vm: "vm \<in> set demo_config"
  then have "image_size vm \<le> 0x1000000" "image_base vm \<noteq> 0"
    by (auto simp: demo_config_def config_table_def image_size_def KVA2PA_def PGROUNDUP_def layout_defs)
  with vm show ?thesis
    unfolding demo_config_def by (rule vm_placed_configured) (simp add: layout_defs)
qed

lemma demo_config_members: "demo_config ! 0 \<in> set demo_config" "demo_config ! 1 \<in> set demo_config"
  by (simp_all add: demo_config_def config_table_def)

lemma demo_images: "vm_pgtable (demo_config ! 0) \<noteq> vm_pgtable (demo_config ! 1)"
  by (simp add: demo_config_def config_table_def)

lemma demo_affinity: "map cpu_affinity demo_config = [1, 2]"
  by (simp add: demo_config_def config_table_def)

lemma demo_checked: "check_cpu_configuration demo_config = Inr ()"
proof -
  have "{k. bit (1 :: uint64) k} = {0}" "{k. bit (2 :: uint64) k} = {1}"
    by (auto simp: bit_1_iff bit_2_iff)
  then have "count_set_bits 1 = 1" "count_set_bits 2 = 1"
    by (simp_all add: count_set_bits_popcount popcount_harts)
  then show ?thesis
    by (simp add: check_cpu_configuration_def demo_config_def config_table_def upt_rec layout_defs Let_def)
qed

lemma demo_devices:
  "devices (demo_config ! 0) = vm0_devices" "devices (demo_config ! Suc 0) = vm1_devices"
  "length demo_config = 2"
  by (simp_all add: demo_config_def config_table_def)

section \<open>A running system\<close>

definition demo_csr :: csr_file where
  "demo_csr = \<lparr>sstatus = 0, sie = 0, stvec = 0, sscratch = 0, sepc = 0x80100040, satp = 0, stimecmp = 0, hgatp = 0,
     hstatus = 0, hedeleg = 0, hideleg = 0, hvip = 0, hip = 0, hie = 0, hgeie = 0, hcounteren = 0,
     htimedelta = 0, htval = 0, htinst = 0, henvcfg = 0, vsstatus = 0, vsip = 0, vsie = 0, vstvec = 0,
     vsscratch = 0, vsepc = 0, vscause = 0, vstval = 0, vsatp = 0, vstimecmp = 0, time = 5\<rparr>"

text \<open>Hart 0 runs the first machine and hart 1 the second, with a given state of the controller.\<close>

definition demo_hv :: "'d \<Rightarrow> 'd hv" where
  "demo_hv d =
     \<lparr>kmem = demo_kmem, config = demo_config,
      vcpus = [\<lparr>vhartid = 0, last_claimed_irq_id = 0, conf = 0, regs = replicate 32 0\<rparr>,
               \<lparr>vhartid = 0, last_claimed_irq_id = 0, conf = 1, regs = replicate 32 0\<rparr>],
      csr = demo_csr, plic = d\<rparr>"

lemma demo_hv_simps [simp]: "plic (demo_hv d) = d" "length (vcpus (demo_hv d)) = 2"
  by (simp_all add: demo_hv_def)

lemma demo_hv_wf: "hv_wf (demo_hv d)"
  by (simp add: hv_wf_def vcpu_wf_def demo_hv_def layout_defs demo_devices)

lemma demo_devs: "devs_of 0 (demo_hv d) = vm0_devices" "devs_of 1 (demo_hv d) = vm1_devices"
  by (simp_all add: devs_of_def demo_hv_def demo_devices)

lemma demo_contexts: "vctx_of 0 (demo_hv d) = 1" "vctx_of 1 (demo_hv d) = 1" "pctx_of 0 = 1" "pctx_of 1 = 3"
  by (simp_all add: vctx_of_def pctx_of_def demo_hv_def int_of_u64_def)

text \<open>The uninitialised local structure of the fault handlers, with some content.\<close>

definition demo_instr :: instr where
  "demo_instr = \<lparr>opcode = 0x13, rd = 7, funct3 = 1, addr_offset = 3, rs2 = 9, addr = 0xdead\<rparr>"

text \<open>A controller that hands out a list of interrupts, and a guest's serial port.\<close>

definition pending_list :: "uint32 list mmio" where
  "pending_list = \<lparr>mmio_read = (\<lambda>d a. case d of [] \<Rightarrow> (0, []) | x # xs \<Rightarrow> (x, xs)), mmio_write = (\<lambda>d a v. d)\<rparr>"

definition guest_slow_port :: "nat \<Rightarrow> ns16550 byte_dev" where
  "guest_slow_port k =
     \<lparr>byte_read = (\<lambda>u a. (if ns_busy u = 0 then 0x60 else 0, u\<lparr>ns_busy := ns_busy u - 1\<rparr>)),
      byte_write = (\<lambda>u a v. ns_write (a - GUEST_DTB_SERIAL) v k u)\<rparr>"

lemma guest_slow_port_hw: "uart_hw (guest_port (guest_slow_port k)) id (\<lambda>_. k)"
  by (auto simp: uart_hw_def guest_slow_port_def guest_port_def bit_iff_odd)

definition demo_port :: ns16550 where
  "demo_port = \<lparr>ns_ier = 0, ns_lcr = 3, ns_fcr = 0, ns_mcr = 0, ns_divisor = 0, ns_busy = 0, ns_sent = []\<rparr>"

definition demo_board :: "(ns16550, pci_func) board" where
  "demo_board = \<lparr>bkmem = demo_boot, uart_lk = LOCK_INITIALIZER, printf_lk = LOCK_INITIALIZER, uart_d = demo_port,
     pci_d = \<lparr>command = 0, io_bar = 0\<rparr>, cpu_mapped = 0\<rparr>"

definition demo_hart :: hart where
  "demo_hart = \<lparr>hcsr = demo_csr, hsp = 0, hfp = cpus demo_linker 0 + 0x2f10, hmem = \<lambda>_. 0\<rparr>"

lemma demo_board_fresh: "fresh_board demo_board"
  by (simp add: fresh_board_def demo_board_def demo_boot_def LOCK_INITIALIZER_def)

lemma demo_port_dlab: "\<not> dlab demo_port"
  by (simp add: dlab_def demo_port_def bit_iff_odd)

section \<open>Two harts in the allocator\<close>

definition demo_par :: kmem_par where
  "demo_par = \<lparr>kst = init_kmem demo_dynamic demo_boot, kpc = \<lambda>_. Idle, powner = Map.empty\<rparr>"

lemma demo_par_init: "par_init demo_dynamic demo_par" "locked (kmem_lk (kst demo_par)) = 0"
  using init_kmem_ok [OF demo_linker_ok, of demo_boot] demo_linker_ok
  by (auto simp: demo_par_def par_init_def free_set_def kmem_ok_def demo_boot_def LOCK_INITIALIZER_def)

lemma demo_two_calls:
  "\<exists>s p q. kp.reach demo_dynamic s \<and> kpc s 0 = K_return p \<and> kpc s 1 = K_return q"
proof -
  have v: "valid_address demo_dynamic demo_page1" "valid_address demo_dynamic demo_page2"
    using demo_kmem_ok by (auto simp: kmem_ok_def)
  have ne: "demo_page1 \<noteq> demo_page2" by (simp add: demo_defs)
  have "kp.reach demo_dynamic demo_par" by (rule kp.reach_init [OF demo_par_init(1)])
  from kmalloc_succeeds [OF this _ demo_par_init(2) v(1), of 0] obtain s p where
    s: "kp.reach demo_dynamic s" "kpc s = (kpc demo_par)(0 := K_return p)" "locked (kmem_lk (kst s)) = 0"
      "powner s = (powner demo_par)(p := Some 0)"
    by (auto simp: demo_par_def)
  define q where "q = (if p = demo_page1 then demo_page2 else demo_page1)"
  have "valid_address demo_dynamic q" "powner s q = None" "kpc s 1 = Idle"
    using v ne s(2,4) by (auto simp: q_def demo_par_def)
  from kmalloc_succeeds [OF s(1) this(3) s(3) this(1,2)] s(2) show ?thesis by auto
qed

end
