(* ===== verification/Sbi.thy ===== *)
theory Sbi
  imports Prelude
begin

text \<open>
  The calls to the machine-mode firmware, \<^verbatim>\<open>src/src/lib/sbi.c\<close> and \<^verbatim>\<open>src/src/include/sbi.h\<close>. The
  firmware is a parameter: a function from its state and the argument registers at the \<^verbatim>\<open>ecall\<close> to
  the registers \<^verbatim>\<open>a0\<close> and \<^verbatim>\<open>a1\<close> on return.

  The lemma \<open>sbi_calls_decode\<close> compares the wrappers with the numbering of the SBI specification: a
  firmware that dispatches on the extension and function numbers runs, for each wrapper, the
  function the wrapper is named after, with the wrapper's arguments in order.
\<close>

section \<open>The calling convention\<close>

record sbi_regs =
  reg_a0 :: uint64
  reg_a1 :: uint64
  reg_a2 :: uint64
  reg_a3 :: uint64
  reg_a4 :: uint64
  reg_a5 :: uint64
  reg_a6 :: uint64
  reg_a7 :: uint64

record sbiret =
  sbi_error :: uint64
  sbi_value :: uint64

type_synonym 's firmware = "'s \<Rightarrow> sbi_regs \<Rightarrow> uint64 \<times> uint64 \<times> 's"

definition sbi_ecall ::
  "'s firmware \<Rightarrow> uint64 \<Rightarrow> uint64 \<Rightarrow> uint64 \<Rightarrow> uint64 \<Rightarrow> uint64 \<Rightarrow> uint64 \<Rightarrow> uint64 \<Rightarrow> uint64 \<Rightarrow>
   's \<Rightarrow> sbiret \<times> 's" where
  "sbi_ecall ecall eid fid a0 a1 a2 a3 a4 a5 s =
     (let (ra0, ra1, s) = ecall s \<lparr>reg_a0 = a0, reg_a1 = a1, reg_a2 = a2, reg_a3 = a3, reg_a4 = a4,
            reg_a5 = a5, reg_a6 = fid, reg_a7 = eid\<rparr>
      in (\<lparr>sbi_error = ra0, sbi_value = ra1\<rparr>, s))"

section \<open>The calls\<close>

definition sbi_get_spec_version :: "'s firmware \<Rightarrow> 's \<Rightarrow> sbiret \<times> 's" where
  "sbi_get_spec_version ecall = sbi_ecall ecall 0x10 0 0 0 0 0 0 0"

definition sbi_get_impl_id :: "'s firmware \<Rightarrow> 's \<Rightarrow> sbiret \<times> 's" where
  "sbi_get_impl_id ecall = sbi_ecall ecall 0x10 1 0 0 0 0 0 0"

definition sbi_get_impl_version :: "'s firmware \<Rightarrow> 's \<Rightarrow> sbiret \<times> 's" where
  "sbi_get_impl_version ecall = sbi_ecall ecall 0x10 2 0 0 0 0 0 0"

definition sbi_probe_extension :: "'s firmware \<Rightarrow> uint64 \<Rightarrow> 's \<Rightarrow> sbiret \<times> 's" where
  "sbi_probe_extension ecall extension_id = sbi_ecall ecall 0x10 3 extension_id 0 0 0 0 0"

definition sbi_get_mvendorid :: "'s firmware \<Rightarrow> 's \<Rightarrow> sbiret \<times> 's" where
  "sbi_get_mvendorid ecall = sbi_ecall ecall 0x10 4 0 0 0 0 0 0"

definition sbi_get_marchid :: "'s firmware \<Rightarrow> 's \<Rightarrow> sbiret \<times> 's" where
  "sbi_get_marchid ecall = sbi_ecall ecall 0x10 5 0 0 0 0 0 0"

definition sbi_get_mimpid :: "'s firmware \<Rightarrow> 's \<Rightarrow> sbiret \<times> 's" where
  "sbi_get_mimpid ecall = sbi_ecall ecall 0x10 6 0 0 0 0 0 0"

definition sbi_set_timer :: "'s firmware \<Rightarrow> uint64 \<Rightarrow> 's \<Rightarrow> sbiret \<times> 's" where
  "sbi_set_timer ecall stime_value = sbi_ecall ecall 0x54494D45 0 stime_value 0 0 0 0 0"

definition sbi_send_ipi :: "'s firmware \<Rightarrow> uint64 \<Rightarrow> uint64 \<Rightarrow> 's \<Rightarrow> sbiret \<times> 's" where
  "sbi_send_ipi ecall hart_mask hart_mask_base = sbi_ecall ecall 0x735049 0 hart_mask hart_mask_base 0 0 0 0"

definition sbi_remote_fence_i :: "'s firmware \<Rightarrow> uint64 \<Rightarrow> uint64 \<Rightarrow> 's \<Rightarrow> sbiret \<times> 's" where
  "sbi_remote_fence_i ecall hart_mask hart_mask_base = sbi_ecall ecall 0x52464e43 0 hart_mask hart_mask_base 0 0 0 0"

definition sbi_remote_sfence_vma :: "'s firmware \<Rightarrow> uint64 \<Rightarrow> uint64 \<Rightarrow> uint64 \<Rightarrow> uint64 \<Rightarrow> 's \<Rightarrow> sbiret \<times> 's" where
  "sbi_remote_sfence_vma ecall hart_mask hart_mask_base start_addr sz = sbi_ecall ecall 0x52464e43 1 hart_mask hart_mask_base start_addr sz 0 0"

definition sbi_remote_sfence_vma_asid :: "'s firmware \<Rightarrow> uint64 \<Rightarrow> uint64 \<Rightarrow> uint64 \<Rightarrow> uint64 \<Rightarrow> uint64 \<Rightarrow> 's \<Rightarrow> sbiret \<times> 's" where
  "sbi_remote_sfence_vma_asid ecall hart_mask hart_mask_base start_addr sz asid = sbi_ecall ecall 0x52464e43 2 hart_mask hart_mask_base start_addr sz asid 0"

definition sbi_remote_hfence_gvma_vmid :: "'s firmware \<Rightarrow> uint64 \<Rightarrow> uint64 \<Rightarrow> uint64 \<Rightarrow> uint64 \<Rightarrow> uint64 \<Rightarrow> 's \<Rightarrow> sbiret \<times> 's" where
  "sbi_remote_hfence_gvma_vmid ecall hart_mask hart_mask_base start_addr sz vmid = sbi_ecall ecall 0x52464e43 3 hart_mask hart_mask_base start_addr sz vmid 0"

definition sbi_remote_hfence_gvma :: "'s firmware \<Rightarrow> uint64 \<Rightarrow> uint64 \<Rightarrow> uint64 \<Rightarrow> uint64 \<Rightarrow> 's \<Rightarrow> sbiret \<times> 's" where
  "sbi_remote_hfence_gvma ecall hart_mask hart_mask_base start_addr sz = sbi_ecall ecall 0x52464e43 4 hart_mask hart_mask_base start_addr sz 0 0"

definition sbi_remote_hfence_vvma_asid :: "'s firmware \<Rightarrow> uint64 \<Rightarrow> uint64 \<Rightarrow> uint64 \<Rightarrow> uint64 \<Rightarrow> uint64 \<Rightarrow> 's \<Rightarrow> sbiret \<times> 's" where
  "sbi_remote_hfence_vvma_asid ecall hart_mask hart_mask_base start_addr sz asid = sbi_ecall ecall 0x52464e43 5 hart_mask hart_mask_base start_addr sz asid 0"

definition sbi_remote_hfence_vvma :: "'s firmware \<Rightarrow> uint64 \<Rightarrow> uint64 \<Rightarrow> uint64 \<Rightarrow> uint64 \<Rightarrow> 's \<Rightarrow> sbiret \<times> 's" where
  "sbi_remote_hfence_vvma ecall hart_mask hart_mask_base start_addr sz = sbi_ecall ecall 0x52464e43 6 hart_mask hart_mask_base start_addr sz 0 0"

definition sbi_hart_start :: "'s firmware \<Rightarrow> uint64 \<Rightarrow> uint64 \<Rightarrow> uint64 \<Rightarrow> 's \<Rightarrow> sbiret \<times> 's" where
  "sbi_hart_start ecall hartid start_addr opaque = sbi_ecall ecall 0x48534d 0 hartid start_addr opaque 0 0 0"

definition sbi_hart_stop :: "'s firmware \<Rightarrow> 's \<Rightarrow> sbiret \<times> 's" where
  "sbi_hart_stop ecall = sbi_ecall ecall 0x48534d 1 0 0 0 0 0 0"

definition sbi_hart_get_status :: "'s firmware \<Rightarrow> uint64 \<Rightarrow> 's \<Rightarrow> sbiret \<times> 's" where
  "sbi_hart_get_status ecall hartid = sbi_ecall ecall 0x48534d 2 hartid 0 0 0 0 0"

definition sbi_hart_suspend :: "'s firmware \<Rightarrow> uint32 \<Rightarrow> uint64 \<Rightarrow> uint64 \<Rightarrow> 's \<Rightarrow> sbiret \<times> 's" where
  "sbi_hart_suspend ecall suspend_type resume_addr opaque = sbi_ecall ecall 0x48534d 3 (ucast suspend_type) resume_addr opaque 0 0 0"

section \<open>The specification's numbering\<close>

datatype sbi_call =
    Get_spec_version
  | Get_impl_id
  | Get_impl_version
  | Probe_extension uint64
  | Get_mvendorid
  | Get_marchid
  | Get_mimpid
  | Set_timer uint64
  | Send_ipi uint64 uint64
  | Remote_fence_i uint64 uint64
  | Remote_sfence_vma uint64 uint64 uint64 uint64
  | Remote_sfence_vma_asid uint64 uint64 uint64 uint64 uint64
  | Remote_hfence_gvma_vmid uint64 uint64 uint64 uint64 uint64
  | Remote_hfence_gvma uint64 uint64 uint64 uint64
  | Remote_hfence_vvma_asid uint64 uint64 uint64 uint64 uint64
  | Remote_hfence_vvma uint64 uint64 uint64 uint64
  | Hart_start uint64 uint64 uint64
  | Hart_stop
  | Hart_get_status uint64
  | Hart_suspend uint64 uint64 uint64

text \<open>
  The dispatch of a firmware, after the tables of the SBI specification: extension \<^verbatim>\<open>0x10\<close> is the
  base extension, and the others are named by the ASCII codes of their names, \<^verbatim>\<open>TIME\<close>, \<^verbatim>\<open>sPI\<close>, \<^verbatim>\<open>RFNC\<close>
  and \<^verbatim>\<open>HSM\<close>.
\<close>

definition ascii_id :: "string \<Rightarrow> uint64" where
  "ascii_id name = fold (\<lambda>c w. push_bit 8 w OR of_char c) name 0"

definition sbi_dispatch :: "sbi_regs \<Rightarrow> sbi_call option" where
  "sbi_dispatch r =
     (let f = reg_a6 r; a = reg_a0 r; b = reg_a1 r; c = reg_a2 r; d = reg_a3 r; e = reg_a4 r in
      if reg_a7 r = 0x10 then
        if f = 0 then Some (Get_spec_version)
        else if f = 1 then Some (Get_impl_id)
        else if f = 2 then Some (Get_impl_version)
        else if f = 3 then Some (Probe_extension a)
        else if f = 4 then Some (Get_mvendorid)
        else if f = 5 then Some (Get_marchid)
        else if f = 6 then Some (Get_mimpid)
        else None
      else if reg_a7 r = ascii_id ''TIME'' then
        if f = 0 then Some (Set_timer a)
        else None
      else if reg_a7 r = ascii_id ''sPI'' then
        if f = 0 then Some (Send_ipi a b)
        else None
      else if reg_a7 r = ascii_id ''RFNC'' then
        if f = 0 then Some (Remote_fence_i a b)
        else if f = 1 then Some (Remote_sfence_vma a b c d)
        else if f = 2 then Some (Remote_sfence_vma_asid a b c d e)
        else if f = 3 then Some (Remote_hfence_gvma_vmid a b c d e)
        else if f = 4 then Some (Remote_hfence_gvma a b c d)
        else if f = 5 then Some (Remote_hfence_vvma_asid a b c d e)
        else if f = 6 then Some (Remote_hfence_vvma a b c d)
        else None
      else if reg_a7 r = ascii_id ''HSM'' then
        if f = 0 then Some (Hart_start a b c)
        else if f = 1 then Some (Hart_stop)
        else if f = 2 then Some (Hart_get_status a)
        else if f = 3 then Some (Hart_suspend a b c)
        else None
      else None)"

text \<open>A firmware that records which call it dispatched.\<close>

definition log_firmware :: "sbi_call option list firmware" where
  "log_firmware s r = (0, 0, s @ [sbi_dispatch r])"

lemma ascii_ids:
  "ascii_id ''TIME'' = 0x54494D45" "ascii_id ''sPI'' = 0x735049" "ascii_id ''RFNC'' = 0x52464e43"
  "ascii_id ''HSM'' = 0x48534d"
  by (simp_all add: ascii_id_def)

lemmas sbi_defs = sbi_get_spec_version_def sbi_get_impl_id_def sbi_get_impl_version_def
  sbi_probe_extension_def sbi_get_mvendorid_def sbi_get_marchid_def
  sbi_get_mimpid_def sbi_set_timer_def sbi_send_ipi_def
  sbi_remote_fence_i_def sbi_remote_sfence_vma_def sbi_remote_sfence_vma_asid_def
  sbi_remote_hfence_gvma_vmid_def sbi_remote_hfence_gvma_def sbi_remote_hfence_vvma_asid_def
  sbi_remote_hfence_vvma_def sbi_hart_start_def sbi_hart_stop_def
  sbi_hart_get_status_def sbi_hart_suspend_def

lemma sbi_calls_decode:
  "snd (sbi_get_spec_version log_firmware s) = s @ [Some (Get_spec_version)]"
  "snd (sbi_get_impl_id log_firmware s) = s @ [Some (Get_impl_id)]"
  "snd (sbi_get_impl_version log_firmware s) = s @ [Some (Get_impl_version)]"
  "snd (sbi_probe_extension log_firmware extension_id s) = s @ [Some (Probe_extension extension_id)]"
  "snd (sbi_get_mvendorid log_firmware s) = s @ [Some (Get_mvendorid)]"
  "snd (sbi_get_marchid log_firmware s) = s @ [Some (Get_marchid)]"
  "snd (sbi_get_mimpid log_firmware s) = s @ [Some (Get_mimpid)]"
  "snd (sbi_set_timer log_firmware stime_value s) = s @ [Some (Set_timer stime_value)]"
  "snd (sbi_send_ipi log_firmware hart_mask hart_mask_base s) = s @ [Some (Send_ipi hart_mask hart_mask_base)]"
  "snd (sbi_remote_fence_i log_firmware hart_mask hart_mask_base s) = s @ [Some (Remote_fence_i hart_mask hart_mask_base)]"
  "snd (sbi_remote_sfence_vma log_firmware hart_mask hart_mask_base start_addr sz s) = s @ [Some (Remote_sfence_vma hart_mask hart_mask_base start_addr sz)]"
  "snd (sbi_remote_sfence_vma_asid log_firmware hart_mask hart_mask_base start_addr sz asid s) = s @ [Some (Remote_sfence_vma_asid hart_mask hart_mask_base start_addr sz asid)]"
  "snd (sbi_remote_hfence_gvma_vmid log_firmware hart_mask hart_mask_base start_addr sz vmid s) = s @ [Some (Remote_hfence_gvma_vmid hart_mask hart_mask_base start_addr sz vmid)]"
  "snd (sbi_remote_hfence_gvma log_firmware hart_mask hart_mask_base start_addr sz s) = s @ [Some (Remote_hfence_gvma hart_mask hart_mask_base start_addr sz)]"
  "snd (sbi_remote_hfence_vvma_asid log_firmware hart_mask hart_mask_base start_addr sz asid s) = s @ [Some (Remote_hfence_vvma_asid hart_mask hart_mask_base start_addr sz asid)]"
  "snd (sbi_remote_hfence_vvma log_firmware hart_mask hart_mask_base start_addr sz s) = s @ [Some (Remote_hfence_vvma hart_mask hart_mask_base start_addr sz)]"
  "snd (sbi_hart_start log_firmware hartid start_addr opaque s) = s @ [Some (Hart_start hartid start_addr opaque)]"
  "snd (sbi_hart_stop log_firmware s) = s @ [Some (Hart_stop)]"
  "snd (sbi_hart_get_status log_firmware hartid s) = s @ [Some (Hart_get_status hartid)]"
  "snd (sbi_hart_suspend log_firmware suspend_type resume_addr opaque s) = s @ [Some (Hart_suspend (ucast suspend_type) resume_addr opaque)]"
  by (simp_all add: sbi_defs sbi_ecall_def log_firmware_def sbi_dispatch_def ascii_ids)

end
