(* ===== verification/Sboot.thy ===== *)
theory Sboot
  imports Linker_Script
begin

text \<open>
  The entry code \<^verbatim>\<open>src/src/core/sboot.S\<close>, from the first instruction on the boot hart to the jump to
  \<^verbatim>\<open>main\<close>: the macros and the straight-line code are instruction lists of a small machine, the loop
  that wakes the other harts is a recursion over its counter. The addresses of the symbols and the
  firmware are parameters.

  The lemmas show that the bootstrap table translates exactly the four gigabytes the code lists, in
  agreement with the conversions of \<^verbatim>\<open>memory.h\<close>; that every other hart is started once; and that
  each hart arrives in \<^verbatim>\<open>main\<close> with its number and the end of its own stack.
\<close>

section \<open>The machine\<close>

datatype reg = A0 | A1 | A2 | A6 | A7 | T0 | T1 | T2 | T3 | TP | SP

text \<open>\<^verbatim>\<open>la\<close> and \<^verbatim>\<open>li\<close> both load a constant; the address of a symbol is known when the image is linked.\<close>

datatype boot_ins =
    I_li reg uint64
  | I_la reg uint64
  | I_mv reg reg
  | I_srli reg reg nat
  | I_slli reg reg nat
  | I_ori reg reg uint64
  | I_or reg reg reg
  | I_add reg reg reg
  | I_sub reg reg reg
  | I_mul reg reg reg
  | I_addi reg reg uint64
  | I_sd reg nat reg
  | I_csrw_stvec reg
  | I_csrw_satp reg
  | I_sfence

text \<open>Besides the registers and memory: the requests to start a hart, as (hart, address, argument).\<close>

record boot_hart =
  breg :: "reg \<Rightarrow> uint64"
  bmem :: memory
  bsatp :: uint64
  bstvec :: uint64
  started :: "(uint64 \<times> uint64 \<times> uint64) list"

definition wr :: "reg \<Rightarrow> uint64 \<Rightarrow> boot_hart \<Rightarrow> boot_hart" where
  "wr r v s = s\<lparr>breg := (breg s)(r := v)\<rparr>"

fun boot_ins_step :: "boot_ins \<Rightarrow> boot_hart \<Rightarrow> boot_hart" where
  "boot_ins_step (I_li r v) s = wr r v s"
| "boot_ins_step (I_la r v) s = wr r v s"
| "boot_ins_step (I_mv r q) s = wr r (breg s q) s"
| "boot_ins_step (I_srli r q n) s = wr r (drop_bit n (breg s q)) s"
| "boot_ins_step (I_slli r q n) s = wr r (push_bit n (breg s q)) s"
| "boot_ins_step (I_ori r q v) s = wr r (breg s q OR v) s"
| "boot_ins_step (I_or r p q) s = wr r (breg s p OR breg s q) s"
| "boot_ins_step (I_add r p q) s = wr r (breg s p + breg s q) s"
| "boot_ins_step (I_sub r p q) s = wr r (breg s p - breg s q) s"
| "boot_ins_step (I_mul r p q) s = wr r (breg s p * breg s q) s"
| "boot_ins_step (I_addi r q v) s = wr r (breg s q + v) s"
| "boot_ins_step (I_sd r n q) s = s\<lparr>bmem := store64 (bmem s) (breg s q + of_nat n) (breg s r)\<rparr>"
| "boot_ins_step (I_csrw_stvec r) s = s\<lparr>bstvec := breg s r\<rparr>"
| "boot_ins_step (I_csrw_satp r) s = s\<lparr>bsatp := breg s r\<rparr>"
| "boot_ins_step I_sfence s = s"

definition boot_exec :: "boot_ins list \<Rightarrow> boot_hart \<Rightarrow> boot_hart" where
  "boot_exec is s = fold boot_ins_step is s"

section \<open>The code\<close>

text \<open>The symbols the code refers to.\<close>

record boot_syms =
  sym_bsp_root :: uint64
  sym_sboot_fail :: uint64
  sym_enter_vas :: uint64
  sym_eboot :: uint64
  sym_cpus :: uint64

definition PTEGEN :: "reg \<Rightarrow> uint64 \<Rightarrow> boot_ins list" where
  "PTEGEN pa flags =
     [I_srli pa pa 12, I_slli pa pa 10,
      I_ori pa pa (flags OR PTE_V OR PTE_G OR PTE_A OR PTE_D),
      I_slli pa pa 10, I_srli pa pa 10]"

definition IDX2PTR :: "reg \<Rightarrow> reg \<Rightarrow> boot_ins list" where
  "IDX2PTR root i = [I_slli i i 3, I_add i root i]"

definition MAP_GIGAPAGE :: "uint64 \<Rightarrow> uint64 \<Rightarrow> uint64 \<Rightarrow> boot_ins list" where
  "MAP_GIGAPAGE pgtable addr pa =
     [I_li T0 pa] @ PTEGEN T0 (PTE_R OR PTE_W OR PTE_X) @
     [I_li T1 (drop_bit 9 (drop_bit 9 (drop_bit 12 addr)) AND 0x1ff), I_la T2 pgtable] @
     IDX2PTR T2 T1 @ [I_sd T0 0 T1]"

definition init_bootstrap_pages :: "boot_syms \<Rightarrow> boot_ins list" where
  "init_bootstrap_pages y =
     MAP_GIGAPAGE (sym_bsp_root y) 0 0 @
     MAP_GIGAPAGE (sym_bsp_root y) DTB_MEMORY DTB_MEMORY @
     MAP_GIGAPAGE (sym_bsp_root y) VAS_KERNEL DTB_MEMORY @
     MAP_GIGAPAGE (sym_bsp_root y) VAS_RAM DTB_MEMORY"

text \<open>
  The environment call: the firmware gets the function (\<^verbatim>\<open>a7\<close>, \<^verbatim>\<open>a6\<close>) and its arguments, and returns
  two values in \<^verbatim>\<open>a0\<close> and \<^verbatim>\<open>a1\<close>. A request of \<^verbatim>\<open>hart_start\<close> is recorded.
\<close>

definition boot_ecall ::
  "(uint64 \<Rightarrow> uint64 \<Rightarrow> uint64 \<times> uint64 \<times> uint64 \<Rightarrow> uint64 \<times> uint64) \<Rightarrow> boot_hart \<Rightarrow> boot_hart" where
  "boot_ecall fw s =
     (let args = (breg s A0, breg s A1, breg s A2);
          (a0, a1) = fw (breg s A7) (breg s A6) args;
          s = (if breg s A7 = 0x48534d \<and> breg s A6 = 0 then s\<lparr>started := started s @ [args]\<rparr> else s)
      in wr A1 a1 (wr A0 a0 s))"

text \<open>
  The loop of \<^verbatim>\<open>setup\<close>: the argument is the value of the counter \<^verbatim>\<open>t1\<close> at the label, which ends the
  loop when it is equal to \<^verbatim>\<open>t2\<close>, that is zero.
\<close>

fun wake_loop ::
  "boot_syms \<Rightarrow> (uint64 \<Rightarrow> uint64 \<Rightarrow> uint64 \<times> uint64 \<times> uint64 \<Rightarrow> uint64 \<times> uint64) \<Rightarrow> nat \<Rightarrow>
     boot_hart \<Rightarrow> boot_hart" where
  "wake_loop y fw 0 s = s"
| "wake_loop y fw (Suc n) s =
     (let s = boot_exec [I_addi T1 T1 (-1)] s in
      if breg s TP = breg s T1 then wake_loop y fw n s
      else wake_loop y fw n
             (boot_ecall fw (boot_exec [I_mv A0 T1, I_la A1 (sym_enter_vas y), I_mv A2 T0] s)))"

text \<open>\<^verbatim>\<open>setup\<close> up to the label \<^verbatim>\<open>enter_vas\<close>, which the boot hart reaches by falling through.\<close>

definition setup_boot ::
  "boot_syms \<Rightarrow> (uint64 \<Rightarrow> uint64 \<Rightarrow> uint64 \<times> uint64 \<times> uint64 \<Rightarrow> uint64 \<times> uint64) \<Rightarrow>
     boot_hart \<Rightarrow> boot_hart" where
  "setup_boot y fw s =
     (let s = boot_exec [I_la T0 (sym_sboot_fail y), I_csrw_stvec T0] s;
          s = boot_exec (init_bootstrap_pages y) s;
          s = boot_exec [I_mv TP A0, I_mv T0 A1, I_li A6 0, I_li A7 0x48534d,
                I_li T2 0, I_li T1 (of_nat DTB_NR_CPUS)] s;
          s = wake_loop y fw DTB_NR_CPUS s
      in boot_exec [I_mv A0 TP, I_mv A1 T0] s)"

text \<open>The registers at the jump; its target is in \<^verbatim>\<open>t0\<close>.\<close>

definition enter_vas :: "boot_syms \<Rightarrow> boot_hart \<Rightarrow> boot_hart" where
  "enter_vas y s =
     boot_exec
       [I_mv TP A0,
        I_la T0 (sym_eboot y), I_li T2 DTB_MEMORY, I_li T3 VAS_KERNEL, I_sub T0 T0 T2, I_add T0 T0 T3,
        I_li T1 1, I_slli T1 T1 63, I_la T2 (sym_bsp_root y), I_srli T2 T2 12, I_or T1 T1 T2,
        I_csrw_satp T1, I_sfence] s"

definition init_for_c :: "boot_syms \<Rightarrow> boot_hart \<Rightarrow> boot_hart" where
  "init_for_c y s =
     boot_exec [I_la T0 (sym_cpus y), I_li T1 CPU_SIZE, I_addi T2 A0 1, I_mul T2 T1 T2, I_add SP T0 T2] s"

section \<open>The bootstrap table\<close>

text \<open>
  Translation by the hardware (Sv39) through a table whose valid entries are gigapages: the address
  must be the sign extension of its low 39 bits, the entry must be a leaf aligned to its size.
\<close>

definition canonical :: "uint64 \<Rightarrow> bool" where
  "canonical va \<longleftrightarrow> drop_bit 38 va = 0 \<or> drop_bit 38 va = mask 26"

definition giga_translate :: "memory \<Rightarrow> uint64 \<Rightarrow> uint64 \<Rightarrow> uint64 option" where
  "giga_translate m atp va =
     (let pte = load64 m (push_bit 12 (take_bit 44 atp) + VA2IDX 2 va * 8);
          pa = push_bit 12 (take_bit 44 (drop_bit 10 pte))
      in if canonical va \<and> pte AND PTE_V \<noteq> 0 \<and> pte AND (PTE_R OR PTE_W OR PTE_X) \<noteq> 0 \<and> take_bit 30 pa = 0
         then Some (pa + take_bit 30 va) else None)"

lemma boot_exec_simps [simp]:
  "boot_exec [] s = s" "boot_exec (i # is) s = boot_exec is (boot_ins_step i s)"
  by (simp_all add: boot_exec_def)

lemma boot_exec_append: "boot_exec (is @ js) s = boot_exec js (boot_exec is s)"
  by (simp add: boot_exec_def)

lemma wr_simps [simp]:
  "breg (wr r v s) = (breg s)(r := v)" "bmem (wr r v s) = bmem s" "bsatp (wr r v s) = bsatp s"
  "bstvec (wr r v s) = bstvec s" "started (wr r v s) = started s"
  by (simp_all add: wr_def)

lemma gigapage_effect:
  assumes "i = VA2IDX 2 addr" "pte = take_bit 54 (push_bit 10 (drop_bit 12 pa) OR 0xef)"
  shows "bmem (boot_exec (MAP_GIGAPAGE p addr pa) s) = store64 (bmem s) (p + i * 8) pte"
    "started (boot_exec (MAP_GIGAPAGE p addr pa) s) = started s"
    "bstvec (boot_exec (MAP_GIGAPAGE p addr pa) s) = bstvec s"
    "r \<notin> {T0, T1, T2} \<Longrightarrow> breg (boot_exec (MAP_GIGAPAGE p addr pa) s) r = breg s r"
proof -
  have fl: "(PTE_R OR PTE_W OR PTE_X) OR PTE_V OR PTE_G OR PTE_A OR PTE_D = 0xef"
    by (simp add: layout_defs)
  have "push_bit 3 (drop_bit 30 addr AND 0x1ff) = i * 8"
    unfolding assms(1) by (simp add: VA2IDX_def layout_defs flip: push_bit_of_1 push_bit_eq_mult [of 3, simplified])
  then have ix: "push_bit 3 (drop_bit 30 addr) AND 0xff8 = i * 8" by simp
  have top: "drop_bit 10 (push_bit 20 v) = take_bit 54 (push_bit 10 v)" for v :: uint64
    by (rule bit_word_eqI) (auto simp: bit_simps)
  show "bmem (boot_exec (MAP_GIGAPAGE p addr pa) s) = store64 (bmem s) (p + i * 8) pte"
    by (simp add: MAP_GIGAPAGE_def PTEGEN_def IDX2PTR_def fl ix top assms(2))
  show "started (boot_exec (MAP_GIGAPAGE p addr pa) s) = started s"
    "bstvec (boot_exec (MAP_GIGAPAGE p addr pa) s) = bstvec s"
    "r \<notin> {T0, T1, T2} \<Longrightarrow> breg (boot_exec (MAP_GIGAPAGE p addr pa) s) r = breg s r"
    by (simp_all add: MAP_GIGAPAGE_def PTEGEN_def IDX2PTR_def)
qed

definition boot_table :: "memory \<Rightarrow> uint64 \<Rightarrow> memory" where
  "boot_table m p =
     store64 (store64 (store64 (store64 m p 0xef) (p + 0x10) 0x200000ef) (p + 0x800) 0x200000ef)
       (p + 0xc00) 0x200000ef"

lemma bootstrap_pages_effect:
  "bmem (boot_exec (init_bootstrap_pages y) s) = boot_table (bmem s) (sym_bsp_root y)"
  "started (boot_exec (init_bootstrap_pages y) s) = started s"
  "bstvec (boot_exec (init_bootstrap_pages y) s) = bstvec s"
  "r \<notin> {T0, T1, T2} \<Longrightarrow> breg (boot_exec (init_bootstrap_pages y) s) r = breg s r"
  unfolding init_bootstrap_pages_def boot_exec_append
  by (simp_all add: gigapage_effect boot_table_def VA2IDX_def layout_defs)

lemma boot_table_entry:
  assumes p: "take_bit 12 p = 0" and z: "\<And>i. i < 512 \<Longrightarrow> load64 m (p + i * 8) = 0" and i: "i < 512"
  shows "load64 (boot_table m p) (p + i * 8) =
    (if i = 0 then 0xef else if i = 2 \<or> i = 0x100 \<or> i = 0x180 then 0x200000ef else 0)"
proof -
  have al: "take_bit 3 (p + j * 8) = 0" for j :: uint64
    by (rule take_bit_add_aligned) (use p in \<open>simp_all add: take_bit_3_of_12 take_bit_eq_0_iff\<close>)
  have inj: "p + i * 8 = p + j * 8 \<longleftrightarrow> i = j" if "j < 512" for j
  proof -
    have "unat (i * 8) = unat i * 8" "unat (j * 8) = unat j * 8"
      using i that by (simp_all add: unat_word_ariths word_less_nat_alt)
    then show ?thesis by (metis add_left_cancel mult_cancel2 word_unat_eq_iff zero_neq_numeral)
  qed
  have st: "load64 (store64 m' (p + j * 8) v) (p + i * 8) = (if i = j then v else load64 m' (p + i * 8))"
    if "j < 512" for m' j v
    using inj [OF that] al by (cases "i = j") simp_all
  have st4: "load64 (store64 m' p v) (p + i * 8) = (if i = 0 then v else load64 m' (p + i * 8))"
    "load64 (store64 m' (p + 0x10) v) (p + i * 8) = (if i = 2 then v else load64 m' (p + i * 8))"
    "load64 (store64 m' (p + 0x800) v) (p + i * 8) = (if i = 0x100 then v else load64 m' (p + i * 8))"
    "load64 (store64 m' (p + 0xc00) v) (p + i * 8) = (if i = 0x180 then v else load64 m' (p + i * 8))"
    for m' v
    using st [of 0] st [of 2] st [of "0x100"] st [of "0x180"] by simp_all
  show ?thesis unfolding boot_table_def st4 z [OF i] by auto
qed

text \<open>The index of the entry is the number of the gigabyte, modulo the size of the table.\<close>

lemma unat_drop_bit_div: "unat (drop_bit n w) = unat w div 2 ^ n" for w :: uint64
  unfolding unsigned_drop_bit_eq using unat_less_length [of w] by (simp add: drop_bit_eq_div take_bit_eq_mod)

lemma giga_index: "unat (VA2IDX 2 va) = unat va div 2 ^ 30 mod 512"
proof -
  have m: "(0x1ff :: uint64) = mask 9" by (simp add: mask_eq_exp_minus_1)
  have "VA2IDX 2 va = take_bit 9 (drop_bit 30 va)"
    unfolding VA2IDX_def take_bit_eq_mask m by (simp add: layout_defs)
  then have "unat (VA2IDX 2 va) = take_bit 9 (unat (drop_bit 30 va))" by (simp only: unsigned_take_bit_eq)
  also have "\<dots> = unat va div 2 ^ 30 mod 512" unfolding unat_drop_bit_div by (simp add: take_bit_eq_mod)
  finally show ?thesis .
qed

lemma canonical_unat: "canonical va \<longleftrightarrow> unat va < 2 ^ 38 \<or> 2 ^ 64 - 2 ^ 38 \<le> unat va"
proof -
  have u: "unat va < 2 ^ 64" using unat_less_length [of va] by simp
  have "canonical va \<longleftrightarrow> unat (drop_bit 38 va) = 0 \<or> unat (drop_bit 38 va) = 2 ^ 26 - 1"
    unfolding canonical_def word_unat_eq_iff by (simp add: mask_eq_exp_minus_1)
  also have "\<dots> \<longleftrightarrow> unat va < 2 ^ 38 \<or> 2 ^ 64 - 2 ^ 38 \<le> unat va"
    unfolding unat_drop_bit_div using u by auto
  finally show ?thesis .
qed

text \<open>The four gigabytes: two at their own address, the kernel's window and the window of all memory.\<close>

definition boot_map :: "uint64 \<Rightarrow> uint64 option" where
  "boot_map va =
     (if va < 0x40000000 then Some va
      else if DTB_MEMORY \<le> va \<and> va < DTB_MEMORY + 0x40000000 then Some va
      else if VAS_KERNEL \<le> va \<and> va < VAS_KERNEL + 0x40000000 then Some (KVA2PA va)
      else if VAS_RAM \<le> va \<and> va < VAS_RAM + 0x40000000 then Some (KPA2PA va)
      else None)"

lemma canonical_cases:
  assumes "canonical va"
  shows "VA2IDX 2 va = 0 \<longleftrightarrow> va < 0x40000000"
    "VA2IDX 2 va = 2 \<longleftrightarrow> DTB_MEMORY \<le> va \<and> va < DTB_MEMORY + 0x40000000"
    "VA2IDX 2 va = 0x100 \<longleftrightarrow> VAS_KERNEL \<le> va \<and> va < VAS_KERNEL + 0x40000000"
    "VA2IDX 2 va = 0x180 \<longleftrightarrow> VAS_RAM \<le> va \<and> va < VAS_RAM + 0x40000000"
proof -
  have u: "unat va < 2 ^ 64" using unat_less_length [of va] by simp
  define q where "q = unat va div 2 ^ 30"
  have q: "unat va = q * 2 ^ 30 + unat va mod 2 ^ 30" "unat va mod 2 ^ 30 < 2 ^ 30" by (simp_all add: q_def)
  have ix: "unat (VA2IDX 2 va) = (if q < 256 then q else q - (2 ^ 34 - 512))"
  proof (cases "q < 256")
    case True
    then show ?thesis unfolding giga_index q_def [symmetric] by simp
  next
    case False
    with assms q u have "2 ^ 34 - 256 \<le> q" "q < 2 ^ 34" by (auto simp: canonical_unat)
    then have "q = (2 ^ 25 - 1) * 512 + (q - (2 ^ 34 - 512))" "q - (2 ^ 34 - 512) < 512" by auto
    then have "q mod 512 = q - (2 ^ 34 - 512)" by (metis mod_less mod_mult_self3)
    with False show ?thesis unfolding giga_index q_def [symmetric] by simp
  qed
  have lim: "q < 256 \<or> 2 ^ 34 - 256 \<le> q \<and> q < 2 ^ 34" using assms q u by (auto simp: canonical_unat)
  note d = word_unat_eq_iff word_le_nat_alt word_less_nat_alt layout_defs ix
  show "VA2IDX 2 va = 0 \<longleftrightarrow> va < 0x40000000"
    "VA2IDX 2 va = 2 \<longleftrightarrow> DTB_MEMORY \<le> va \<and> va < DTB_MEMORY + 0x40000000"
    "VA2IDX 2 va = 0x100 \<longleftrightarrow> VAS_KERNEL \<le> va \<and> va < VAS_KERNEL + 0x40000000"
    "VA2IDX 2 va = 0x180 \<longleftrightarrow> VAS_RAM \<le> va \<and> va < VAS_RAM + 0x40000000"
    using q lim by (auto simp: d split: if_splits)
qed

text \<open>Inside a gigabyte the translation adds the offset.\<close>

lemma giga_offset:
  fixes va base :: uint64
  assumes "base \<le> va" "va < base + 0x40000000" "take_bit 30 base = 0" "unat base + 0x40000000 < 2 ^ 64"
  shows "take_bit 30 va = va - base"
proof -
  have "va - base < 0x40000000"
    using assms unat_sub [of base va] by (simp add: word_less_nat_alt word_le_nat_alt unat_word_ariths)
  then have "va - base < 2 ^ 30" by simp
  from aligned_add_take_bit [OF assms(3) this] show ?thesis by simp
qed

lemma KPA2PA_window:
  assumes "VAS_RAM \<le> kpa" "kpa < VAS_RAM + 0x40000000"
  shows "KPA2PA kpa = kpa - VAS_RAM + DTB_MEMORY"
proof -
  have n: "NOT VAS_RAM = mask 37" by (simp add: layout_defs mask_eq_exp_minus_1)
  have "kpa - VAS_RAM < 0x40000000"
    using assms unat_sub [of VAS_RAM kpa] by (simp add: layout_defs word_less_nat_alt word_le_nat_alt)
  then have small: "kpa - VAS_RAM < 2 ^ 37" by (rule order_less_trans) simp
  have "take_bit 37 VAS_RAM = 0" by (simp add: layout_defs)
  from aligned_add_take_bit [OF this small] show ?thesis by (simp add: KPA2PA_def n flip: take_bit_eq_mask)
qed

lemma boot_table_translates:
  assumes p: "take_bit 12 p = 0" and z: "\<And>i. i < 512 \<Longrightarrow> load64 m (p + i * 8) = 0"
    and atp: "take_bit 44 atp = drop_bit 12 p"
  shows "giga_translate (boot_table m p) atp va = boot_map va"
proof (cases "canonical va")
  case False
  then have "boot_map va = None"
    by (auto simp: boot_map_def canonical_unat layout_defs word_less_nat_alt word_le_nat_alt)
  with False show ?thesis by (simp add: giga_translate_def Let_def)
next
  case True
  note ix = canonical_cases [OF True]
  have root: "push_bit 12 (take_bit 44 atp) = p" unfolding atp using PGROUNDDOWN_id [OF p] by (simp add: PGROUNDDOWN_eq)
  have lt: "VA2IDX 2 va < 512" using giga_index [of va] by (simp add: word_less_nat_alt)
  have e: "load64 (boot_table m p) (p + VA2IDX 2 va * 8) = (if VA2IDX 2 va = 0 then 0xef
      else if VA2IDX 2 va = 2 \<or> VA2IDX 2 va = 0x100 \<or> VA2IDX 2 va = 0x180 then 0x200000ef else 0)"
    by (rule boot_table_entry [OF p _ lt]) (rule z)
  have off: "VA2IDX 2 va = 0 \<Longrightarrow> take_bit 30 va = va" using giga_offset [of 0 va] by (simp add: ix)
  have offm: "VA2IDX 2 va = 2 \<Longrightarrow> 0x80000000 + take_bit 30 va = va"
    using giga_offset [of DTB_MEMORY va] by (simp add: ix layout_defs)
  have offk: "VA2IDX 2 va = 0x100 \<Longrightarrow> 0x80000000 + take_bit 30 va = KVA2PA va"
    using giga_offset [of VAS_KERNEL va] by (simp add: ix layout_defs KVA2PA_def)
  have offr: "VA2IDX 2 va = 0x180 \<Longrightarrow> 0x80000000 + take_bit 30 va = KPA2PA va"
    using giga_offset [of VAS_RAM va] KPA2PA_window [of va] by (simp add: ix layout_defs)
  have fl: "(0xef :: uint64) AND PTE_V \<noteq> 0" "(0xef :: uint64) AND (PTE_R OR PTE_W OR PTE_X) \<noteq> 0"
    "(0x200000ef :: uint64) AND PTE_V \<noteq> 0" "(0x200000ef :: uint64) AND (PTE_R OR PTE_W OR PTE_X) \<noteq> 0"
    by (simp_all add: layout_defs)
  have bm: "boot_map va =
      (if VA2IDX 2 va = 0 then Some va else if VA2IDX 2 va = 2 then Some va
       else if VA2IDX 2 va = 0x100 then Some (KVA2PA va)
       else if VA2IDX 2 va = 0x180 then Some (KPA2PA va) else None)"
    by (simp only: boot_map_def ix)
  consider "VA2IDX 2 va = 0" | "VA2IDX 2 va = 2" | "VA2IDX 2 va = 0x100" | "VA2IDX 2 va = 0x180"
    | "VA2IDX 2 va \<notin> {0, 2, 0x100, 0x180}" by auto
  then show ?thesis
    unfolding giga_translate_def root bm Let_def e
    by cases (use True off offm offk offr fl in simp_all)
qed

section \<open>Waking the harts\<close>

lemma wake_loop_effect:
  assumes "breg s T1 = of_nat n" "breg s A7 = 0x48534d" "breg s A6 = 0"
  shows "\<exists>t. wake_loop y fw n s = t \<and> breg t TP = breg s TP \<and> breg t T0 = breg s T0 \<and> bmem t = bmem s \<and>
    bstvec t = bstvec s \<and> started t = started s @
      map (\<lambda>k. (of_nat k, sym_enter_vas y, breg s T0)) (filter (\<lambda>k. breg s TP \<noteq> of_nat k) (rev [0..<n]))"
  using assms
proof (induction n arbitrary: s)
  case (Suc n)
  have n: "(of_nat (Suc n) :: uint64) + -1 = of_nat n" by simp
  let ?s = "boot_ins_step (I_addi T1 T1 (-1)) s"
  let ?u = "boot_ecall fw (boot_exec [I_mv A0 T1, I_la A1 (sym_enter_vas y), I_mv A2 T0] ?s)"
  let ?t = "if breg s TP = of_nat n then ?s else ?u"
  have t: "breg ?t T1 = of_nat n" "breg ?t A7 = 0x48534d" "breg ?t A6 = 0" "breg ?t TP = breg s TP" "breg ?t T0 = breg s T0"
    "bmem ?t = bmem s" "bstvec ?t = bstvec s"
    "started ?t = started s @ (if breg s TP = of_nat n then [] else [(of_nat n, sym_enter_vas y, breg s T0)])"
    using Suc.prems by (auto simp: n boot_ecall_def Let_def split: prod.splits)
  have w: "wake_loop y fw (Suc n) s = wake_loop y fw n ?t" using Suc.prems by (simp add: n)
  show ?case using Suc.IH [OF t(1-3)] unfolding w t by (cases "breg s TP = of_nat n") auto
qed simp

lemma setup_boot_effect:
  "\<exists>t. setup_boot y fw s = t \<and> breg t A0 = breg s A0 \<and> bmem t = boot_table (bmem s) (sym_bsp_root y) \<and>
     bstvec t = sym_sboot_fail y \<and> started t = started s @
       map (\<lambda>k. (of_nat k, sym_enter_vas y, breg s A1))
         (filter (\<lambda>k. breg s A0 \<noteq> of_nat k) (rev [0..<DTB_NR_CPUS]))"
proof -
  define s1 where "s1 = boot_exec [I_la T0 (sym_sboot_fail y), I_csrw_stvec T0] s"
  define s2 where "s2 = boot_exec (init_bootstrap_pages y) s1"
  define s3 where "s3 = boot_exec [I_mv TP A0, I_mv T0 A1, I_li A6 0, I_li A7 0x48534d,
    I_li T2 0, I_li T1 (of_nat DTB_NR_CPUS)] s2"
  have s3: "breg s3 T1 = of_nat DTB_NR_CPUS" "breg s3 A7 = 0x48534d" "breg s3 A6 = 0" "breg s3 TP = breg s A0" "breg s3 T0 = breg s A1"
    "bmem s3 = boot_table (bmem s) (sym_bsp_root y)" "bstvec s3 = sym_sboot_fail y" "started s3 = started s"
    by (simp_all add: s3_def s2_def bootstrap_pages_effect s1_def)
  from wake_loop_effect [OF s3(1-3), of y fw] show ?thesis
    unfolding setup_boot_def Let_def s1_def [symmetric] s2_def [symmetric] s3_def [symmetric] s3
    by auto
qed

text \<open>The page of the root is cleared when the image is loaded.\<close>

definition zero_root :: "memory \<Rightarrow> uint64 \<Rightarrow> bool" where
  "zero_root m p \<longleftrightarrow> (\<forall>i < 512. load64 m (p + i * 8) = 0)"

text \<open>The numbers of the harts are small, so they stay different in a register.\<close>

lemma hart_number_inj:
  assumes "j < DTB_NR_CPUS" "k < DTB_NR_CPUS"
  shows "(of_nat j :: uint64) = of_nat k \<longleftrightarrow> j = k"
  using assms by (auto simp: word_of_nat_eq_iff take_bit_nat_eq_self DTB_NR_CPUS_def)

lemma woken_harts:
  fixes vas arg :: uint64
  assumes "b < DTB_NR_CPUS"
  defines "l \<equiv> map (\<lambda>k. (of_nat k :: uint64, vas, arg)) (filter (\<lambda>k. (of_nat b :: uint64) \<noteq> of_nat k) (rev [0..<DTB_NR_CPUS]))"
  shows "distinct (map fst l)" "set l = {(of_nat k, vas, arg) | k. k < DTB_NR_CPUS \<and> k \<noteq> b}"
proof -
  have "inj_on (\<lambda>k. of_nat k :: uint64) {..<DTB_NR_CPUS}" by (auto intro: inj_onI simp: hart_number_inj)
  then show "distinct (map fst l)"
    unfolding l_def by (auto simp: distinct_map comp_def intro: inj_on_subset)
  show "set l = {(of_nat k, vas, arg) | k. k < DTB_NR_CPUS \<and> k \<noteq> b}"
    unfolding l_def using assms(1) by (auto simp: hart_number_inj)
qed

lemma zero_root_clear: "zero_root (\<lambda>_. 0) p"
  by (auto simp: zero_root_def intro: bit_word_eqI simp: bit_load64)

lemma enter_vas_effect:
  "breg (enter_vas y s) T0 = PA2KVA (sym_eboot y)"
  "breg (enter_vas y s) A0 = breg s A0" "breg (enter_vas y s) TP = breg s A0"
  "bsatp (enter_vas y s) = drop_bit 12 (sym_bsp_root y) OR ATP_MODE_SV39" "bmem (enter_vas y s) = bmem s"
  by (simp_all add: enter_vas_def PA2KVA_def ATP_MODE_SV39_def or.commute)

lemma init_for_c_effect:
  "breg (init_for_c y s) SP = sym_cpus y + (breg s A0 + 1) * CPU_SIZE" "breg (init_for_c y s) A0 = breg s A0"
  "breg (init_for_c y s) TP = breg s TP" "bmem (init_for_c y s) = bmem s"
  by (simp_all add: init_for_c_def mult.commute)

section \<open>The image\<close>

text \<open>Where the linker script puts the symbols; the addresses inside \<^verbatim>\<open>.boot.text\<close> are not relevant here.\<close>

definition bsp_start :: "section_sizes \<Rightarrow> uint64" where
  "bsp_start z =
     PGROUNDUP (boot_section (bootdata_size z) (boot_section (boottext_size z) phys_base_sym))"

definition boot_end :: "section_sizes \<Rightarrow> uint64" where
  "boot_end z =
     boot_section (bsp_size z)
       (boot_section (bootdata_size z) (boot_section (boottext_size z) phys_base_sym))"

definition image_syms :: "uint64 \<Rightarrow> uint64 \<Rightarrow> section_sizes \<Rightarrow> boot_syms" where
  "image_syms fail vas z =
     \<lparr>sym_bsp_root = bsp_start z, sym_sboot_fail = fail, sym_enter_vas = vas, sym_eboot = boot_end z,
      sym_cpus = cpu_structs (link_image z)\<rparr>"

lemma image_boot_syms:
  assumes "sizes_ok z"
  shows "bsp_start z < 2 ^ 56" "take_bit 12 (bsp_start z) = 0"
proof -
  have b: "unat (boottext_size z) + unat (bootdata_size z) \<le> 0x10000000"
    using assms by (simp add: sizes_ok_def layout_defs)
  define d1 where "d1 = boot_section (boottext_size z) phys_base_sym"
  define d2 where "d2 = boot_section (bootdata_size z) d1"
  have p: "unat phys_base_sym = 0x80100000" by (simp add: phys_base_sym_def layout_defs)
  have 1: "unat d1 \<le> unat phys_base_sym + (unat (boottext_size z) + 4096)"
    using section_step [of phys_base_sym "boottext_size z"] b p by (simp add: d1_def boot_section_def)
  have 2: "unat d2 \<le> unat d1 + (unat (bootdata_size z) + 4096)"
    using section_step [of d1 "bootdata_size z"] b p 1 by (simp add: d2_def boot_section_def)
  have "unat (PGROUNDUP d2) \<le> unat d2 + 4095" using PGROUNDUP_unat [of d2] b p 1 2 by simp
  then show "bsp_start z < 2 ^ 56"
    unfolding bsp_start_def d1_def [symmetric] d2_def [symmetric] word_less_nat_alt using b p 1 2 by simp
  show "take_bit 12 (bsp_start z) = 0" by (simp add: bsp_start_def)
qed

text \<open>The root page fills its section, so the code after it starts right at \<^verbatim>\<open>eboot\<close>.\<close>

lemma jump_target:
  assumes "bsp_size z = PAGE_SIZE"
  shows "PA2KVA (boot_end z) = text_start (link_image z)"
proof -
  have "boot_end z = bsp_start z + PAGE_SIZE"
    by (simp add: boot_end_def bsp_start_def boot_section_def assms)
  then have e: "take_bit 12 (boot_end z) = 0"
    by (simp only:) (rule take_bit_add_aligned, simp_all add: bsp_start_def layout_defs)
  then have bo: "boot_offset z = boot_end z - phys_base_sym"
    by (simp add: boot_offset_def boot_end_def [symmetric] PGROUNDUP_id)
  have "kernel_base + boot_offset z = PA2KVA (boot_end z)"
    by (simp add: bo kernel_base_def PA2KVA_def)
  moreover have "take_bit 12 (PA2KVA (boot_end z)) = 0"
    unfolding PA2KVA_def diff_conv_add_uminus
    by (intro take_bit_add_aligned e) (simp_all add: layout_defs)
  ultimately show ?thesis
    by (simp add: link_image_def placed_sections_def Let_def PGROUNDUP_id)
qed

lemma satp_root:
  assumes "p < 2 ^ 56"
  shows "take_bit 44 (drop_bit 12 p OR ATP_MODE_SV39) = drop_bit 12 (p :: uint64)"
proof (rule bit_word_eqI)
  fix n assume "n < LENGTH(64)"
  have "n < 44" if "bit p (n + 12)" using bit_less_two_powerD [OF assms that] by simp
  then show "bit (take_bit 44 (drop_bit 12 p OR ATP_MODE_SV39)) n = bit (drop_bit 12 p) n"
    by (auto simp: ATP_MODE_SV39_def bit_simps add.commute not_less)
qed

text \<open>What a hart finds after the jump, for the boot hart and for the harts it woke.\<close>

lemma hart_enters:
  assumes z: "sizes_ok z" "bsp_size z = PAGE_SIZE" and m: "zero_root m (bsp_start z)"
    and s: "bmem s = boot_table m (bsp_start z)" and y: "y = image_syms fail vas z"
  defines "e \<equiv> enter_vas y s"
  shows "giga_translate (bmem e) (bsatp e) va = boot_map va" "breg e T0 = text_start (link_image z)"
    "breg (init_for_c y e) SP = cpus (link_image z) (breg s A0) + CPU_SIZE" "breg (init_for_c y e) A0 = breg s A0"
    "breg (init_for_c y e) TP = breg s A0"
proof -
  note b = image_boot_syms [OF z(1)]
  have "giga_translate (boot_table m (bsp_start z)) (drop_bit 12 (bsp_start z) OR ATP_MODE_SV39) va = boot_map va"
    by (rule boot_table_translates) (use b m satp_root in \<open>simp_all add: zero_root_def\<close>)
  then show "giga_translate (bmem e) (bsatp e) va = boot_map va"
    by (simp add: e_def enter_vas_effect s y image_syms_def)
  show "breg e T0 = text_start (link_image z)"
    using jump_target [OF z(2)] by (simp add: e_def enter_vas_effect y image_syms_def)
  show "breg (init_for_c y e) SP = cpus (link_image z) (breg s A0) + CPU_SIZE" "breg (init_for_c y e) A0 = breg s A0"
    "breg (init_for_c y e) TP = breg s A0"
    by (simp_all add: e_def init_for_c_effect enter_vas_effect cpus_def y image_syms_def algebra_simps)
qed

end
