(* ===== verification/Printer.thy ===== *)
theory Printer
  imports Keygrab
begin

text \<open>
  The guest \<^verbatim>\<open>printer\<close>, \<^verbatim>\<open>src/src/guest/printer/core/main.S\<close>: it prints the number of its hart, now and
  at every timer interrupt, and sets the timer again. The lemmas show the text of any number of
  interrupts and the deadline after each.
\<close>

record printer_hart = guest_hart +
  g_time :: uint64
  g_stimecmp :: uint64

text \<open>The two stores go to the transmit register without looking at the line status.\<close>

definition print_hartid :: "'u byte_dev \<Rightarrow> printer_hart \<Rightarrow> 'u \<Rightarrow> 'u" where
  "print_hartid udev g u =
     byte_write udev (byte_write udev u 0x10000000 (ucast (g_tp g + 48))) 0x10000000 10"

definition set_timer :: "printer_hart \<Rightarrow> printer_hart" where
  "set_timer g = g\<lparr>g_stimecmp := g_time g + 10000000\<rparr>"

definition printer_start ::
  "'u byte_dev \<Rightarrow> uint64 \<Rightarrow> uint64 \<Rightarrow> printer_hart \<times> 'u \<Rightarrow> printer_hart \<times> 'u" where
  "printer_start udev trap_vec a0 = (\<lambda>(g, u).
     let g = g\<lparr>g_tp := a0, g_stvec := trap_vec, g_sp := 0x80101000\<rparr>;
         u = print_hartid udev g u;
         g = set_timer g;
         g = g\<lparr>g_sstatus := g_sstatus g OR 2\<rparr>;
         g = g\<lparr>g_sie := g_sie g OR 0b100000\<rparr>
     in (g, u))"

definition printer_trap :: "'u byte_dev \<Rightarrow> printer_hart \<times> 'u \<Rightarrow> printer_hart \<times> 'u" where
  "printer_trap udev = (\<lambda>(g, u). (set_timer g, print_hartid udev g u))"

text \<open>The timer interrupts, each at the time it is taken.\<close>

definition printer_traps :: "'u byte_dev \<Rightarrow> uint64 list \<Rightarrow> printer_hart \<times> 'u \<Rightarrow> printer_hart \<times> 'u" where
  "printer_traps udev ts = fold (\<lambda>t (g, u). printer_trap udev (g\<lparr>g_time := t\<rparr>, u)) ts"

lemma print_hartid_sends:
  assumes "uart_hw udev view delay" "\<not> dlab (view u)"
  shows "ns_sent (view (print_hartid udev g u)) = ns_sent (view u) @ [ucast (g_tp g + 48), 10] \<and>
    \<not> dlab (view (print_hartid udev g u))"
proof -
  have w: "view (byte_write udev d 0x10000000 v) = ns_write 0 v (delay d) (view d)" for d v
    using uart_hw_write [OF assms(1), of 0 v d] by (simp add: W_REG_def REG_def layout_defs)
  show ?thesis using assms(2) by (simp add: print_hartid_def w ns_write_def dlab_def)
qed

lemma printer_traps_send:
  assumes "uart_hw udev view delay" "\<not> dlab (view u)"
  shows "case printer_traps udev ts (g, u) of (g', u') \<Rightarrow>
    ns_sent (view u') = ns_sent (view u) @ concat (replicate (length ts) [ucast (g_tp g + 48), 10]) \<and>
    g_stimecmp g' = (if ts = [] then g_stimecmp g else last ts + 10000000)"
  using assms(2)
proof (induction ts arbitrary: g u)
  case (Cons t ts)
  let ?g = "g\<lparr>g_time := t\<rparr>"
  have "printer_traps udev (t # ts) (g, u) = printer_traps udev ts (set_timer ?g, print_hartid udev ?g u)"
    by (simp add: printer_traps_def printer_trap_def)
  then show ?case
    using print_hartid_sends [OF assms(1) Cons.prems, of ?g] Cons.IH [of "print_hartid udev ?g u" "set_timer ?g"]
    by (cases ts) (auto simp: set_timer_def split: prod.splits)
qed (simp add: printer_traps_def)

text \<open>A hart of the printer, from its start through the interrupts at the times \<open>ts\<close>.\<close>

lemma printer_prints:
  assumes hw: "uart_hw udev view delay" and u: "\<not> dlab (view u)"
  shows "case printer_traps udev ts (printer_start udev vec a0 (g, u)) of (g', u') \<Rightarrow>
    ns_sent (view u') = ns_sent (view u) @ concat (replicate (Suc (length ts)) [ucast (a0 + 48), 10]) \<and>
    g_stimecmp g' = last (g_time g # ts) + 10000000"
proof -
  obtain g1 u1 where s: "printer_start udev vec a0 (g, u) = (g1, u1)" by fastforce
  then have g1: "g_tp g1 = a0" "g_stimecmp g1 = g_time g + 10000000"
    and u1: "u1 = print_hartid udev (g\<lparr>g_tp := a0, g_stvec := vec, g_sp := 0x80101000\<rparr>) u"
    by (auto simp: printer_start_def set_timer_def Let_def)
  from print_hartid_sends [OF hw u] have "ns_sent (view u1) = ns_sent (view u) @ [ucast (a0 + 48), 10]" "\<not> dlab (view u1)"
    by (simp_all add: u1)
  then show ?thesis
    unfolding s using printer_traps_send [OF hw, of u1 ts g1] g1 by (auto split: prod.splits)
qed

end
