(* ===== verification/Printf_Test.thy ===== *)
theory Printf_Test
  imports Printf
begin

text \<open>
  The test program \<^verbatim>\<open>src/src/test/printf_test.c\<close> as the list of its calls, and its result: every line
  that starts with \<^verbatim>\<open>got\<close> agrees with the line \<^verbatim>\<open>expected\<close> before it, except for the binary output of
  two bytes, which \<open>print_padded\<close> separates by an underscore.
\<close>

definition line :: "string \<Rightarrow> string" where
  "line s = s @ [CHR 0x0A]"

text \<open>The address of \<^verbatim>\<open>printf\<close> is a parameter.\<close>

definition printf_test :: "uint64 \<Rightarrow> (string \<times> va list) list" where
  "printf_test printf_addr =
    [(CHR 0x0A # line ''PRINTF TEST'', []),
     (line ''[info] successful if expected value matches the one we got'', []),
     (line ''TESTING hexadecimal output'', []),
     (line ''expected: address of printf'', [Va_word printf_addr]),
     (line ''got     : %p'', [Va_word printf_addr]),
     (line ''expected: -0000000000000001'', []),
     (line ''got     : %xld'', [Va_word 0xffffffffffffffff]),
     (line ''expected: 7fffffff'', []),
     (line ''got     : %xd'', [Va_word 0xffffffff7fffffff]),
     (line ''expected: -0001'', []),
     (line ''got     : %xhd'', [Va_word 0xffffffff7fffffff]),
     (line ''expected: -01'', []),
     (line ''got     : %xhhd'', [Va_word 0xffffffff7fffffff]),
     (line ''expected: ffffffff7fffffff'', []),
     (line ''got     : %xlu'', [Va_word 0xffffffff7fffffff]),
     (line ''expected: 7fffffff'', []),
     (line ''got     : %xu'', [Va_word 0xffffffff7fffffff]),
     (line ''expected: ffff'', []),
     (line ''got     : %xhu'', [Va_word 0xffffffff7fffffff]),
     (line ''expected: ff'', []),
     (line ''got     : %xhhu'', [Va_word 0xffffffff7fffffff]),
     (line '''', []),
     (line ''TESTING binary output'', []),
     (line ''expected: -0000000000000001'', []),
     (line ''got     : %bhd'', [Va_word 0xffff]),
     (line ''expected: -00000001'', []),
     (line ''got     : %bhhd'', [Va_word 0xffff]),
     (line ''expected: 11110000'', []),
     (line ''got     : %bhhu'', [Va_word 0xfff0]),
     (line '''', []),
     (line ''TESTING decimal output'', []),
     (line ''expected: 0 -1 1 1234 -1234'', []),
     (line ''got     : %d %d %d %d %d'',
        [Va_word 0, Va_word (- 1), Va_word 1, Va_word 1234, Va_word (- 1234)]),
     (line ''expected: 0 0'', []),
     (line ''got     : %hhd %hd'', [Va_word 0x100, Va_word 0x10000]),
     (line '''', []),
     (line ''TESTING string output'', []),
     (line ''expected: Hello world %%s'', []),
     (line ''got     : %s'', [Va_str (Some ''Hello world %s'')]),
     (line ''expected: (null)'', []),
     (line ''got     : %s'', [Va_str None])]"

text \<open>What a call prints after the first ten characters, which name the line.\<close>

definition shown :: "string \<times> va list \<Rightarrow> string outcome" where
  "shown c = bindE (printf LOCK_INITIALIZER (Some (fst c)) (snd c)) (\<lambda>(out, lk). Inr (drop 10 out))"

definition agrees :: "nat \<Rightarrow> bool" where
  "agrees i \<longleftrightarrow> (case shown (printf_test 0 ! i) of Inl _ \<Rightarrow> False
     | Inr out \<Rightarrow> shown (printf_test 0 ! (i + 1)) = Inr out)"

lemma printf_test_passes: "list_all agrees [5, 7, 9, 11, 13, 15, 17, 19, 25, 27, 31, 33, 37, 39]"
  by code_simp

lemma printf_test_binary:
  "\<not> agrees 23" "shown (printf_test 0 ! 24) = Inr (''-00000000_00000001'' @ [CHR 0x0A])"
  by code_simp+

end
