(* ===== verification/Spec2Isabelle.thy ===== *)
theory Spec2Isabelle
  imports Examples Main_Phases Sbi Sboot Printer Printf_Test
begin

text \<open>
  Verification of a static-partitioning RISC-V hypervisor. The program boots on the harts of one
  board, gives every configured virtual machine its own harts, memory and devices, and emulates the
  platform interrupt controller for the guests; all other devices are passed through.

  \<^bold>\<open>The parts of the program and their theories.\<close> Paths are below \<^verbatim>\<open>src/src/\<close>.

  \<^item> \<open>Prelude\<close>: the integer types of \<^verbatim>\<open>include/types.h\<close> as words, and \<open>outcome\<close>, the sum type of code
    that returns or stops (panic, null store, spinning forever, undefined operation).
  \<^item> \<open>Layout\<close>: constants and address conversions of \<^verbatim>\<open>include/dtb.h\<close> and \<^verbatim>\<open>include/memory.h\<close>.
    \<open>Bits\<close>: \<^verbatim>\<open>lib/bits.c\<close>. \<open>Memory\<close>: kernel memory as bytes, \<^verbatim>\<open>memset\<close> of \<^verbatim>\<open>lib/string.c\<close>, and the
    locale of word-addressed memory that the allocator and the page tables rest on.
  \<^item> \<open>Kmem\<close>: the page allocator \<^verbatim>\<open>mem/kmem.c\<close>, a free list threaded through the free pages; the locale
    of an allocator states what its clients use. \<open>Kmem_Parallel\<close>: the same allocator called by several
    harts at the same time, one memory access per step.
  \<^item> \<open>Vmem\<close>: the page tables of \<^verbatim>\<open>mem/vmem.c\<close>, with \<open>translation\<close> as the meaning of a table and
    \<open>pt_state\<close> as its invariant (a tree of owned pages, disjoint from the free pages). \<open>Ranges\<close>: regions
    of several calls of \<^verbatim>\<open>map_pages\<close>, and how many free pages the calls need.
  \<^item> \<open>Lock\<close>: \<^verbatim>\<open>include/lock.h\<close>, \<^verbatim>\<open>lib/lock.c\<close> and \<^verbatim>\<open>lib/spinlock.S\<close> as one hart sees them.
    \<open>Transition\<close>: transition systems and simulations as locales. \<open>Spinlock\<close> and \<open>Barrier\<close>: the same
    code executed by several harts, one memory access per step.
  \<^item> \<open>Riscv\<close>: the control and status registers of \<^verbatim>\<open>include/riscv.h\<close> that the code uses.
    \<open>World_Switch\<close>: the macros of \<^verbatim>\<open>core/trap.S\<close> as instruction lists of a small machine.
  \<^item> \<open>Plic\<close>, \<open>Uart\<close>, \<open>Pci\<close>, \<open>Sbi\<close>: the drivers \<^verbatim>\<open>driver/plic.c\<close>, \<^verbatim>\<open>driver/uart.c\<close>, \<^verbatim>\<open>driver/pci.c\<close> and
    the firmware calls of \<^verbatim>\<open>lib/sbi.c\<close>, each over a device or firmware that is a parameter.
    \<open>Printf\<close>: \<^verbatim>\<open>lib/printf.c\<close>, as the text a call hands to the serial port.
  \<^item> \<open>Vm_Config\<close>: \<^verbatim>\<open>include/vm_config.h\<close> and the table of \<^verbatim>\<open>guest/vm_config.c\<close>. \<open>Vcpu\<close>:
    \<^verbatim>\<open>virtual/vcpu.c\<close> and the record \<open>hv\<close> of the state the handlers share. \<open>Vplic\<close>: the emulated
    controller \<^verbatim>\<open>virtual/vplic.c\<close>; the translation of interrupt numbers is a locale, interpreted on both
    configured machines. \<open>Trap\<close>: the handlers of \<^verbatim>\<open>core/trap.c\<close>.
  \<^item> \<open>Boot\<close>: \<^verbatim>\<open>init_vmem\<close> and \<^verbatim>\<open>driver/cpu.c\<close>. \<open>Linker_Script\<close>: the placement of the image by
    \<^verbatim>\<open>helper/linkerscript.c\<close>. \<open>Sboot\<close>: the entry code \<^verbatim>\<open>core/sboot.S\<close> up to \<^verbatim>\<open>main\<close>.
    \<open>Vm_Run\<close>: \<^verbatim>\<open>core/vm_run.c\<close>, and \<open>Startup\<close>: \<^verbatim>\<open>core/main.c\<close>, as the phases between the barriers. \<open>Rounds\<close>: programs in phases that all harts execute, separated by repeated use of
    one barrier, and \<open>Main_Phases\<close>: \<^verbatim>\<open>main\<close> as such a program. \<open>Keygrab\<close>: the drivers, the
    entry code and the trap handler of the guest \<^verbatim>\<open>guest/keygrab\<close>, run against the emulated controller. \<open>Printer\<close>: the guest \<^verbatim>\<open>guest/printer\<close>.
  \<^item> \<open>Printf_Test\<close>: the calls of \<^verbatim>\<open>test/printf_test.c\<close>, evaluated. \<open>Examples\<close>: concrete states at which the theorems are instantiated.

  \<^bold>\<open>What the theorems show.\<close> The allocator hands out every free page once and cleared,
  also when any number of harts call it at the same time, where it refines a map from pages to owners;
  \<^verbatim>\<open>map_page\<close> and \<^verbatim>\<open>map_pages\<close> change exactly the requested translations, keep the tree, never
  touch another table, and return when enough pages are free; the configured system can build its four
  tables, which map exactly their regions; the kernel has no writable and executable page; each hart finds
  its own structure and number; the linker script provides the layout all this needs; the entry code brings
  every hart to \<^verbatim>\<open>main\<close> under a table that agrees with the address conversions; hart 0 boots; traps
  keep the state well formed, change nothing of another machine and treat faults outside the
  controller's window as errors; enabling, claiming and completing an interrupt through the emulated
  controller acts on the physical interrupt it stands for; the world switch preserves the guest's
  registers; the spinlock excludes and refines an abstract lock; the barrier holds back; its
  repeated use in \<^verbatim>\<open>main\<close> keeps the phases apart for the two configured harts, and every hart that gets to
  \<^verbatim>\<open>vm_run\<close> finds all harts on finished tables; but the barrier can block forever, and with three harts let
  one through early; the helpers for bits, numbers, output and firmware calls compute what they are named after.

  \<^bold>\<open>State and composition.\<close> Stateful code is explicit state passing. The allocator and the page tables
  share \<open>kmem_state\<close>, whose memory holds both the free list and the tables, so that aliasing between them
  is a matter of proof. The trap handlers work on \<open>hv\<close>. The locks,
  the barrier and the allocator are step relations over all interleavings of the harts. \<^verbatim>\<open>main\<close> composes
  them: the steps of its barriers are interleaved in every way, with each phase of a hart as one step, and
  the state is shown to be the result of the phases one after the other, to which the sequential lemmas
  on page tables apply. Within a phase only the calls of the allocator are interleaved further: its steps keep
  the pages of the harts apart, and a call that runs alone is the sequential \<open>kmalloc\<close> or \<open>kfree\<close>. The phases
  of \<^verbatim>\<open>vm_run\<close> are run one hart after the other.

  \<^bold>\<open>Loops, fuel and bounds.\<close> All functions are total: loops with a bounded counter are recursions with a
  proved measure, the polling loop of the serial port is a partial function into an option and is proved
  to end when the port becomes ready. No fuel is used. Machine integers keep their width (\<open>uint64\<close> and so
  on are words); an \<^verbatim>\<open>int\<close> is an integer, with the conversions from and to 64 bits written out. The
  numbers 2053 and 5122 of free pages are bounds: one root page and 513 tables for each of the four root
  entries the kernel uses; 513 tables for each of two root entries and 4096 pages of memory for a guest.

  \<^bold>\<open>Hardware.\<close> What the code relies on is stated as a predicate over the device parameter:
  \<open>enable_regs_hw\<close> (enable words of the interrupt controller), \<open>uart_hw\<close> (a 16550 serial port that becomes
  ready after finitely many reads), \<open>pci_hw\<close> (an I/O base register). Each predicate is instantiated by a
  concrete device where it is used. Control and status registers hold what was last written; address
  translation by the hardware is used in \<open>behind\<close>, the view of a hart's structure at its fixed address, and in
  \<open>giga_translate\<close>, for the table of the entry code. Memory is sequentially consistent.

  \<^bold>\<open>Not modelled.\<close> Caches, fences and the weak memory model; the text that \<^verbatim>\<open>panic\<close> prints beyond its
  message; the lock and exception tests, which print for the eye or provoke traps of the hardware; constants
  of \<^verbatim>\<open>include/riscv.h\<close>, \<^verbatim>\<open>include/sbi.h\<close> and \<^verbatim>\<open>driver/uart.c\<close> that no code uses; declarations; the build
  scripts.
\<close>

section \<open>Starting the system\<close>

text \<open>
  (C1) From the freshly initialised allocator the configured system can build all its page
  tables one after the other: the kernel tables of both harts and the guest tables of both
  machines. All four calls return, at the end each table maps exactly its own regions, and the
  pages of memory given to one machine are neither given to the other nor used for a kernel table.
\<close>

theorem system_starts:
  assumes "linker_layout L" "koff (dynamic_start L) \<le> 0xC000000"
    and "free_set (dynamic_start L) s {p. valid_address (dynamic_start L) p}"
    and "vm_placed vm0" "vm_placed vm1" "vm_pgtable vm0 \<noteq> vm_pgtable vm1"
  shows "\<exists>r0 r1 s1 s2 s3 s4 own0 own1 F g0 g1.
    init_vmem L 0 0 s = Inr (r0, s1) \<and> init_vmem L 0 1 s1 = Inr (r1, s2) \<and>
    init_hs_pgtable vm0 s2 = Inr s3 \<and> init_hs_pgtable vm1 s3 = Inr s4 \<and>
    pt_state (dynamic_start L) False r0 s4 own0 F \<and> pt_state (dynamic_start L) False r1 s4 own1 F \<and>
    regions_mapped False r0 (kernel_regions L 0 0) (load64 (mem s4)) \<and>
    regions_mapped False r1 (kernel_regions L 0 1) (load64 (mem s4)) \<and>
    regions_mapped True (vm_pgtable vm0) (guest_regions vm0 g0) (load64 (mem s4)) \<and>
    regions_mapped True (vm_pgtable vm1) (guest_regions vm1 g1) (load64 (mem s4)) \<and>
    (let J0 = page_offsets 0 (memory_size vm0 - image_size vm0);
         J1 = page_offsets 0 (memory_size vm1 - image_size vm1)
     in inj_on g0 J0 \<and> inj_on g1 J1 \<and> g0 ` J0 \<inter> g1 ` J1 = {} \<and>
        (g0 ` J0 \<union> g1 ` J1) \<inter> (pages_of False own0 \<union> pages_of False own1) = {})"
  using system_tables [OF assms] unfolding tables_built_def by blast

theorem system_starts_witness:
  "\<exists>r0 r1 s1 s2 s3 s4. init_vmem demo_linker 0 0 demo_ready = Inr (r0, s1) \<and>
     init_vmem demo_linker 0 1 s1 = Inr (r1, s2) \<and> init_hs_pgtable (demo_config ! 0) s2 = Inr s3 \<and>
     init_hs_pgtable (demo_config ! 1) s3 = Inr s4 \<and>
     regions_mapped False r0 (kernel_regions demo_linker 0 0) (load64 (mem s4))"
  using system_starts [OF demo_layout demo_small demo_ready_free demo_placed [OF demo_config_members(1)]
      demo_placed [OF demo_config_members(2)] demo_images] by blast



text \<open>
  (C3) With 2053 free pages \<^verbatim>\<open>init_vmem\<close> returns on every hart: it takes a free page as root,
  builds a well-formed table over free pages, and the table maps exactly the device windows, the
  image sections, the hart's structure and the memory behind the image, each with its own flags.
  One page for the root and 513 for each of the four root entries in use are enough.
\<close>

theorem init_vmem_maps:
  assumes "linker_layout L" "unat tp < DTB_NR_CPUS" "free_set (dynamic_start L) s F" "2053 \<le> card F"
  shows "\<exists>root s' own' F'. init_vmem L 0 tp s = Inr (root, s') \<and> root \<in> F \<and> F' \<subseteq> F \<and>
    pt_state (dynamic_start L) False root s' own' F' \<and>
    regions_mapped False root (kernel_regions L 0 tp) (load64 (mem s'))"
  using kernel_built [OF assms(1-3), of 0] ka.alloc_free(1) [OF assms(3)] assms(4) by (metis add_0_right)

theorem init_vmem_maps_witness:
  "\<exists>root s'. init_vmem demo_linker 0 1 demo_ready = Inr (root, s') \<and>
     regions_mapped False root (kernel_regions demo_linker 0 1) (load64 (mem s'))"
  using init_vmem_maps [OF demo_layout _ demo_ready_free, of 1] demo_ready_card
  by (auto simp: layout_defs)

text \<open>
  (C4) In the table that \<^verbatim>\<open>init_vmem\<close> builds no address is both writable and executable, none is
  accessible to user mode, and every mapped address is readable.
\<close>

theorem kernel_never_wx:
  assumes "linker_layout L" "unat tp < DTB_NR_CPUS" "free_set (dynamic_start L) s F" "2053 \<le> card F"
    and "init_vmem L 0 tp s = Inr (root, s')" "translation (load64 (mem s')) False 2 root va = Some pte"
  shows "\<not> (pte AND PTE_W \<noteq> 0 \<and> pte AND PTE_X \<noteq> 0) \<and> pte AND PTE_U = 0 \<and> pte AND PTE_R \<noteq> 0"
proof -
  have "regions_mapped False root (kernel_regions L 0 tp) (load64 (mem s'))"
    using kernel_built [OF assms(1-3), of 0] assms(4,5) by (metis Inr_inject Pair_inject add_0_right)
  from kernel_wx [OF this assms(6)] show ?thesis
    by (auto simp: layout_defs and_exp_eq_0_iff_not_bit [of _ 1, simplified]
        and_exp_eq_0_iff_not_bit [of _ 2, simplified] and_exp_eq_0_iff_not_bit [of _ 3, simplified]
        and_exp_eq_0_iff_not_bit [of _ 4, simplified])
qed

theorem kernel_never_wx_witness:
  "\<exists>root s'. init_vmem demo_linker 0 0 demo_ready = Inr (root, s') \<and>
     (\<forall>va. case translation (load64 (mem s')) False 2 root va of
        None \<Rightarrow> True | Some pte \<Rightarrow> \<not> (pte AND PTE_W \<noteq> 0 \<and> pte AND PTE_X \<noteq> 0))"
proof -
  have n: "unat (0 :: uint64) < DTB_NR_CPUS" "2053 \<le> card {p. valid_address (dynamic_start demo_linker) p}"
    using demo_ready_card by (simp_all add: layout_defs)
  obtain root s' where r: "init_vmem demo_linker 0 0 demo_ready = Inr (root, s')"
    using kernel_built [OF demo_layout n(1) demo_ready_free, of 0] n(2) by (metis add_0_right)
  show ?thesis
    using kernel_never_wx [OF demo_layout n(1) demo_ready_free n(2) r] r by (auto split: option.split)
qed



text \<open>
  (C6) Building the table of a configured machine succeeds when 5122 pages are free. The table
  maps exactly the guest's image, its memory beyond the image on pages that were free, are no longer
  free and are pairwise different, and the windows of its devices with the
  permissions of the device (none for the emulated controller): a guest reaches no other physical
  address.
\<close>

theorem guest_table_built:
  assumes "linker_ok dynamic" "free_set dynamic s F" "vm_placed vm" "5122 \<le> card F"
  shows "\<exists>s' F' own' g. init_hs_pgtable vm s = Inr s' \<and> pt_state dynamic True (vm_pgtable vm) s' own' F' \<and>
    regions_mapped True (vm_pgtable vm)
      ([(memory_base vm, guest_flags, page_offsets 0 (image_size vm), \<lambda>j. image_base vm + j),
        (memory_base vm + image_size vm, guest_flags, page_offsets 0 (memory_size vm - image_size vm),
         \<lambda>j. KPA2PA (g j))] @
       map (\<lambda>d. (virt_base d, int_of_u64 (perm d OR PTE_U), page_offsets 0 (dev_size d), \<lambda>j. phys_base d + j))
         (device_list (devices vm))) (load64 (mem s')) \<and>
    fresh_backing (page_offsets 0 (memory_size vm - image_size vm)) F F' own' g"
proof -
  obtain s' F' own' g where b: "init_hs_pgtable vm s = Inr s'" "pt_state dynamic True (vm_pgtable vm) s' own' F'"
    "regions_mapped True (vm_pgtable vm) (guest_regions vm g) (load64 (mem s'))"
    "fresh_backing (page_offsets 0 (memory_size vm - image_size vm)) F F' own' g"
    using guest_built [OF assms(1-3), of 0] assms(4) by (metis add_0_right)
  then show ?thesis unfolding guest_regions_def device_region_def by blast
qed

theorem guest_table_built_witness:
  "\<exists>s'. init_hs_pgtable (demo_config ! 0) demo_ready = Inr s'"
proof -
  have "linker_ok (dynamic_start demo_linker)" using demo_layout by (simp add: linker_layout_def)
  from guest_table_built [OF this demo_ready_free demo_placed [OF demo_config_members(1)]] show ?thesis
    using demo_ready_card by auto
qed

text \<open>
  (C7) For all section sizes that fit into memory, the linker script places the sections page
  aligned and in the order the kernel's page table relies on, and loads every section at exactly the
  physical address that \<^verbatim>\<open>KVA2PA\<close> computes from its virtual address.
\<close>

theorem image_layout:
  assumes "sizes_ok z"
  shows "linker_layout (link_image z) \<and> (\<forall>(vma, lma, fin) \<in> set (placed_sections z). KVA2PA vma = lma)"
  using link_image_layout [OF assms] placed_in_sync by blast

theorem image_layout_witness:
  "linker_layout (link_image demo_sizes) \<and>
   placed_sections demo_sizes ! 1 = (0xffffffc00010a000, 0x8010a000, 0xffffffc00010a64e) \<and>
   KVA2PA 0xffffffc00010a000 = 0x8010a000"
proof -
  have e: "placed_sections demo_sizes ! 1 = (0xffffffc00010a000, 0x8010a000, 0xffffffc00010a64e)"
    by (simp add: placed_sections_def boot_offset_def boot_section_def demo_sizes_def Let_def
        kernel_base_def phys_base_sym_def PA2KVA_def PGROUNDUP_def layout_defs)
  moreover have "placed_sections demo_sizes ! 1 \<in> set (placed_sections demo_sizes)"
    by (simp add: placed_sections_def Let_def)
  ultimately show ?thesis using image_layout [OF demo_sizes_ok] by auto
qed

text \<open>
  (C8) The entry code brings every hart to \<^verbatim>\<open>main\<close>. Under the page table it builds, the hardware
  translates exactly four gigabytes: the first one and the one of memory to themselves, the kernel's
  window as \<^verbatim>\<open>KVA2PA\<close> and the window of memory as \<^verbatim>\<open>KPA2PA\<close> compute; everything else faults. The boot
  hart asks the firmware to start every other hart exactly once, at \<^verbatim>\<open>enter_vas\<close>, whatever the firmware
  answers. Each of these harts jumps to the first instruction of the kernel's text and enters \<^verbatim>\<open>main\<close>
  with its number as argument and thread pointer, and the end of its own structure as stack pointer.
\<close>

theorem entry_code_reaches_main:
  assumes "sizes_ok z" "bsp_size z = PAGE_SIZE" "zero_root (bmem s) (bsp_start z)"
    and "started s = []" "breg s A0 = of_nat boot" "boot < DTB_NR_CPUS"
    and "y = image_syms fail vas z" "b = setup_boot y fw s"
    and "t = b \<or> (\<exists>k. (k, vas, breg s A1) \<in> set (started b) \<and> breg t A0 = k \<and> bmem t = bmem b)"
  shows "(let e = enter_vas y t; c = init_for_c y e in
      (\<forall>va. giga_translate (bmem e) (bsatp e) va = boot_map va) \<and> breg e T0 = text_start (link_image z) \<and>
      breg c A0 = breg t A0 \<and> breg c TP = breg t A0 \<and> breg c SP = cpus (link_image z) (breg t A0) + CPU_SIZE) \<and>
    distinct (map fst (started b)) \<and>
    set (started b) = {(of_nat k, vas, breg s A1) | k. k < DTB_NR_CPUS \<and> k \<noteq> boot} \<and> breg b A0 = of_nat boot"
proof -
  have y: "sym_enter_vas y = vas" "sym_bsp_root y = bsp_start z" using assms(7) by (simp_all add: image_syms_def)
  have b: "breg b A0 = breg s A0" "bmem b = boot_table (bmem s) (bsp_start z)" "started b =
      map (\<lambda>k. (of_nat k, vas, breg s A1)) (filter (\<lambda>k. breg s A0 \<noteq> of_nat k) (rev [0..<DTB_NR_CPUS]))"
    using setup_boot_effect [of y fw s] assms(4,8) y by auto
  then have m: "bmem t = boot_table (bmem s) (bsp_start z)" using assms(9) by auto
  note h = hart_enters [OF assms(1-3) m assms(7)]
  show ?thesis
    using h b(1) woken_harts [OF assms(6), of vas "breg s A1"] unfolding b(3) assms(5) Let_def by auto
qed

theorem entry_code_reaches_main_witness:
  "\<exists>b y. started b = [(1, 0x80100040, 0x87000000)] \<and>
     (let e = enter_vas y b in giga_translate (bmem e) (bsatp e) 0xffffffc000100000 = Some 0x80100000)"
proof -
  let ?s = "\<lparr>breg = (\<lambda>_. 0)(A1 := 0x87000000), bmem = \<lambda>_. 0, bsatp = 0, bstvec = 0, started = []\<rparr>"
  let ?z = "demo_sizes\<lparr>bsp_size := PAGE_SIZE\<rparr>"
  let ?y = "image_syms 0 0x80100040 ?z"
  let ?b = "setup_boot ?y (\<lambda>_ _ _. (7, 7)) ?s"
  have z: "sizes_ok ?z" by (simp add: sizes_ok_def demo_sizes_def CPU_SIZE_eq layout_defs)
  have m: "zero_root (bmem ?s) (bsp_start ?z)" by (simp add: zero_root_clear)
  have e: "boot_map 0xffffffc000100000 = Some 0x80100000" by (simp add: boot_map_def KVA2PA_def layout_defs)
  have "started ?b = [(1, 0x80100040, 0x87000000)]"
    using setup_boot_effect [of ?y "\<lambda>_ _ _. (7, 7)" ?s] by (auto simp: image_syms_def DTB_NR_CPUS_def numeral_2_eq_2)
  moreover have "let e = enter_vas ?y ?b in giga_translate (bmem e) (bsatp e) 0xffffffc000100000 = Some 0x80100000"
    using entry_code_reaches_main [of ?z ?s 0 ?y 0 "0x80100040" ?b "\<lambda>_ _ _. (7, 7)" ?b] z m e
    by (simp add: Let_def DTB_NR_CPUS_def)
  ultimately show ?thesis by blast
qed



text \<open>
  (C10) When the configuration passes \<^verbatim>\<open>check_cpu_configuration\<close> and its masks name existing harts
  only, every hart belongs to exactly one machine and \<^verbatim>\<open>init_vcpu\<close> succeeds on it: the virtual CPU
  refers to that machine, \<^verbatim>\<open>a0\<close> holds the virtual hart number, \<^verbatim>\<open>a1\<close> holds 0xff, the other registers
  are zero, and \<^verbatim>\<open>sscratch\<close> points to the register file. The virtual hart numbers of a machine are
  pairwise different and exactly 0 up to the number of its harts: exactly one hart has number zero, the
  one that builds the page table.
\<close>

theorem harts_configured:
  assumes "check_cpu_configuration (config s) = Inr ()"
    and "\<forall>c \<in> set (config s). \<forall>k. bit (cpu_affinity c) k \<longrightarrow> k < DTB_NR_CPUS"
    and "unat h < DTB_NR_CPUS" "length (vcpus s) = DTB_NR_CPUS"
  shows "(\<exists>i s'. init_vcpu a h (unat h) s = Inr s' \<and>
    {j. j < length (config s) \<and> bit (cpu_affinity (config s ! j)) (unat h)} = {i} \<and>
    vcpus s' ! unat h = \<lparr>vhartid = get_vhartid h (cpu_affinity (config s ! i)), last_claimed_irq_id = 0, conf = i,
      regs = (replicate 32 0)[10 := get_vhartid h (cpu_affinity (config s ! i)), 11 := 0xff]\<rparr> \<and>
    sscratch (csr s') = regs_addr a (unat h)) \<and>
   (\<forall>c \<in> set (config s). inj_on (\<lambda>h. get_vhartid h (cpu_affinity c)) (affinity_harts (cpu_affinity c)) \<and>
      unat ` (\<lambda>h. get_vhartid h (cpu_affinity c)) ` affinity_harts (cpu_affinity c) = {..<popcount (cpu_affinity c)})"
proof (intro conjI ballI get_vhartid_inj get_vhartid_image)
  show "\<exists>i s'. init_vcpu a h (unat h) s = Inr s' \<and>
    {j. j < length (config s) \<and> bit (cpu_affinity (config s ! j)) (unat h)} = {i} \<and>
    vcpus s' ! unat h = \<lparr>vhartid = get_vhartid h (cpu_affinity (config s ! i)), last_claimed_irq_id = 0, conf = i,
      regs = (replicate 32 0)[10 := get_vhartid h (cpu_affinity (config s ! i)), 11 := 0xff]\<rparr> \<and>
    sscratch (csr s') = regs_addr a (unat h)"
    by (rule hart_configured) (use assms in simp_all)
qed

theorem harts_configured_witness:
  "\<exists>s'. init_vcpu 0xffffffc000110000 1 1 (demo_hv ()) = Inr s' \<and> sscratch (csr s') = regs_addr 0xffffffc000110000 1"
proof -
  have c: "check_cpu_configuration (config (demo_hv ())) = Inr ()"
    using demo_checked by (simp add: demo_hv_def)
  have d: "\<forall>c \<in> set (config (demo_hv ())). \<forall>k. bit (cpu_affinity c) k \<longrightarrow> k < DTB_NR_CPUS"
    by (simp add: demo_hv_def demo_config_def config_table_def layout_defs bit_1_iff bit_2_iff)
  have "unat (1 :: uint64) < DTB_NR_CPUS" "length (vcpus (demo_hv ())) = DTB_NR_CPUS"
    by (simp_all add: demo_hv_def layout_defs)
  from harts_configured [OF c d this, of "0xffffffc000110000"] show ?thesis unfolding unsigned_1 by blast
qed


section \<open>Page tables\<close>

text \<open>
  (C12) When \<^verbatim>\<open>map_page\<close> returns, it returns 0, the page was not mapped before, its translation is
  now exactly the requested leaf, and the translation of every address outside that page is
  unchanged: no aliasing between table pages can occur. The tables stay a tree: new tables are free
  pages taken off the free list, existing tables stay, and no word outside the table's own entries
  and the free pages changes.
\<close>

theorem map_page_exact:
  assumes "pt_state dynamic x4 root s own F" "map_page root va pa fl x4 s = Inr (rv, s')"
  shows "rv = 0 \<and> translation (load64 (mem s)) x4 2 root va = None \<and>
    (\<forall>va'. translation (load64 (mem s')) x4 2 root va' =
       (if same_page x4 va va' then Some (PA2PTE pa OR u64_of_int fl OR PTE_V)
        else translation (load64 (mem s)) x4 2 root va')) \<and>
    (\<exists>own' F'. pt_mapped dynamic x4 root s own F s' own' F')"
  using map_page_translation [OF assms] map_page_mapped [OF assms] by blast

theorem map_page_exact_witness:
  "\<exists>s'. map_page demo_root 0x80100000 0x80300000 6 True demo_kmem = Inr (0, s') \<and>
     translation (load64 (mem s')) True 2 demo_root 0x80100000 =
       Some (PA2PTE 0x80300000 OR u64_of_int 6 OR PTE_V)"
proof -
  obtain s' where s': "map_page demo_root 0x80100000 0x80300000 6 True demo_kmem = Inr (0, s')"
    using demo_map_page ..
  from map_page_exact [OF demo_pt_state s'] show ?thesis using s' by (auto simp: same_page_def)
qed

text \<open>
  (C13) \<^verbatim>\<open>map_page\<close> always succeeds on an unmapped page when two pages are free (one per missing
  table level), and stops with \<open>tried to remap page\<close> on a page that is mapped.
\<close>

theorem map_page_defined:
  assumes "pt_state dynamic x4 root s own F" "2 \<le> card F"
  shows "if translation (load64 (mem s)) x4 2 root va = None
    then \<exists>s'. map_page root va pa fl x4 s = Inr (0, s')
    else map_page root va pa fl x4 s = Inl (Panic ''tried to remap page'')"
  using map_page_total [OF assms] map_page_remap [OF assms(1)] by auto

theorem map_page_defined_witness:
  "\<exists>s'. map_page demo_root 0x80100000 0x80300000 6 True demo_kmem = Inr (0, s')"
  using map_page_defined [OF demo_pt_state, where va = "0x80100000" and pa = "0x80300000" and fl = 6]
  by (simp add: demo_unmapped demo_card)

text \<open>
  (C14) Translating an address of a page that was just mapped gives the physical page with the
  offset of the address: \<^verbatim>\<open>convert_va_to_pa\<close> inverts \<^verbatim>\<open>map_page\<close> for every flag value below 2^10.
\<close>

theorem map_then_convert:
  assumes "pt_state dynamic x4 root s own F" "map_page root va pa fl x4 s = Inr (rv, s')"
    and "u64_of_int fl < 1024" "same_page x4 va va'"
  shows "convert_va_to_pa root va' x4 s' = Inr (PGROUNDDOWN pa OR take_bit 12 va')"
proof -
  obtain own' F' where st': "pt_state dynamic x4 root s' own' F'"
    using map_page_mapped [OF assms(1,2)] by (auto simp: pt_mapped_def)
  have "translation (load64 (mem s')) x4 2 root va' = Some (PA2PTE pa OR u64_of_int fl OR PTE_V)"
    using map_page_translation(3) [OF assms(1,2)] assms(4) by simp
  from convert_va_to_pa_mapped [OF st' this] show ?thesis by (simp add: PTE2PA_leaf assms(3))
qed

theorem map_then_convert_witness:
  "\<exists>s'. map_page demo_root 0x80100000 0x80300000 6 True demo_kmem = Inr (0, s') \<and>
     convert_va_to_pa demo_root 0x80100abc True s' = Inr 0x80300abc"
proof -
  obtain s' where s': "map_page demo_root 0x80100000 0x80300000 6 True demo_kmem = Inr (0, s')"
    using demo_map_page ..
  have "same_page True 0x80100000 0x80100abc"
    by (simp add: same_page_def va2idx_eq)
  from map_then_convert [OF demo_pt_state s' _ this] show ?thesis
    using s' by (simp add: u64_of_int_def PGROUNDDOWN_def layout_defs)
qed

text \<open>
  (C15) \<^verbatim>\<open>map_pages\<close> with a physical base maps every page of the rounded-up range to the
  corresponding physical page, maps nothing else, changes no earlier mapping, and keeps the table
  invariant.
\<close>

theorem map_pages_physical:
  assumes "pt_state dynamic x4 root s own F" "pa \<noteq> 0" "map_pages root va pa sz fl x4 s = Inr (rv, s')"
  shows "rv = 0 \<and> (\<exists>own' F'. pt_mapped dynamic x4 root s own F s' own' F') \<and>
    range_mapped x4 root va fl (page_offsets 0 sz) (\<lambda>j. pa + j) (load64 (mem s)) (load64 (mem s'))"
  using map_pages_loop_phys [OF assms(1,2)] assms(3) by (simp add: map_pages_def)

theorem map_pages_physical_witness:
  "\<exists>s'. map_pages demo_root 0x80100000 0x80300000 0x1000 6 True demo_kmem = Inr (0, s') \<and>
     range_mapped True demo_root 0x80100000 6 (page_offsets 0 0x1000) (\<lambda>j. 0x80300000 + j)
       (load64 (mem demo_kmem)) (load64 (mem s'))"
proof -
  obtain s' where s': "map_pages demo_root 0x80100000 0x80300000 0x1000 6 True demo_kmem = Inr (0, s')"
    using demo_map_pages ..
  from map_pages_physical [OF demo_pt_state _ s'] s' show ?thesis by auto
qed

text \<open>
  (C16) \<^verbatim>\<open>map_pages\<close> without a physical base backs every page of the range with a page of its own
  that was free, is no longer free and is not used as a page table: guest memory shares no page
  with the tables, with the free list or with another page of the range.
\<close>

theorem map_pages_fresh:
  assumes "pt_state dynamic x4 root s own F" "map_pages root va 0 sz fl x4 s = Inr (rv, s')"
  shows "rv = 0 \<and> (\<exists>own' F' g. pt_mapped dynamic x4 root s own F s' own' F' \<and>
    range_mapped x4 root va fl (page_offsets 0 sz) (\<lambda>j. KPA2PA (g j))
      (load64 (mem s)) (load64 (mem s')) \<and>
    fresh_backing (page_offsets 0 sz) F F' own' g)"
  using map_pages_loop_fresh [OF assms(1) refl] assms(2) by (simp add: map_pages_def)

theorem map_pages_fresh_witness:
  "\<exists>s' own' F' g. map_pages demo_root 0x80100000 0 0x1000 6 True demo_kmem = Inr (0, s') \<and>
     fresh_backing (page_offsets 0 0x1000) demo_free F' own' g"
proof -
  obtain s' where s': "map_pages demo_root 0x80100000 0 0x1000 6 True demo_kmem = Inr (0, s')"
    using demo_map_pages_fresh ..
  from map_pages_fresh [OF demo_pt_state s'] s' show ?thesis by blast
qed

text \<open>
  (C17) Mapping into one machine's table never changes the translation of another machine's
  table: with disjoint tables, every address translates there as before, that table stays well
  formed over the remaining free pages and the tables stay disjoint.
\<close>

theorem tables_isolated:
  assumes "pt_state dynamic x4 root s own F" "pt_state dynamic x4' root2 s own2 F"
    and "tables_disjoint x4 own x4' own2" and "map_pages root va pa sz fl x4 s = Inr (rv, s')"
  shows "\<exists>own' F'. pt_state dynamic x4 root s' own' F' \<and> pt_state dynamic x4' root2 s' own2 F' \<and>
    tables_disjoint x4 own' x4' own2 \<and>
    (\<forall>va. translation (load64 (mem s')) x4' 2 root2 va = translation (load64 (mem s)) x4' 2 root2 va)"
proof -
  obtain own' F' where m: "pt_mapped dynamic x4 root s own F s' own' F'"
    using map_pages_mapped(2) [OF assms(1,4)] by blast
  then have "pt_state dynamic x4 root s' own' F'" by (simp add: pt_mapped_def)
  with pt_mapped_other [OF m assms(2,3)] show ?thesis by blast
qed

theorem tables_isolated_witness:
  "\<exists>s'. map_pages demo_root 0x80100000 0x80300000 0x1000 6 True demo_kmem = Inr (0, s') \<and>
     (\<forall>va. translation (load64 (mem s')) True 2 demo_root2 va =
        translation (load64 (mem demo_kmem)) True 2 demo_root2 va)"
proof -
  obtain s' where s': "map_pages demo_root 0x80100000 0x80300000 0x1000 6 True demo_kmem = Inr (0, s')"
    using demo_map_pages ..
  from tables_isolated [OF demo_pt_state demo_pt_state2 demo_tables_disjoint s'] s'
  show ?thesis by blast
qed

section \<open>Traps and the emulated interrupt controller\<close>



text \<open>
  (C19) A trap of one hart changes nothing of another machine: allocator, kernel memory and
  configuration stay, the virtual CPUs of other harts stay, and an emulated store or load writes only
  interrupt controller registers that belong to the machine and hart: the priorities of its own
  interrupts and the enable, threshold and claim registers of its own context, which are disjoint
  from those of every machine with other interrupts on another hart.
\<close>

theorem trap_isolation:
  assumes "hstrapvec dev i h scause s = Inr s'" "own_irqs (devs_of h s) \<inter> own_irqs (devs_of h' s) = {}" "pctx_of h \<noteq> pctx_of h'"
  shows "kmem s' = kmem s \<and> config s' = config s \<and> (\<forall>w. w \<noteq> unat h \<longrightarrow> vcpus s' ! w = vcpus s ! w) \<and>
    touches dev (owned_regs (devs_of h s) (pctx_of h) \<union> pending_regs (devs_of h s))
      (owned_regs (devs_of h s) (pctx_of h)) (plic s) (plic s') \<and>
    owned_regs (devs_of h s) (pctx_of h) \<inter> owned_regs (devs_of h' s) (pctx_of h') = {}"
  using trap_frame_trap [OF assms(1)] trap_touches [OF assms(1)] owned_regs_disjoint [OF assms(2,3)]
  by (simp add: trap_frame_def)

theorem trap_isolation_witness:
  "\<exists>s'. hstrapvec storage demo_instr 1 (2 ^ 63 + 9) (demo_hv (\<lambda>_. 2)) = Inr s' \<and>
     vcpus s' ! 0 = vcpus (demo_hv (\<lambda>_ :: uint64. 2 :: uint32)) ! 0 \<and>
     touches storage (owned_regs vm1_devices 3 \<union> pending_regs vm1_devices) (owned_regs vm1_devices 3) (\<lambda>_. 2) (plic s')"
proof -
  let ?s = "demo_hv (\<lambda>_. 2 :: uint32)"
  have "\<exists>s'. vplic_handle_interrupt storage 1 ?s = Inr s'"
    by (simp add: vplic_handle_interrupt_def get_vcpu_def demo_hv_def Let_def split_beta)
  then obtain s' where s': "hstrapvec storage demo_instr 1 (2 ^ 63 + 9) ?s = Inr s'"
    by (auto simp: hstrapvec_def hs_interrupt_handler_def csr_defs)
  have "own_irqs (devs_of 1 ?s) \<inter> own_irqs (devs_of 0 ?s) = {}" "pctx_of 1 \<noteq> pctx_of 0"
    by (simp_all add: demo_devs own_irqs_configured demo_contexts)
  from trap_isolation [OF s' this] s' show ?thesis by (auto simp: demo_devs demo_contexts)
qed



text \<open>
  (C21) The emulated controller refines a controller of the guest's own: when the driver of a guest
  enables or disables virtual interrupt \<open>x\<close> by reading and writing the emulated enable register, the
  physical controller ends with exactly the physical interrupt of \<open>x\<close> enabled or disabled in the
  physical context of the hart; every other interrupt of every context stays as it was, and a number
  that stands for no interrupt of the machine changes nothing.
\<close>

theorem guest_enable_refines:
  assumes "enable_regs_hw dev peek impl" "irqs_ok (devs_of hartid s)"
    and "\<forall>p \<in> own_irqs (devs_of hartid s). good (pctx_of hartid) p \<longrightarrow> implemented impl (pctx_of hartid) p"
    and "\<not> bad_context (pctx_of hartid)" "vctx_of hartid s < 15872" "1 \<le> x" "x \<le> 1023" "good c y"
  shows "enabled dev c y (plic (guest_plic_set_enabled (virt_plic dev hartid) (uint (vctx_of hartid s)) x e s)) \<longleftrightarrow>
    (if c = pctx_of hartid \<and> y = virt_to_phys_irq (devs_of hartid s) x then e \<noteq> 0 else enabled dev c y (plic s))"
  by (rule guest_set_enabled_effect [OF assms(1,2) _ assms(4,5) _ assms(8)])
     (use assms(3,6,7) in \<open>auto simp: bad_source_def\<close>)

theorem guest_enable_refines_witness:
  "enabled storage 3 33 (plic (guest_plic_set_enabled (virt_plic storage 1) 1 10 1 (demo_hv (\<lambda>_. 0)))) \<and>
   \<not> enabled storage 3 10 (plic (guest_plic_set_enabled (virt_plic storage 1) 1 10 1 (demo_hv (\<lambda>_. 0))))"
proof -
  let ?s = "demo_hv (\<lambda>_. 0 :: uint32)"
  have g: "good 3 33" "good 3 10" "\<not> bad_context (pctx_of 1)" by (simp_all add: good_def bad_context_def bad_source_def demo_contexts)
  have t: "virt_to_phys_irq vm1_devices 10 = 33" by (rule virt_to_phys_pair [OF irqs_ok_configured(2)]) (simp add: irq_pairs_configured)
  have im: "\<forall>p \<in> own_irqs (devs_of 1 ?s). good (pctx_of 1) p \<longrightarrow> implemented (\<lambda>_. - 1) (pctx_of 1) p"
    by (simp add: implemented_def nat_less_iff)
  have ok: "irqs_ok (devs_of 1 ?s)" by (simp add: demo_devs irqs_ok_configured)
  note r = guest_enable_refines [OF storage_enable_regs ok im g(3), of 10 3 _ 1]
  show ?thesis using r [of 33] r [of 10] g t
    by (simp add: demo_contexts demo_devs) (simp add: enabled_def plic_get_enabled_def storage_def demo_hv_def)
qed

text \<open>
  (C22) A physical interrupt of a machine goes all the way: the hypervisor claims it and raises the
  virtual interrupt; the guest's handler claims its virtual number, echoes the received character and
  completes it; the hypervisor completes exactly the physical interrupt it had claimed, in the same
  context, forgets it and withdraws the virtual interrupt.
\<close>

theorem interrupt_roundtrip:
  assumes "unat hartid < length (vcpus s)" "vctx_of hartid s < 15872" "uint (vctx_of hartid s) = 2 * tp + 1"
    and "irqs_ok (devs_of hartid s)" "irqs_small (devs_of hartid s)"
    and "plic_claim dev (pctx_of hartid) (plic s) = (irq, d1)" "sint irq \<in> own_irqs (devs_of hartid s)"
    and "uart_hw (guest_port udev) view delay" "\<not> dlab (view u1)" "byte_read udev u GUEST_DTB_SERIAL = (c, u1)"
  shows "\<exists>s1 s2 u2. vplic_handle_interrupt dev hartid s = Inr s1 \<and> bit (hvip (csr s1)) 10 \<and>
    keygrab_trap (virt_plic dev hartid) udev tp (s1, u) = Inr (s2, u2) \<and>
    ns_sent (view u2) = ns_sent (view u1) @ [c, 10] \<and> \<not> bit (hvip (csr s2)) 10 \<and>
    last_claimed_irq_id (vcpus s2 ! unat hartid) = 0 \<and> plic s2 = plic_complete dev (pctx_of hartid) irq d1"
  by (rule interrupt_delivered [OF assms])

theorem interrupt_roundtrip_witness:
  "\<exists>s1 s2 u2. vplic_handle_interrupt pending_list 1 (demo_hv [33]) = Inr s1 \<and>
     keygrab_trap (virt_plic pending_list 1) (guest_slow_port 3) 0 (s1, demo_port) = Inr (s2, u2) \<and>
     ns_sent u2 = [0x60, 10] \<and> last_claimed_irq_id (vcpus s2 ! 1) = 0"
proof -
  let ?s = "demo_hv [33 :: uint32]"
  have "unat (1 :: uint64) < length (vcpus ?s)" "vctx_of 1 ?s < 15872" "uint (vctx_of 1 ?s) = 2 * 0 + 1"
    "irqs_ok (devs_of 1 ?s)" "irqs_small (devs_of 1 ?s)" "plic_claim pending_list (pctx_of 1) (plic ?s) = (33, [])"
    "sint (33 :: uint32) \<in> own_irqs (devs_of 1 ?s)" "\<not> dlab (id demo_port)"
    "byte_read (guest_slow_port 3) demo_port GUEST_DTB_SERIAL = (0x60, demo_port)"
    by (simp_all add: demo_contexts demo_devs irqs_ok_configured irqs_small_configured own_irqs_configured
        plic_claim_def bad_context_def pending_list_def guest_slow_port_def demo_port_def dlab_def bit_iff_odd)
  from interrupt_roundtrip [OF this(1-7) guest_slow_port_hw this(8,9)] show ?thesis
    by (auto simp: demo_port_def)
qed



text \<open>
  (C24) The hypervisor remembers one claimed interrupt per hart. When a second interrupt of the
  machine arrives before the guest has completed the first, completing the first changes nothing:
  it is not passed on to the physical controller and the virtual interrupt stays raised.
\<close>

theorem second_interrupt_loses_completion:
  assumes "unat hartid < length (vcpus s)" "vctx_of hartid s < 15872"
    and "irqs_ok (devs_of hartid s)" "irqs_small (devs_of hartid s)"
    and "plic_claim dev (pctx_of hartid) (plic s) = (a, d1)" "sint a \<in> own_irqs (devs_of hartid s)"
    and "plic_claim dev (pctx_of hartid) d1 = (b, d2)" "b \<noteq> a" "b \<noteq> 0"
  shows "\<exists>s1 s2. vplic_handle_interrupt dev hartid s = Inr s1 \<and> vplic_handle_interrupt dev hartid s1 = Inr s2 \<and>
    plic s2 = d2 \<and>
    guest_plic_complete (virt_plic dev hartid) (uint (vctx_of hartid s))
      (word_of_int (phys_to_virt_irq (devs_of hartid s) (sint a))) s2 = s2"
  by (rule completion_lost [OF assms])

theorem second_interrupt_loses_completion_witness:
  "\<exists>s1 s2. vplic_handle_interrupt pending_list 1 (demo_hv [33, 2]) = Inr s1 \<and>
     vplic_handle_interrupt pending_list 1 s1 = Inr s2 \<and>
     guest_plic_complete (virt_plic pending_list 1) 1 10 s2 = s2"
proof -
  let ?s = "demo_hv [33 :: uint32, 2]"
  have t: "phys_to_virt_irq vm1_devices 33 = 10" by (rule virt_to_phys_pair [OF irqs_ok_configured(2)]) (simp add: irq_pairs_configured)
  have "unat (1 :: uint64) < length (vcpus ?s)" "vctx_of 1 ?s < 15872"
    "irqs_ok (devs_of 1 ?s)" "irqs_small (devs_of 1 ?s)" "plic_claim pending_list (pctx_of 1) (plic ?s) = (33, [2])"
    "sint (33 :: uint32) \<in> own_irqs (devs_of 1 ?s)" "plic_claim pending_list (pctx_of 1) [2] = (2, [])"
    by (simp_all add: demo_contexts demo_devs irqs_ok_configured
        irqs_small_configured own_irqs_configured plic_claim_def bad_context_def pending_list_def)
  from second_interrupt_loses_completion [OF this] t show ?thesis by (auto simp: demo_contexts demo_devs)
qed

text \<open>
  (C25) \<^verbatim>\<open>parse_htinst\<close> is the inverse of the encoding of a transformed load or store: it accepts
  exactly the words whose address offset and upper fields are zero, returns the five fields the
  instruction was built from, and the accepted word is the encoding of the fields it returns.
\<close>

theorem htinst_roundtrip:
  assumes "src < 32" "f3 < 8" "dst < 32" "op < 128"
  shows "parse_htinst (transformed src 0 f3 dst op) i =
      Inr (i\<lparr>opcode := op, rd := dst, funct3 := f3, addr_offset := 0, rs2 := src\<rparr>) \<and>
    (\<forall>ht j. parse_htinst ht i = Inr j \<longrightarrow> take_bit 32 ht = transformed (rs2 j) 0 (funct3 j) (rd j) (opcode j))"
  using parse_htinst_transformed [OF assms] parse_htinst_fields(1) by blast

theorem htinst_roundtrip_witness:
  "parse_htinst (transformed 5 0 2 0 0x23) demo_instr =
     Inr (demo_instr\<lparr>opcode := 0x23, rd := 0, funct3 := 2, addr_offset := 0, rs2 := 5\<rparr>)"
  using htinst_roundtrip [of 5 2 0 "0x23" demo_instr] by simp



section \<open>The world switch\<close>

text \<open>
  (C27) Leaving a guest with \<^verbatim>\<open>VM_EXIT\<close> and entering it again with \<^verbatim>\<open>VM_ENTER\<close> restores all of its
  registers, whatever the hypervisor did in between to the registers and to memory outside the save
  area that \<^verbatim>\<open>sscratch\<close> names, and leaves \<^verbatim>\<open>sscratch\<close> itself unchanged.
\<close>

theorem world_switch_roundtrip:
  assumes "length (xregs m) = 32" "take_bit 3 (scratch m) = 0"
    and "length (xregs n) = 32" "scratch n = scratch (exec VM_EXIT m)"
    and "\<forall>k \<in> {1..<32}. load64 (mmem n) (slot (scratch m) k) = load64 (mmem (exec VM_EXIT m)) (slot (scratch m) k)"
    and "0 < k" "k < 32"
  shows "xregs (exec VM_ENTER n) ! k = xregs m ! k \<and> scratch (exec VM_ENTER n) = scratch m \<and>
    mmem (exec VM_ENTER n) = mmem n"
  using VM_EXIT_saves [OF assms(1,2) refl] VM_ENTER_restores [OF assms(3) assms(4)] assms(5-7) by simp

theorem world_switch_roundtrip_witness:
  "xregs (exec VM_ENTER ((exec VM_EXIT \<lparr>xregs = map of_nat [0..<32], scratch = 0xffffffc000110018, mmem = \<lambda>_. 0\<rparr>)
     \<lparr>xregs := replicate 32 0\<rparr>)) ! 31 = 31"
proof -
  let ?m = "\<lparr>xregs = map of_nat [0..<32], scratch = 0xffffffc000110018, mmem = \<lambda>_. 0\<rparr>"
  let ?n = "(exec VM_EXIT ?m)\<lparr>xregs := replicate 32 0\<rparr>"
  have "xregs (exec VM_ENTER ?n) ! 31 = xregs ?m ! 31 \<and> scratch (exec VM_ENTER ?n) = scratch ?m \<and>
      mmem (exec VM_ENTER ?n) = mmem ?n"
    by (rule world_switch_roundtrip) simp_all
  then show ?thesis by simp
qed

section \<open>Locks and barriers\<close>

text \<open>
  (C28) In every interleaving of any number of harts, the instructions of the spinlock refine an
  abstract lock, which is free or owned by one hart and changes only by a hart entering the free lock
  or the owner leaving it: every step of every reachable state is such a change of the owner or leaves
  it unchanged. The owner is the hart between \<^verbatim>\<open>acquire\<close> and \<^verbatim>\<open>release\<close>, so at most one hart is there,
  and the lock word is 1 exactly while one is.
\<close>

theorem spinlock_refines:
  assumes "transition_system.reach spin_init spin_step s" "spin_step s s'"
  shows "(owner s' = owner s \<or> lock_step (owner s) (owner s')) \<and>
    transition_system.reach (\<lambda>ow. ow = None) lock_step (owner s) \<and> (\<forall>h. owner s = Some h \<longleftrightarrow> pcs s h = Inside) \<and>
    (\<forall>h h'. pcs s h = Inside \<and> pcs s h' = Inside \<longrightarrow> h = h') \<and> word s = (if \<exists>h. pcs s h = Inside then 1 else 0)"
  using sl.abs_step [OF assms] sl.abs_reach [OF assms(1)] owner_iff [OF spin_inv_reach [OF assms(1)]]
    spin_word [OF spin_inv_reach [OF assms(1)]] by (metis option.inject)

theorem spinlock_refines_witness:
  "lock_step (owner (move 1 Inside \<lparr>word = 1, pcs = \<lambda>_. Outside\<rparr>)) None \<and>
   owner (move 1 Inside \<lparr>word = 1, pcs = \<lambda>_. Outside\<rparr>) = Some 1"
proof -
  let ?s = "move 1 Inside \<lparr>word = 1, pcs = \<lambda>_. Outside\<rparr>"
  have st: "spin_step ?s (move 1 Outside (?s\<lparr>word := 0\<rparr>))" by (rule spin_step.amoswap_release) (simp add: move_def)
  note r = spinlock_refines [OF demo_spin_reach st]
  then have "owner ?s = Some 1" by (simp add: move_def)
  moreover have "owner (move 1 Outside (?s\<lparr>word := 0\<rparr>)) = None" by (simp add: owner_def move_def)
  ultimately show ?thesis using r by auto
qed

text \<open>
  (C29) In every interleaving of \<open>n\<close> harts that call \<^verbatim>\<open>wait_barrier\<close>, a hart that has returned
  proves that all harts have arrived: nobody leaves the barrier early. When all have returned, the
  barrier is in the state in which the next round can start.
\<close>

theorem barrier_holds_back:
  assumes "transition_system.reach (wait_init n) (wait_step n) s" "h < n" "wpc s h = Returned"
  shows "(\<forall>k < n. has_arrived (wpc s k)) \<and>
    ((\<forall>k < n. wpc s k = Returned) \<longrightarrow> wait_init n (s\<lparr>wpc := \<lambda>_. Acquire1\<rparr>))"
  using returned_all_arrived [OF assms] all_returned_reusable [OF assms(1)] assms(2) by auto

theorem barrier_holds_back_witness:
  "let s = run_schedule [0, 0, 0, 0, 0, 1, 1, 1, 1, 1, 1, 1, 0, 0, 0, 0, 0, 1] (fresh_barrier 2) in
     wpc s 0 = Returned \<and> wait_init 2 (s\<lparr>wpc := \<lambda>_. Acquire1\<rparr>)"
proof -
  let ?s = "run_schedule [0, 0, 0, 0, 0, 1, 1, 1, 1, 1, 1, 1, 0, 0, 0, 0, 0, 1] (fresh_barrier 2)"
  have r: "transition_system.reach (wait_init 2) (wait_step 2) ?s"
    by (rule run_schedule_reach [OF fresh_barrier_reach]) auto
  from barrier_holds_back [OF r _ good_schedule(1)] good_schedule show ?thesis
    by (auto simp: less_2_cases_iff Let_def)
qed

text \<open>
  (C30) The barrier can fail, in three ways. Two harts in one round: both decrement the counter
  before either tests it, both take the branch of the last hart, and each waits for the other to be
  counted. Three harts that use the barrier again: a hart that has passed calls again and decrements
  the counter before another has seen the reset, which then never sees it. In both states no further
  step of any hart changes anything. Three harts of which two take the branch of the last hart: the second
  reset lets the third hart through a barrier that the others have not reached, so that it executes
  phase 2 before they have executed phase 1.
\<close>

theorem barrier_can_fail:
  assumes "set sched2 \<subseteq> {0, 1}" "set sched3 \<subseteq> {0, 1, 2}"
    and "run_acts act [(0, 0), (0, 1), (0, 2), (1, 0), (2, 0)] b = Inr b'"
  shows "(\<exists>s. transition_system.reach (wait_init 2) (wait_step 2) s \<and> run_schedule sched2 s = s \<and>
      wpc s 0 = Last_wait \<and> wpc s 1 = Last_wait \<and> passed (wbar s) \<noteq> initial (wbar s)) \<and>
    (\<exists>s. transition_system.reach (wait_init 3) (again_step 3) s \<and> fold wait_again_step sched3 s = s \<and>
      wpc s 0 = Wait_reset \<and> wpc s 1 = Wait_reset \<and> wpc s 2 = Last_wait \<and> tokens (wbar s) = 2) \<and>
    (\<exists>s. pa.reach 3 b act 3 s \<and> trace s = [(0, 0), (0, 1), (0, 2), (1, 0), (2, 0)] \<and> shared s = b')"
proof (intro conjI)
  let ?s = "run_schedule bad_schedule (fresh_barrier 2)"
  have "transition_system.reach (wait_init 2) (wait_step 2) ?s"
    by (rule run_schedule_reach [OF fresh_barrier_reach]) (auto simp: bad_schedule_def)
  moreover have "run_schedule sched2 ?s = ?s" using assms by (intro bad_schedule_stuck) auto
  ultimately show "\<exists>s. transition_system.reach (wait_init 2) (wait_step 2) s \<and> run_schedule sched2 s = s \<and>
      wpc s 0 = Last_wait \<and> wpc s 1 = Last_wait \<and> passed (wbar s) \<noteq> initial (wbar s)"
    by (intro exI [of _ ?s]) (simp add: bad_schedule_state)
next
  let ?s = "fold wait_again_step reuse_schedule (fresh_barrier 3)"
  have "transition_system.reach (wait_init 3) (again_step 3) ?s"
    by (rule again_schedule_reach [OF wa.reach_init [OF fresh_barrier_init]]) (auto simp: reuse_schedule_def)
  moreover have "fold wait_again_step sched3 ?s = ?s" using assms by (intro reuse_schedule_stuck) auto
  ultimately show "\<exists>s. transition_system.reach (wait_init 3) (again_step 3) s \<and> fold wait_again_step sched3 s = s \<and>
      wpc s 0 = Wait_reset \<and> wpc s 1 = Wait_reset \<and> wpc s 2 = Last_wait \<and> tokens (wbar s) = 2"
    by (intro exI [of _ ?s]) (simp add: reuse_schedule_state)
next
  have "pa.reach 3 b act 3 (fold (phase_step act 3) overtaking (phase_start 3 b))"
    by (rule phase_schedule_reach) (auto simp: overtaking_def)
  with overtaking_runs [OF assms(3)]
  show "\<exists>s. pa.reach 3 b act 3 s \<and> trace s = [(0, 0), (0, 1), (0, 2), (1, 0), (2, 0)] \<and> shared s = b'" by blast
qed

theorem barrier_can_fail_witness:
  "(\<exists>s. transition_system.reach (wait_init 2) (wait_step 2) s \<and> run_schedule [0, 1, 1, 0] s = s) \<and>
   (\<exists>s. transition_system.reach (wait_init 3) (again_step 3) s \<and> fold wait_again_step [0, 1, 2, 0] s = s) \<and>
   (\<exists>s. pa.reach 3 (0 :: nat) (\<lambda>p h c. Inr (c + 1)) 3 s \<and> (2, 0) \<in> set (trace s) \<and> (1, 1) \<notin> set (trace s))"
proof -
  have "run_acts (\<lambda>p h c. Inr (c + 1)) [(0, 0), (0, 1), (0, 2), (1, 0), (2, 0)] (0 :: nat) = Inr 5" by simp
  from barrier_can_fail [OF _ _ this, of "[0, 1, 1, 0]" "[0, 1, 2, 0]"] show ?thesis by fastforce
qed

text \<open>
  (C31) The barriers of \<^verbatim>\<open>main\<close> separate its phases, in every interleaving of the two configured harts and
  in every interleaving of any number of harts in which no hart finds the tokens used up while another
  is resetting them. The phases happen in their order, each once per hart, and the shared state is what
  they compute one after the other; a hart past a barrier proves that all harts have executed all phases
  before it. So \<^verbatim>\<open>cpu_mapped\<close> is zero until all harts run on their page tables, and set before a hart
  gets to \<^verbatim>\<open>vm_run\<close>.
\<close>

theorem main_phases_ordered:
  assumes "pq.reach n (hs, b) (main_act L udev bus vec) 3 s \<or>
      n = DTB_NR_CPUS \<and> pa.reach n (hs, b) (main_act L udev bus vec) 3 s"
    and "cpu_mapped b = 0" "n \<le> 2 ^ 64"
  shows "sorted (map fst (trace s)) \<and> distinct (trace s) \<and>
    run_acts (main_act L udev bus vec) (trace s) (hs, b) = Inr (shared s) \<and>
    (\<forall>h < n. \<forall>k < n. \<forall>q. wpc (bars s) h = Returned \<and> q < calls s h \<longrightarrow> (q, k) \<in> set (trace s)) \<and>
    ((\<exists>k < n. (1, k) \<notin> set (trace s)) \<longrightarrow> cpu_mapped (snd (shared s)) = 0) \<and>
    ((\<exists>h < n. at_vm_run s h) \<longrightarrow> cpu_mapped (snd (shared s)) = 1)"
proof -
  have r: "pq.reach n (hs, b) (main_act L udev bus vec) 3 s \<or> n = 2 \<and> pa.reach n (hs, b) (main_act L udev bus vec) 3 s"
    using assms(1) by (simp add: layout_defs)
  note o = phases_ordered(1) [OF r, unfolded ordered_def] and a = phases_ordered(2) [OF r]
  have tr: "(p, h) \<in> set (trace s) \<longleftrightarrow> h < n \<and> p < executed s h" for p h using o by simp
  have close: "h < n \<Longrightarrow> k < n \<Longrightarrow> executed s h \<le> Suc (executed s k)" for h k using o by blast
  obtain hs' b' where sh: "shared s = (hs', b')" by (cases "shared s")
  have m: "cpu_mapped b' = (if (2, 0) \<in> set (trace s) then 1 else 0)"
    using run_acts_mapped [of L udev bus vec "trace s" hs b hs' b'] o sh assms(2,3) by auto
  have "(1, k) \<in> set (trace s)" if "(2, 0) \<in> set (trace s)" "k < n" for k
    using that close [of 0 k] by (simp add: tr)
  moreover have "(2, 0) \<in> set (trace s)" if "h < n" "at_vm_run s h" for h
    using a [OF that(1), of 0] that by (auto simp: tr at_vm_run_def)
  moreover have "(q, k) \<in> set (trace s)" if "h < n" "k < n" "wpc (bars s) h = Returned" "q < calls s h" for h k q
    using a [OF that(1,3,2)] that by (simp add: tr)
  ultimately show ?thesis using o m by (auto simp: sh)
qed

theorem main_phases_ordered_witness:
  "let act = main_act demo_linker (slow_port 7) serial_card 0x1000;
       s = fold (phase_step act 3) lockstep (phase_start 2 (\<lambda>_. demo_hart, demo_board))
   in at_vm_run s 0 \<and> sorted (map fst (trace s)) \<and> cpu_mapped (snd (shared s)) = 1"
proof -
  let ?act = "main_act demo_linker (slow_port 7) serial_card 0x1000"
  let ?s = "fold (phase_step ?act 3) lockstep (phase_start 2 (\<lambda>_. demo_hart, demo_board))"
  obtain x where x: "run_acts ?act [(0, 0), (0, 1), (1, 0), (1, 1), (2, 0), (2, 1)] (\<lambda>_. demo_hart, demo_board) = Inr x"
    using main_runs [OF slow_port_hw demo_layout demo_small demo_board_fresh] by blast
  have "at_vm_run ?s 0" using lockstep_runs [OF x] by (simp add: at_vm_run_def)
  moreover have "pa.reach 2 (\<lambda>_. demo_hart, demo_board) ?act 3 ?s"
    by (rule phase_schedule_reach) (auto simp: lockstep_def pass_once_def)
  then have "pq.reach 2 (\<lambda>_. demo_hart, demo_board) ?act 3 ?s \<or>
      2 = DTB_NR_CPUS \<and> pa.reach 2 (\<lambda>_. demo_hart, demo_board) ?act 3 ?s" by (simp add: layout_defs)
  note main_phases_ordered [OF this]
  ultimately show ?thesis by (auto simp: Let_def demo_board_def)
qed

section \<open>Physical memory\<close>

text \<open>
  (C32) On a well-formed free list \<^verbatim>\<open>kmalloc\<close> hands out the first free page, cleared, leaves the
  rest of the list well formed and the lock released; with no free page it does not return 0 but
  writes through the null pointer.
\<close>

theorem kmalloc_behaviour:
  assumes "kmem_ok dynamic s free"
  shows "case free of
      [] \<Rightarrow> kmalloc s = Inl Null_deref
    | p # rest \<Rightarrow> \<exists>s'. kmalloc s = Inr (p, s') \<and> kmem_ok dynamic s' rest \<and>
        (\<forall>a. take_bit 3 a = 0 \<longrightarrow>
           load64 (mem s') a = (if PGROUNDDOWN a = p then 0 else load64 (mem s) a))"
proof (cases free)
  case Nil
  then show ?thesis using assms kmalloc_exhausted by simp
next
  case (Cons p rest)
  note page = kmalloc_page [OF assms [unfolded Cons]]
  have "take_bit 12 p = 0" using assms Cons by (auto simp: kmem_ok_def valid_address_aligned)
  with page Cons show ?thesis by (auto simp: bm.ld_clr)
qed

theorem kmalloc_behaviour_witness:
  "\<exists>s'. kmalloc demo_kmem = Inr (demo_page1, s') \<and> kmem_ok demo_dynamic s' [demo_page2, demo_page3]"
  using kmalloc_behaviour [OF demo_kmem_ok] by auto



text \<open>
  (C34) In every interleaving of any number of harts that call \<^verbatim>\<open>kmalloc\<close> and \<^verbatim>\<open>kfree\<close>, write into the
  pages they were given and hand them over, the allocator refines a map from pages to their owners, in
  which a free page is given to one hart, given back or handed over. In every reachable state the free
  list is intact and holds exactly the pages nobody owns, so no page is lost or handed out twice; a page
  that \<^verbatim>\<open>kmalloc\<close> is about to return belongs to that hart alone and every byte of it is still zero.
\<close>

theorem allocator_refines:
  assumes "transition_system.reach (par_init dynamic) (par_step dynamic) s"
  shows "transition_system.reach (\<lambda>ow. ow = Map.empty) (page_step dynamic) (powner s) \<and>
    (\<exists>free. bm.chain (mem (kst s)) (freelist (kst s)) free \<and> distinct free \<and>
       set free = {p. valid_address dynamic p \<and> powner s p = None}) \<and>
    (\<forall>h p. kpc s h = K_return p \<longrightarrow> valid_address dynamic p \<and> powner s p = Some h \<and>
       (\<forall>x. PGROUNDDOWN x = p \<longrightarrow> mem (kst s) x = 0) \<and> (\<forall>k. kpc s k = K_return p \<longrightarrow> k = h))"
proof (intro conjI allI impI)
  show "transition_system.reach (\<lambda>ow. ow = Map.empty) (page_step dynamic) (powner s)"
    by (rule ks.abs_reach [OF assms])
  show "\<exists>free. bm.chain (mem (kst s)) (freelist (kst s)) free \<and> distinct free \<and>
      set free = {p. valid_address dynamic p \<and> powner s p = None}"
    using par_reachD(3) [OF assms] bm.chain_distinct unfolding list_ok_def by blast
next
  fix h p x assume h: "kpc s h = K_return p"
  note r = kmalloc_result [OF assms h]
  show "valid_address dynamic p" "powner s p = Some h" "PGROUNDDOWN x = p \<Longrightarrow> mem (kst s) x = 0"
    by (fact r)+
  fix k assume "kpc s k = K_return p"
  from kmalloc_result(2) [OF assms this] r(2) show "k = h" by simp
qed

theorem allocator_refines_witness:
  "\<exists>s p q. transition_system.reach (par_init demo_dynamic) (par_step demo_dynamic) s \<and>
     kpc s 0 = K_return p \<and> kpc s 1 = K_return q \<and> p \<noteq> q \<and> powner s q = Some 1"
proof -
  obtain s p q where s: "transition_system.reach (par_init demo_dynamic) (par_step demo_dynamic) s"
    "kpc s 0 = K_return p" "kpc s 1 = K_return q" using demo_two_calls by blast
  note r = allocator_refines [OF s(1)]
  have "powner s q = Some 1" "p \<noteq> q" using r s(2,3) by (blast, metis zero_neq_one)
  with s show ?thesis by blast
qed

text \<open>
  (C35) A hart that runs through \<^verbatim>\<open>kmalloc\<close> or \<^verbatim>\<open>kfree\<close> without interruption has exactly the effect of
  the sequential definitions used in the rest of the development: the same page and the same memory,
  lock and free list when the call returns; it halts where they stop with an error, and spins where
  the lock is taken.
\<close>

theorem calls_alone_agree:
  assumes "kpc s h = K_acquire" "kpc t h = F_check p"
  shows "(case kmalloc (kst s) of
      Inr (q, k) \<Rightarrow> \<exists>n. (kmalloc_step h ^^ n) s =
        s\<lparr>kst := k, powner := (powner s)(q := Some h), kpc := (kpc s)(h := K_return q)\<rparr>
    | Inl e \<Rightarrow> (e = Spin_forever \<and> kmalloc_step h s = s) \<or>
        (e = Null_deref \<and> (\<exists>n. kpc ((kmalloc_step h ^^ n) s) h = Halted))) \<and>
    (case kfree dynamic p (kst t) of
      Inr k \<Rightarrow> \<exists>n. (kfree_step dynamic h ^^ n) t =
        t\<lparr>kst := k, powner := (powner t)(p := None), kpc := (kpc t)(h := Idle)\<rparr>
    | Inl (Panic msg) \<Rightarrow> kpc (kfree_step dynamic h t) h = Halted
    | Inl e \<Rightarrow> e = Spin_forever \<and> kfree_step dynamic h (kfree_step dynamic h t) = kfree_step dynamic h t)"
  using kmalloc_alone [OF assms(1)] kfree_alone [OF assms(2)] by blast

theorem calls_alone_agree_witness:
  "\<exists>n k. let s = \<lparr>kst = demo_kmem, kpc = \<lambda>_. K_acquire, powner = Map.empty\<rparr> in
     (kmalloc_step 3 ^^ n) s =
       s\<lparr>kst := k, powner := [demo_page1 \<mapsto> 3], kpc := (\<lambda>_. K_acquire)(3 := K_return demo_page1)\<rparr>"
proof -
  let ?s = "\<lparr>kst = demo_kmem, kpc = \<lambda>_. K_acquire, powner = Map.empty\<rparr>"
  let ?t = "\<lparr>kst = demo_kmem, kpc = \<lambda>_. F_check 0, powner = Map.empty\<rparr>"
  from kmalloc_page(1) [OF demo_kmem_ok] obtain k where k: "kmalloc demo_kmem = Inr (demo_page1, k)" by blast
  from calls_alone_agree [of ?s 3 ?t 0 demo_dynamic, THEN conjunct1] k show ?thesis by (auto simp: Let_def)
qed

section \<open>Output and firmware calls\<close>

text \<open>
  (C36) Printed numbers read back: for every base from 2 to 16 \<^verbatim>\<open>print_uint\<close> returns the number's
  digits without leading zeros, at most the 64 its buffer holds; \<^verbatim>\<open>print_padded\<close> prints exactly the
  digits of the requested number of bytes, separators aside, and they denote the number modulo
  that width.
\<close>

theorem numbers_read_back:
  assumes "2 \<le> base" "base \<le> 16" "pbase = 2 \<or> pbase = 16" "1 \<le> bytes" "bytes \<le> 8"
  shows "(\<exists>cs. print_uint num base = Inr cs \<and> length cs \<le> 64 \<and> is_number (nat base) cs \<and>
      value_of (nat base) cs = unat num) \<and>
    (\<exists>out. print_padded num pbase bytes = Inr out \<and>
      length (no_sep out) = nat (if pbase = 2 then 8 * bytes else 2 * bytes) \<and>
      value_of (nat pbase) (no_sep out) = unat (take_bit (nat (8 * bytes)) num))"
  using print_uint_ok [OF assms(1,2), of num] print_padded_ok [OF assms(3-5), of num] by blast

theorem numbers_read_back_witness:
  "\<exists>cs. print_uint 0xffffffffffffffff 2 = Inr cs \<and> length cs \<le> 64 \<and> value_of 2 cs = 18446744073709551615"
  using numbers_read_back [of 2 16 8 "0xffffffffffffffff"] by auto

text \<open>
  (C37) \<^verbatim>\<open>printf\<close> with one directive \<^verbatim>\<open>%ld\<close> inside plain text returns with the lock as it was; its
  output is the text with the directive replaced by a decimal number that reads back as the signed
  value of the argument, for every 64-bit argument but the least.
\<close>

theorem printf_signed:
  assumes "plain pre" "plain post" "locked lk = 0" "sint w \<noteq> - (2 ^ 63)"
  shows "\<exists>out. printf lk (Some (pre @ CHR ''%'' # ''ld'' @ post)) (Va_word w # ap) = Inr (pre @ out @ post, lk) \<and>
    signed_value out = sint w"
proof -
  have s: "signed_take_bit (nat (8 * 8) - 1) (uint w) = sint w" by (simp add: sint_uint)
  then obtain out where out: "PRINT_INT w 10 8 = Inr out" "signed_value out = sint w"
    using PRINT_INT_ok [of 8 w] assms(4) by auto
  have "directive (pre @ CHR ''%'' # ''ld'' @ post) (length pre + 1) (Va_word w # ap) =
      Inr (out, ap, False, length pre + 1 + length ''ld'')"
    by (simp only: directive_ld out(1) bindE_Inr)
  from printf_one [OF assms(1-3) this] out(2) show ?thesis by auto
qed

theorem printf_signed_witness:
  "\<exists>out. printf LOCK_INITIALIZER (Some (''x = '' @ CHR ''%'' # ''ld'' @ [CHR 0x0A])) [Va_word (- 42)] =
     Inr (''x = '' @ out @ [CHR 0x0A], LOCK_INITIALIZER) \<and> signed_value out = - 42"
  using printf_signed [of "''x = ''" "[CHR 0x0A]" LOCK_INITIALIZER "- 42" "[]"]
  by (simp add: LOCK_INITIALIZER_def)



section \<open>Bit helpers\<close>

text \<open>
  (C40) \<^verbatim>\<open>count_set_bits\<close> counts the set bits below bit 31 and then adds one if any bit from 31 to
  63 is set: the mask is a signed 32-bit integer and its last value is sign extended, so the upper
  half of a 64-bit number counts at most once.
\<close>

theorem count_set_bits_saturates:
  "count_set_bits num = int (card {j. j < 31 \<and> bit num j}) + of_bool (drop_bit 31 num \<noteq> 0)"
  by (rule count_set_bits_eq)

end
